(* ===== verification/Dupa_Prelude.thy ===== *)
theory Dupa_Prelude
  imports Main "HOL-Library.Word" "HOL-Library.Char_ord"
begin

text \<open>
  Shared vocabulary of the development: the ways in which the C++ code can stop
  (a failed \<open>assert\<close>, a dereferenced null pointer, undefined behaviour, a thrown
  exception), the result type of every fallible operation, sequencing of such operations
  and a few generic lemmas on lists. The model is that of the default (debug) build, in
  which \<open>assert\<close> is active.
\<close>

section \<open>Machine types\<close>

text \<open>\<open>using Cksum = uint64_t\<close> (hash_cache.h).\<close>

type_synonym Cksum = "64 word"

section \<open>Failing operations\<close>

datatype fault =
    Assertion string    \<comment> \<open>an \<open>assert\<close> whose condition is false; the text of the condition\<close>
  | NullDeref           \<comment> \<open>a null or dangling pointer is dereferenced\<close>
  | Undefined string    \<comment> \<open>other undefined behaviour of C++\<close>
  | Exception string    \<comment> \<open>an exception that leaves the operation\<close>
  | Terminated string   \<comment> \<open>\<open>std::terminate\<close>, after an exception in a destructor\<close>
  | OutOfFuel           \<comment> \<open>the recursion bound of the model is used up\<close>

type_synonym 'a res = "fault + 'a"

fun rbind :: "'a res \<Rightarrow> ('a \<Rightarrow> 'b res) \<Rightarrow> 'b res" where
  "rbind (Inl e) f = Inl e"
| "rbind (Inr x) f = f x"

definition rassert :: "bool \<Rightarrow> string \<Rightarrow> 'a res \<Rightarrow> 'a res" where
  "rassert b msg k = (if b then k else Inl (Assertion msg))"

text \<open>A pointer dereference: the object a possibly dangling pointer stands for.\<close>

definition deref :: "'a option \<Rightarrow> ('a \<Rightarrow> 'b res) \<Rightarrow> 'b res" where
  "deref p k = (case p of None \<Rightarrow> Inl NullDeref | Some x \<Rightarrow> k x)"

text \<open>A range-based \<open>for\<close> over a container: the body runs on every element in order and
  the first failure ends the loop.\<close>

fun foldR :: "('a \<Rightarrow> 's \<Rightarrow> 's res) \<Rightarrow> 'a list \<Rightarrow> 's \<Rightarrow> 's res" where
  "foldR f [] s = Inr s"
| "foldR f (x # xs) s = rbind (f x s) (foldR f xs)"

named_theorems res_simps \<open>simplification of sequenced operations\<close>

lemma rbind_Inr_iff [res_simps]: "rbind m f = Inr y \<longleftrightarrow> (\<exists>x. m = Inr x \<and> f x = Inr y)"
  by (cases m) auto

lemma rbind_Inr_right [simp]: "rbind m Inr = m"
  by (cases m) auto

lemma rbind_assoc: "rbind (rbind m f) g = rbind m (\<lambda>x. rbind (f x) g)"
  by (cases m) auto

lemma rassert_True [simp]: "rassert True msg k = k"
  by (simp add: rassert_def)

lemma rassert_Inr_iff [res_simps]: "rassert b msg k = Inr y \<longleftrightarrow> b \<and> k = Inr y"
  by (simp add: rassert_def)

lemma deref_Some [simp]: "deref (Some x) k = k x"
  by (simp add: deref_def)

lemma deref_None [simp]: "deref None k = Inl NullDeref"
  by (simp add: deref_def)

lemma deref_Inr_iff [res_simps]: "deref p k = Inr y \<longleftrightarrow> (\<exists>x. p = Some x \<and> k x = Inr y)"
  by (cases p) auto

lemma foldR_Nil_fun [simp]: "foldR f [] = Inr"
  by (rule ext) simp

lemma foldR_single [simp]: "foldR f [x] = f x"
  by (rule ext) simp

lemma foldR_append: "foldR f (xs @ ys) s = rbind (foldR f xs s) (foldR f ys)"
proof (induction xs arbitrary: s)
  case (Cons x xs)
  then show ?case by (cases "f x s") auto
qed simp

lemma foldR_cong [fundef_cong]:
  assumes "xs = ys" and "s = t" and "\<And>x u. x \<in> set ys \<Longrightarrow> f x u = g x u"
  shows "foldR f xs s = foldR g ys t"
proof -
  have "(\<And>x u. x \<in> set ys \<Longrightarrow> f x u = g x u) \<Longrightarrow> foldR f ys t = foldR g ys t" for ys t
  proof (induction ys arbitrary: t)
    case (Cons y ys)
    then have "foldR f ys = foldR g ys" by auto
    with Cons.prems show ?case by simp
  qed simp
  with assms show ?thesis by blast
qed

text \<open>The loop rule: an invariant over the elements already visited, kept by every
  iteration, which also does not fail.\<close>

lemma foldR_rule:
  assumes "I [] s"
    and "\<And>ys x zs t. xs = ys @ x # zs \<Longrightarrow> I ys t \<Longrightarrow> \<exists>t'. f x t = Inr t' \<and> I (ys @ [x]) t'"
  shows "\<exists>s'. foldR f xs s = Inr s' \<and> I xs s'"
proof -
  have "\<exists>s'. foldR f zs t = Inr s' \<and> I xs s'" if "xs = ys @ zs" "I ys t" for ys zs t
    using that
  proof (induction zs arbitrary: ys t)
    case (Cons z zs)
    then obtain t' where "f z t = Inr t'" "I (ys @ [z]) t'"
      using assms(2) by blast
    with Cons show ?case by simp
  qed simp
  from this [of "[]" xs s] assms(1) show ?thesis by simp
qed

lemma foldR_invariant:
  assumes "foldR f xs s = Inr s'" and "P s"
    and "\<And>x t t'. x \<in> set xs \<Longrightarrow> P t \<Longrightarrow> f x t = Inr t' \<Longrightarrow> P t'"
  shows "P s'"
  using assms
proof (induction xs arbitrary: s)
  case (Cons x xs)
  from Cons.prems(1) obtain t where t: "f x s = Inr t" "foldR f xs t = Inr s'"
    by (auto simp: res_simps)
  with Cons.prems have "P t" by auto
  with Cons t show ?case by auto
qed simp

lemma foldR_total:
  assumes "P s"
    and "\<And>x t. x \<in> set xs \<Longrightarrow> P t \<Longrightarrow> \<exists>t'. f x t = Inr t' \<and> P t'"
  shows "\<exists>s'. foldR f xs s = Inr s' \<and> P s'"
  using foldR_rule [of "\<lambda>_. P" s xs f] assms by (metis in_set_conv_decomp)

lemma foldR_cong_invariant:
  assumes "P s" and "\<And>x t. x \<in> set xs \<Longrightarrow> P t \<Longrightarrow> f x t = g x t"
    and "\<And>x t t'. x \<in> set xs \<Longrightarrow> P t \<Longrightarrow> g x t = Inr t' \<Longrightarrow> P t'"
  shows "foldR f xs s = foldR g xs s"
  using assms
proof (induction xs arbitrary: s)
  case (Cons x xs)
  have same: "f x s = g x s" using Cons.prems(1,2) by simp
  show ?case
  proof (cases "g x s")
    case (Inr t)
    with Cons.prems have "P t" by (metis list.set_intros(1))
    then have "foldR f xs t = foldR g xs t"
      by (rule Cons.IH) (use Cons.prems(2,3) in \<open>simp, blast intro: list.set_intros(2)\<close>)
    with same Inr show ?thesis by simp
  qed (simp add: same)
qed simp

section \<open>Lists\<close>

lemma find_SomeD: "find P xs = Some x \<Longrightarrow> x \<in> set xs \<and> P x"
  by (induction xs) (auto split: if_splits)

lemma foldR_concat: "foldR (\<lambda>x. foldR f (g x)) xs s = foldR f (concat (map g xs)) s"
proof (induction xs arbitrary: s)
  case (Cons x xs)
  then have "foldR (\<lambda>x. foldR f (g x)) xs = foldR f (concat (map g xs))" by auto
  then show ?case by (simp add: foldR_append)
qed simp

text \<open>Concatenating at most one item per element of a list whose elements have distinct keys.\<close>

lemma distinct_map_concat:
  assumes "distinct (map key xs)"
    and "\<And>x y. x \<in> set xs \<Longrightarrow> y \<in> set (F x) \<Longrightarrow> tag y = key x"
    and "\<And>x. x \<in> set xs \<Longrightarrow> length (F x) \<le> 1"
  shows "distinct (map tag (concat (map F xs)))"
  using assms
proof (induction xs)
  case (Cons x xs)
  have "distinct (map tag (F x))"
    using Cons.prems(3) [of x] by (cases "F x") auto
  moreover have "tag y \<noteq> tag y'"
    if y: "y \<in> set (F x)" and x': "x' \<in> set xs" "y' \<in> set (F x')" for y x' y'
  proof -
    have "tag y = key x" "tag y' = key x'"
      using y x' Cons.prems(2) by auto
    then show ?thesis using x'(1) Cons.prems(1) by auto
  qed
  ultimately show ?case using Cons by fastforce
qed simp

section \<open>Numbers as text\<close>

text \<open>\<open>std::to_string\<close> of a number that is not negative, and of any number.\<close>

fun to_string :: "nat \<Rightarrow> string" where
  "to_string n =
     (if n < 10 then [char_of (48 + n)] else to_string (n div 10) @ [char_of (48 + n mod 10)])"

declare to_string.simps [simp del]

definition to_string_int :: "int \<Rightarrow> string" where
  "to_string_int x = (if x < 0 then ''-'' @ to_string (nat (- x)) else to_string (nat x))"

end
