(* ===== verification/Config.thy ===== *)
theory Config
  imports Dupa_Prelude
begin

text \<open>
  Configuration and logging (src/src/conf.h, src/src/conf.cpp, src/src/log.h,
  src/src/log.cpp). boost::program_options is a parameter: a function from the arguments to
  either the text of a \<open>po::error\<close> or the options that were given. What the code adds (the
  limit of positional arguments, the defaults, the log level, the exits) is modelled.
\<close>

section \<open>Log levels\<close>

datatype LogLevel = DEBUG | INFO | WARNING | ERROR | FATAL

fun level_value :: "LogLevel \<Rightarrow> int" where
  "level_value DEBUG = 1"
| "level_value INFO = 2"
| "level_value WARNING = 3"
| "level_value ERROR = 4"
| "level_value FATAL = 5"

text \<open>Levels are compared by their values.\<close>

instantiation LogLevel :: linorder
begin

definition less_eq_LogLevel :: "LogLevel \<Rightarrow> LogLevel \<Rightarrow> bool" where
  "a \<le> b \<longleftrightarrow> level_value a \<le> level_value b"

definition less_LogLevel :: "LogLevel \<Rightarrow> LogLevel \<Rightarrow> bool" where
  "a < b \<longleftrightarrow> level_value a < level_value b"

instance
proof
  fix a b :: LogLevel
  show "a = b" if "a \<le> b" "b \<le> a"
    using that by (cases a; cases b) (simp_all add: less_eq_LogLevel_def)
qed (auto simp: less_eq_LogLevel_def less_LogLevel_def)

end

text \<open>The condition of the macro \<open>LOG\<close>.\<close>

definition log_enabled :: "LogLevel \<Rightarrow> LogLevel \<Rightarrow> bool" where
  "log_enabled stderr_loglevel level \<longleftrightarrow> stderr_loglevel \<le> level"

section \<open>The configuration\<close>

record GlobalConfig =
  conf_read_cache_from :: string
  conf_dump_cache_to :: string
  conf_sql_out :: string
  conf_dirs :: "string list"
  conf_concurrency :: int
  conf_tolerable_diff_pct :: int
  conf_verbose :: bool
  conf_cache_only :: bool
  conf_use_size :: bool
  conf_ignore_db_prefix :: bool
  conf_skip_renames :: bool

text \<open>What the option parser stores: the options that were given on the command line. A
  \<open>bool_switch\<close> is true exactly when it was given. The values of \<open>directory\<close> come in the order of the
  command line, whether they are positional arguments (\<open>True\<close>) or given with \<open>-d\<close>, which may be repeated
  as the option holds a vector.\<close>

record po_values =
  po_help :: bool
  po_directory :: "(bool \<times> string) list"
  po_read_cache_from :: "string option"
  po_dump_cache_to :: "string option"
  po_sql_out :: "string option"
  po_cache_only :: bool
  po_use_size :: bool
  po_ignore_db_prefix :: bool
  po_skip_renames :: bool
  po_verbose :: bool
  po_concurrency :: "int option"
  po_tolerable_diff_pct :: "int option"

type_synonym option_parser = "string list \<Rightarrow> string + po_values"

text \<open>\<open>po::command_line_parser::run\<close> with the positional arguments described by \<open>p.add("directory", 2)\<close>: a
  third one is an error (\<open>too_many_positional_options_error\<close>), which is a \<open>po::error\<close> too.\<close>

definition max_positional :: nat where
  "max_positional = 2"

definition po_run :: "option_parser \<Rightarrow> option_parser" where
  "po_run parse argv =
     (case parse argv of
        Inl e \<Rightarrow> Inl e
      | Inr vm \<Rightarrow>
          if max_positional < length (filter fst (po_directory vm)) then Inl ''too many positional options''
          else Inr vm)"

fun or_default :: "'a option \<Rightarrow> 'a \<Rightarrow> 'a" where
  "or_default None d = d"
| "or_default (Some v) d = v"

text \<open>\<open>po::notify\<close> writes the values and the defaults of the option table into the fresh,
  zero-initialised configuration.\<close>

definition po_notify :: "po_values \<Rightarrow> GlobalConfig" where
  "po_notify vm = \<lparr>
     conf_read_cache_from = or_default (po_read_cache_from vm) '''',
     conf_dump_cache_to = or_default (po_dump_cache_to vm) '''',
     conf_sql_out = or_default (po_sql_out vm) '''',
     conf_dirs = map snd (po_directory vm),
     conf_concurrency = or_default (po_concurrency vm) 4,
     conf_tolerable_diff_pct = or_default (po_tolerable_diff_pct vm) 20,
     conf_verbose = po_verbose vm,
     conf_cache_only = po_cache_only vm,
     conf_use_size = po_use_size vm,
     conf_ignore_db_prefix = po_ignore_db_prefix vm,
     conf_skip_renames = po_skip_renames vm\<rparr>"

text \<open>The static variables \<open>conf\<close> (conf.cpp) and \<open>stderr_loglevel\<close> (log.cpp).\<close>

record conf_state =
  cs_conf :: "GlobalConfig option"
  cs_loglevel :: LogLevel

definition initial_conf_state :: conf_state where
  "initial_conf_state = \<lparr>cs_conf = None, cs_loglevel = WARNING\<rparr>"

datatype argv_outcome = Exits int | Continues conf_state

definition ParseArgv :: "option_parser \<Rightarrow> string list \<Rightarrow> conf_state \<Rightarrow> argv_outcome" where
  "ParseArgv parse argv st =
     (case po_run parse argv of
        Inl e \<Rightarrow> Exits 1
      | Inr vm \<Rightarrow>
          let conf = po_notify vm;
              level = (if conf_verbose conf then DEBUG else cs_loglevel st)
          in if po_help vm then Exits 0
             else if conf_dirs conf = [] then Exits 1
             else Continues \<lparr>cs_conf = Some conf, cs_loglevel = level\<rparr>)"

definition Conf :: "conf_state \<Rightarrow> GlobalConfig res" where
  "Conf st = (case cs_conf st of None \<Rightarrow> Inl (Assertion ''!!conf'') | Some c \<Rightarrow> Inr c)"

definition InitTestConf :: "option_parser \<Rightarrow> conf_state \<Rightarrow> argv_outcome" where
  "InitTestConf parse st = ParseArgv parse [''test_binary'', ''.''] st"

section \<open>What a successful parse guarantees\<close>

lemma ParseArgv_Continues:
  "ParseArgv parse argv st = Continues st' \<longleftrightarrow>
     (\<exists>vm. po_run parse argv = Inr vm \<and> \<not> po_help vm \<and> conf_dirs (po_notify vm) \<noteq> [] \<and>
        st' = \<lparr>cs_conf = Some (po_notify vm),
               cs_loglevel = (if po_verbose vm then DEBUG else cs_loglevel st)\<rparr>)"
  by (auto simp: ParseArgv_def Let_def po_notify_def split: sum.splits)

text \<open>The configuration of \<open>InitTestConf\<close>: one positional directory, defaults elsewhere.\<close>

definition only_dirs :: "string list \<Rightarrow> po_values" where
  "only_dirs ds = \<lparr>po_help = False, po_directory = map (Pair True) ds, po_read_cache_from = None,
     po_dump_cache_to = None, po_sql_out = None, po_cache_only = False, po_use_size = False,
     po_ignore_db_prefix = False, po_skip_renames = False, po_verbose = False,
     po_concurrency = None, po_tolerable_diff_pct = None\<rparr>"

definition test_conf :: GlobalConfig where
  "test_conf = po_notify (only_dirs [''.''])"

end
