(* ===== verification/Dir_Compare.thy ===== *)
theory Dir_Compare
  imports Dupa_Prelude Config "HOL-Library.List_Lexorder" "HOL-Library.Char_ord"
begin

text \<open>
  Directory comparison (src/src/dir_compare.h, src/src/dir_compare.cpp). The table of paths and
  checksums (\<open>PathHashes\<close>, a boost::multi_index container) is a parameter of the model, a
  record of its operations; the locale \<open>path_hashes\<close> states its documented behaviour. The
  abstract class \<open>CompareOutputStream\<close> is a record of its virtual functions; the locale
  \<open>compare_stream\<close> states what a stream implementation promises.
\<close>

section \<open>The table of paths and checksums\<close>

record PathHash =
  ph_path :: string
  ph_hash :: Cksum

text \<open>The operations of the multi-index container that the code uses: insertion, iteration
  over the index \<open>ByPath\<close>, \<open>find\<close> in the index \<open>ByPath\<close>, and \<open>equal_range\<close> in the index
  \<open>ByHash\<close>. An iterator that \<open>find\<close> returns is an optional element.\<close>

record 'c path_hashes_api =
  mi_empty :: 'c
  mi_insert :: "PathHash \<Rightarrow> 'c \<Rightarrow> 'c"
  mi_by_path :: "'c \<Rightarrow> PathHash list"
  mi_find :: "'c \<Rightarrow> string \<Rightarrow> PathHash option"
  mi_equal_range :: "'c \<Rightarrow> Cksum \<Rightarrow> PathHash list"

text \<open>The abstraction of a table: the partial function from paths to checksums.\<close>

definition content :: "'c path_hashes_api \<Rightarrow> 'c \<Rightarrow> string \<rightharpoonup> Cksum" where
  "content MI c p = map_option ph_hash (mi_find MI c p)"

locale path_hashes =
  fixes MI :: "'c path_hashes_api" and invar :: "'c \<Rightarrow> bool"
  assumes invar_empty: "invar (mi_empty MI)"
    and invar_insert: "invar c \<Longrightarrow> invar (mi_insert MI x c)"
    and find_empty: "mi_find MI (mi_empty MI) p = None"
    and find_insert: "invar c \<Longrightarrow> mi_find MI (mi_insert MI x c) p =
      (if p = ph_path x \<and> mi_find MI c p = None then Some x else mi_find MI c p)"
    and find_key: "invar c \<Longrightarrow> mi_find MI c p = Some x \<Longrightarrow> ph_path x = p"
    and by_path_set: "invar c \<Longrightarrow> set (mi_by_path MI c) = {x. mi_find MI c (ph_path x) = Some x}"
    and by_path_sorted: "invar c \<Longrightarrow> sorted_wrt (<) (map ph_path (mi_by_path MI c))"
    and range_set: "invar c \<Longrightarrow> set (mi_equal_range MI c h) =
      {x. mi_find MI c (ph_path x) = Some x \<and> ph_hash x = h}"
begin

lemma content_empty: "content MI (mi_empty MI) = Map.empty"
  by (simp add: content_def find_empty fun_eq_iff)

text \<open>The container's first index is unique: the first insertion of a path wins.\<close>

lemma content_insert:
  "invar c \<Longrightarrow> content MI (mi_insert MI x c) =
     (if ph_path x \<in> dom (content MI c) then content MI c
      else (content MI c)(ph_path x \<mapsto> ph_hash x))"
  by (auto simp: content_def find_insert fun_eq_iff dom_def)

lemma by_path_mem:
  assumes "invar c"
  shows "x \<in> set (mi_by_path MI c) \<longleftrightarrow> content MI c (ph_path x) = Some (ph_hash x)"
  using assms find_key [OF assms, of "ph_path x"]
  by (auto simp: by_path_set content_def intro: PathHash.equality)

lemma by_path_paths: "invar c \<Longrightarrow> set (map ph_path (mi_by_path MI c)) = dom (content MI c)"
proof -
  assume c: "invar c"
  have "p \<in> ph_path ` set (mi_by_path MI c)" if "content MI c p = Some h" for p h
    using that by_path_mem [OF c, of "\<lparr>ph_path = p, ph_hash = h\<rparr>"] by force
  then show ?thesis
    using by_path_mem [OF c] by auto
qed

lemma by_path_distinct: "invar c \<Longrightarrow> distinct (map ph_path (mi_by_path MI c))"
  using by_path_sorted strict_sorted_iff by blast

lemma range_mem:
  assumes "invar c"
  shows "p \<in> set (map ph_path (mi_equal_range MI c h)) \<longleftrightarrow> content MI c p = Some h"
proof
  assume "p \<in> set (map ph_path (mi_equal_range MI c h))"
  with assms show "content MI c p = Some h"
    by (auto simp: range_set content_def)
next
  assume "content MI c p = Some h"
  then obtain x where x: "mi_find MI c p = Some x" "ph_hash x = h"
    by (auto simp: content_def)
  moreover have "ph_path x = p" using find_key [OF assms x(1)] .
  ultimately show "p \<in> set (map ph_path (mi_equal_range MI c h))"
    using assms by (force simp: range_set)
qed

end

subsection \<open>A table kept as a list sorted by path\<close>

type_synonym path_hash_list = "PathHash list"

fun list_insert :: "PathHash \<Rightarrow> path_hash_list \<Rightarrow> path_hash_list" where
  "list_insert x [] = [x]"
| "list_insert x (y # ys) =
     (if ph_path x < ph_path y then x # y # ys
      else if ph_path x = ph_path y then y # ys
      else y # list_insert x ys)"

definition list_table :: "path_hash_list path_hashes_api" where
  "list_table = \<lparr>mi_empty = [], mi_insert = list_insert, mi_by_path = (\<lambda>c. c),
     mi_find = (\<lambda>c p. find (\<lambda>x. ph_path x = p) c),
     mi_equal_range = (\<lambda>c h. filter (\<lambda>x. ph_hash x = h) c)\<rparr>"

definition sorted_table :: "path_hash_list \<Rightarrow> bool" where
  "sorted_table c \<longleftrightarrow> sorted_wrt (<) (map ph_path c)"

lemma set_list_insert:
  "set (list_insert x c) \<subseteq> insert x (set c)"
  by (induction c) auto

lemma sorted_list_insert: "sorted_table c \<Longrightarrow> sorted_table (list_insert x c)"
proof (induction c)
  case (Cons y ys)
  then show ?case
    using set_list_insert [of x ys] by (fastforce simp: sorted_table_def not_less_iff_gr_or_eq)
qed (simp add: sorted_table_def)

lemma find_list_insert:
  "sorted_table c \<Longrightarrow> find (\<lambda>y. ph_path y = p) (list_insert x c) =
     (if p = ph_path x \<and> find (\<lambda>y. ph_path y = p) c = None then Some x
      else find (\<lambda>y. ph_path y = p) c)"
proof (induction c)
  case (Cons y ys)
  then show ?case
    by (auto simp: sorted_table_def find_None_iff split: if_splits dest: find_SomeD)
qed (auto simp: sorted_table_def)

lemma find_sorted_iff:
  "sorted_table c \<Longrightarrow> find (\<lambda>y. ph_path y = p) c = Some x \<longleftrightarrow> x \<in> set c \<and> ph_path x = p"
  by (induction c) (auto simp: sorted_table_def split: if_splits)

interpretation list_hashes: path_hashes list_table sorted_table
proof
  show "sorted_table (mi_empty list_table)"
    by (simp add: list_table_def sorted_table_def)
qed (auto simp: list_table_def sorted_list_insert find_list_insert find_sorted_iff
     find_None_iff simp flip: sorted_table_def)

section \<open>Output streams\<close>

text \<open>The virtual functions of the abstract class \<open>CompareOutputStream\<close>, each a state
  transformer that may throw.\<close>

record 's CompareOutputStream =
  OverwrittenBy :: "string \<Rightarrow> string list \<Rightarrow> 's \<Rightarrow> 's res"
  CopiedFrom :: "string \<Rightarrow> string list \<Rightarrow> 's \<Rightarrow> 's res"
  RenameTo :: "string \<Rightarrow> string list \<Rightarrow> 's \<Rightarrow> 's res"
  ContentChanged :: "string \<Rightarrow> 's \<Rightarrow> 's res"
  Removed :: "string \<Rightarrow> 's \<Rightarrow> 's res"
  NewFile :: "string \<Rightarrow> 's \<Rightarrow> 's res"

text \<open>A call of one of these functions, as a value.\<close>

datatype compare_event =
    EvOverwrittenBy string "string list"
  | EvCopiedFrom string "string list"
  | EvRenameTo string "string list"
  | EvContentChanged string
  | EvRemoved string
  | EvNewFile string

fun emit :: "'s CompareOutputStream \<Rightarrow> compare_event \<Rightarrow> 's \<Rightarrow> 's res" where
  "emit S (EvOverwrittenBy f cs) = OverwrittenBy S f cs"
| "emit S (EvCopiedFrom f cs) = CopiedFrom S f cs"
| "emit S (EvRenameTo f cs) = RenameTo S f cs"
| "emit S (EvContentChanged f) = ContentChanged S f"
| "emit S (EvRemoved f) = Removed S f"
| "emit S (EvNewFile f) = NewFile S f"

subsection \<open>The printing stream\<close>

text \<open>\<open>operator<<\<close> for a vector of paths: a blank before all but the first.\<close>

fun print_paths_rest :: "string list \<Rightarrow> string" where
  "print_paths_rest [] = []"
| "print_paths_rest (p # ps) = '' '' @ p @ print_paths_rest ps"

definition print_paths :: "string list \<Rightarrow> string" where
  "print_paths ps =
     ''['' @ (case ps of [] \<Rightarrow> [] | p # ps' \<Rightarrow> p @ print_paths_rest ps') @ '']''"

text \<open>The state of \<open>std::cout\<close>: the lines written so far.\<close>

type_synonym stdout = "string list"

definition PrintingOutputStream :: "stdout CompareOutputStream" where
  "PrintingOutputStream = \<lparr>
     OverwrittenBy = (\<lambda>f cs out. Inr (out @ [''OVERWRITTEN_BY: '' @ f @ '' CANDIDATES: '' @ print_paths cs])),
     CopiedFrom = (\<lambda>f cs out. Inr (out @ [''COPIED_FROM: '' @ f @ '' CANDIDATES: '' @ print_paths cs])),
     RenameTo = (\<lambda>f cs out. Inr (out @ [''RENAME_TO: '' @ f @ '' CANDIDATES: '' @ print_paths cs])),
     ContentChanged = (\<lambda>f out. Inr (out @ [''CONTENT_CHANGED: '' @ f])),
     Removed = (\<lambda>f out. Inr (out @ [''REMOVED: '' @ f])),
     NewFile = (\<lambda>f out. Inr (out @ [''NEW_FILE: '' @ f]))\<rparr>"

subsection \<open>The fan-out stream\<close>

text \<open>A \<open>std::vector<std::reference_wrapper<CompareOutputStream>>\<close>: streams over one shared
  state, called in order.\<close>

definition CompareOutputStreams :: "'s CompareOutputStream list \<Rightarrow> 's CompareOutputStream" where
  "CompareOutputStreams streams = \<lparr>
     OverwrittenBy = (\<lambda>f cs. foldR (\<lambda>s. OverwrittenBy s f cs) streams),
     CopiedFrom = (\<lambda>f cs. foldR (\<lambda>s. CopiedFrom s f cs) streams),
     RenameTo = (\<lambda>f cs. foldR (\<lambda>s. RenameTo s f cs) streams),
     ContentChanged = (\<lambda>f. foldR (\<lambda>s. ContentChanged s f) streams),
     Removed = (\<lambda>f. foldR (\<lambda>s. Removed s f) streams),
     NewFile = (\<lambda>f. foldR (\<lambda>s. NewFile s f) streams)\<rparr>"

lemma emit_streams:
  "emit (CompareOutputStreams streams) ev = foldR (\<lambda>s. emit s ev) streams"
  by (cases ev) (simp_all add: CompareOutputStreams_def)

section \<open>The comparison\<close>

definition GetPathsForHash :: "'c path_hashes_api \<Rightarrow> 'c \<Rightarrow> Cksum \<Rightarrow> string list" where
  "GetPathsForHash MI ps h = map ph_path (mi_equal_range MI ps h)"

text \<open>The body of the loop over the first directory.\<close>

definition compare_in_first ::
  "'c path_hashes_api \<Rightarrow> GlobalConfig \<Rightarrow> 's CompareOutputStream \<Rightarrow> 'c \<Rightarrow> 'c \<Rightarrow>
   PathHash \<Rightarrow> 's \<Rightarrow> 's res" where
  "compare_in_first MI conf stream hashes1 hashes2 path_and_hash st =
     (let p1 = ph_path path_and_hash; h1 = ph_hash path_and_hash in
      case mi_find MI hashes2 p1 of
        Some same_path \<Rightarrow>
          let h2 = ph_hash same_path in
          if h1 = h2 then Inr st
          else let ps = GetPathsForHash MI hashes1 h2 in
               if ps \<noteq> [] then OverwrittenBy stream p1 ps st
               else ContentChanged stream p1 st
      | None \<Rightarrow>
          let ps = GetPathsForHash MI hashes2 h1 in
          if ps \<noteq> [] then (if \<not> conf_skip_renames conf then RenameTo stream p1 ps st else Inr st)
          else Removed stream p1 st)"

text \<open>The body of the loop over the second directory.\<close>

definition compare_in_second ::
  "'c path_hashes_api \<Rightarrow> 's CompareOutputStream \<Rightarrow> 'c \<Rightarrow> 'c \<Rightarrow> PathHash \<Rightarrow> 's \<Rightarrow> 's res" where
  "compare_in_second MI stream hashes1 hashes2 path_and_hash st =
     (let p2 = ph_path path_and_hash; h2 = ph_hash path_and_hash in
      if mi_find MI hashes1 p2 \<noteq> None then Inr st
      else let ps = GetPathsForHash MI hashes1 h2 in
           if ps \<noteq> [] then
             let ps2 = filter (\<lambda>copy_candidate. mi_find MI hashes2 copy_candidate \<noteq> None) ps in
             if ps2 \<noteq> [] then CopiedFrom stream p2 ps2 st else Inr st
           else NewFile stream p2 st)"

definition compare_hashes ::
  "'c path_hashes_api \<Rightarrow> GlobalConfig \<Rightarrow> 's CompareOutputStream \<Rightarrow> 'c \<Rightarrow> 'c \<Rightarrow> 's \<Rightarrow> 's res" where
  "compare_hashes MI conf stream hashes1 hashes2 st =
     rbind (foldR (compare_in_first MI conf stream hashes1 hashes2) (mi_by_path MI hashes1) st)
           (foldR (compare_in_second MI stream hashes1 hashes2) (mi_by_path MI hashes2))"

section \<open>The report as a list of events\<close>

text \<open>The calls that one iteration of each loop makes, and those of a whole comparison. They
  do not depend on the stream.\<close>

definition first_events ::
  "'c path_hashes_api \<Rightarrow> GlobalConfig \<Rightarrow> 'c \<Rightarrow> 'c \<Rightarrow> PathHash \<Rightarrow> compare_event list" where
  "first_events MI conf c1 c2 x =
     (case mi_find MI c2 (ph_path x) of
        Some y \<Rightarrow>
          if ph_hash x = ph_hash y then []
          else if GetPathsForHash MI c1 (ph_hash y) \<noteq> []
          then [EvOverwrittenBy (ph_path x) (GetPathsForHash MI c1 (ph_hash y))]
          else [EvContentChanged (ph_path x)]
      | None \<Rightarrow>
          if GetPathsForHash MI c2 (ph_hash x) = [] then [EvRemoved (ph_path x)]
          else if conf_skip_renames conf then []
          else [EvRenameTo (ph_path x) (GetPathsForHash MI c2 (ph_hash x))])"

definition second_events :: "'c path_hashes_api \<Rightarrow> 'c \<Rightarrow> 'c \<Rightarrow> PathHash \<Rightarrow> compare_event list" where
  "second_events MI c1 c2 x =
     (if mi_find MI c1 (ph_path x) \<noteq> None then []
      else if GetPathsForHash MI c1 (ph_hash x) = [] then [EvNewFile (ph_path x)]
      else let ps2 = filter (\<lambda>q. mi_find MI c2 q \<noteq> None) (GetPathsForHash MI c1 (ph_hash x)) in
        if ps2 = [] then [] else [EvCopiedFrom (ph_path x) ps2])"

definition report :: "'c path_hashes_api \<Rightarrow> GlobalConfig \<Rightarrow> 'c \<Rightarrow> 'c \<Rightarrow> compare_event list" where
  "report MI conf c1 c2 =
     concat (map (first_events MI conf c1 c2) (mi_by_path MI c1)) @
     concat (map (second_events MI c1 c2) (mi_by_path MI c2))"

lemma compare_in_first_emit:
  "compare_in_first MI conf S c1 c2 x = foldR (emit S) (first_events MI conf c1 c2 x)"
proof
  fix st
  show "compare_in_first MI conf S c1 c2 x st = foldR (emit S) (first_events MI conf c1 c2 x) st"
    by (simp add: compare_in_first_def first_events_def Let_def split: option.split)
qed

lemma compare_in_second_emit:
  "compare_in_second MI S c1 c2 x = foldR (emit S) (second_events MI c1 c2 x)"
proof
  fix st
  show "compare_in_second MI S c1 c2 x st = foldR (emit S) (second_events MI c1 c2 x) st"
    by (simp add: compare_in_second_def second_events_def Let_def)
qed

lemma compare_hashes_emit:
  "compare_hashes MI conf S c1 c2 st = foldR (emit S) (report MI conf c1 c2) st"
proof -
  have "foldR (compare_in_first MI conf S c1 c2) xs s =
      foldR (emit S) (concat (map (first_events MI conf c1 c2) xs)) s" for xs s
    unfolding compare_in_first_emit by (rule foldR_concat)
  moreover have "foldR (compare_in_second MI S c1 c2) xs =
      foldR (emit S) (concat (map (second_events MI c1 c2) xs))" for xs
    unfolding compare_in_second_emit by (rule ext) (rule foldR_concat)
  ultimately show ?thesis
    by (simp add: compare_hashes_def report_def foldR_append)
qed

subsection \<open>A stream that records the calls\<close>

definition recording_stream :: "compare_event list CompareOutputStream" where
  "recording_stream = \<lparr>
     OverwrittenBy = (\<lambda>f cs log. Inr (log @ [EvOverwrittenBy f cs])),
     CopiedFrom = (\<lambda>f cs log. Inr (log @ [EvCopiedFrom f cs])),
     RenameTo = (\<lambda>f cs log. Inr (log @ [EvRenameTo f cs])),
     ContentChanged = (\<lambda>f log. Inr (log @ [EvContentChanged f])),
     Removed = (\<lambda>f log. Inr (log @ [EvRemoved f])),
     NewFile = (\<lambda>f log. Inr (log @ [EvNewFile f]))\<rparr>"

text \<open>What the comparison reports: the calls it makes on a stream that never throws.\<close>

definition reported ::
  "'c path_hashes_api \<Rightarrow> GlobalConfig \<Rightarrow> 'c \<Rightarrow> 'c \<Rightarrow> compare_event list res" where
  "reported MI conf c1 c2 = compare_hashes MI conf recording_stream c1 c2 []"

lemma emit_recording: "emit recording_stream ev log = Inr (log @ [ev])"
  by (cases ev) (simp_all add: recording_stream_def)

lemma foldR_recording: "foldR (emit recording_stream) evs log = Inr (log @ evs)"
  by (induction evs arbitrary: log) (simp_all add: emit_recording)

lemma reported_report: "reported MI conf c1 c2 = Inr (report MI conf c1 c2)"
  by (simp add: reported_def compare_hashes_emit foldR_recording)

section \<open>What is reported\<close>

fun subject :: "compare_event \<Rightarrow> string" where
  "subject (EvOverwrittenBy f cs) = f"
| "subject (EvCopiedFrom f cs) = f"
| "subject (EvRenameTo f cs) = f"
| "subject (EvContentChanged f) = f"
| "subject (EvRemoved f) = f"
| "subject (EvNewFile f) = f"

lemma first_events_subject: "e \<in> set (first_events MI conf c1 c2 x) \<Longrightarrow> subject e = ph_path x"
  by (auto simp: first_events_def split: option.splits if_splits)

lemma second_events_subject: "e \<in> set (second_events MI c1 c2 x) \<Longrightarrow> subject e = ph_path x"
  by (auto simp: second_events_def Let_def split: if_splits)

lemma first_events_length: "length (first_events MI conf c1 c2 x) \<le> 1"
  by (auto simp: first_events_def split: option.splits)

lemma second_events_length: "length (second_events MI c1 c2 x) \<le> 1"
  by (auto simp: second_events_def Let_def)

context path_hashes
begin

lemma set_GetPathsForHash:
  "invar c \<Longrightarrow> set (GetPathsForHash MI c h) = {p. content MI c p = Some h}"
  using range_mem by (auto simp: GetPathsForHash_def)

lemma GetPathsForHash_Nil: "invar c \<Longrightarrow> GetPathsForHash MI c h = [] \<longleftrightarrow> h \<notin> ran (content MI c)"
  using set_GetPathsForHash [of c h] by (auto simp: ran_def simp flip: set_empty)

lemma first_events_content:
  assumes "invar c1" and "invar c2"
  shows "first_events MI conf c1 c2 x =
    (case content MI c2 (ph_path x) of
       Some h2 \<Rightarrow>
         if ph_hash x = h2 then []
         else if h2 \<in> ran (content MI c1)
         then [EvOverwrittenBy (ph_path x) (GetPathsForHash MI c1 h2)]
         else [EvContentChanged (ph_path x)]
     | None \<Rightarrow>
         if ph_hash x \<notin> ran (content MI c2) then [EvRemoved (ph_path x)]
         else if conf_skip_renames conf then []
         else [EvRenameTo (ph_path x) (GetPathsForHash MI c2 (ph_hash x))])"
  using assms
  by (cases "mi_find MI c2 (ph_path x)")
     (simp_all add: first_events_def GetPathsForHash_Nil content_def [of MI c2 "ph_path x"])

lemma second_events_content:
  assumes "invar c1" and "invar c2"
  shows "second_events MI c1 c2 x =
    (if ph_path x \<in> dom (content MI c1) then []
     else if ph_hash x \<notin> ran (content MI c1) then [EvNewFile (ph_path x)]
     else let ps2 = filter (\<lambda>q. q \<in> dom (content MI c2)) (GetPathsForHash MI c1 (ph_hash x)) in
       if ps2 = [] then [] else [EvCopiedFrom (ph_path x) ps2])"
proof -
  have "mi_find MI c q \<noteq> None \<longleftrightarrow> q \<in> dom (content MI c)" for c q
    by (auto simp: content_def)
  then show ?thesis
    using assms by (simp add: second_events_def GetPathsForHash_Nil)
qed

lemma report_mem:
  assumes "invar c1" and "invar c2"
  shows "e \<in> set (report MI conf c1 c2) \<longleftrightarrow>
    (\<exists>x. content MI c1 (ph_path x) = Some (ph_hash x) \<and> e \<in> set (first_events MI conf c1 c2 x)) \<or>
    (\<exists>x. content MI c2 (ph_path x) = Some (ph_hash x) \<and> e \<in> set (second_events MI c1 c2 x))"
  using by_path_mem [OF assms(1)] by_path_mem [OF assms(2)] by (auto simp: report_def)

text \<open>The events about one path, read off the two contents.\<close>

definition path_events :: "GlobalConfig \<Rightarrow> 'c \<Rightarrow> 'c \<Rightarrow> string \<Rightarrow> compare_event list" where
  "path_events conf c1 c2 p =
     (case content MI c1 p of
        Some h1 \<Rightarrow>
          (case content MI c2 p of
             Some h2 \<Rightarrow>
               if h1 = h2 then []
               else if h2 \<in> ran (content MI c1)
               then [EvOverwrittenBy p (GetPathsForHash MI c1 h2)]
               else [EvContentChanged p]
           | None \<Rightarrow>
               if h1 \<notin> ran (content MI c2) then [EvRemoved p]
               else if conf_skip_renames conf then []
               else [EvRenameTo p (GetPathsForHash MI c2 h1)])
      | None \<Rightarrow>
          (case content MI c2 p of
             None \<Rightarrow> []
           | Some h2 \<Rightarrow>
               if h2 \<notin> ran (content MI c1) then [EvNewFile p]
               else let ps2 = filter (\<lambda>q. q \<in> dom (content MI c2)) (GetPathsForHash MI c1 h2) in
                 if ps2 = [] then [] else [EvCopiedFrom p ps2]))"

lemma report_subject:
  assumes "invar c1" and "invar c2"
  shows "e \<in> set (report MI conf c1 c2) \<longleftrightarrow> e \<in> set (path_events conf c1 c2 (subject e))"
proof -
  let ?x = "\<lambda>h. \<lparr>ph_path = subject e, ph_hash = h\<rparr>"
  have ex: "(\<exists>x. m (ph_path x) = Some (ph_hash x) \<and> e \<in> set (F x)) \<longleftrightarrow>
      (\<exists>h. m (subject e) = Some h \<and> e \<in> set (F (?x h)))"
    if F: "\<And>x. e \<in> set (F x) \<Longrightarrow> subject e = ph_path x" for m :: "string \<rightharpoonup> Cksum" and F
  proof
    assume "\<exists>x. m (ph_path x) = Some (ph_hash x) \<and> e \<in> set (F x)"
    then obtain x where x: "m (ph_path x) = Some (ph_hash x)" "e \<in> set (F x)" by blast
    obtain p h where "x = \<lparr>ph_path = p, ph_hash = h\<rparr>" by (cases x)
    with x F [OF x(2)] show "\<exists>h. m (subject e) = Some h \<and> e \<in> set (F (?x h))"
      by auto
  next
    assume "\<exists>h. m (subject e) = Some h \<and> e \<in> set (F (?x h))"
    then obtain h where "m (subject e) = Some h" "e \<in> set (F (?x h))" by blast
    then show "\<exists>x. m (ph_path x) = Some (ph_hash x) \<and> e \<in> set (F x)"
      by (intro exI [of _ "?x h"]) simp
  qed
  have "e \<in> set (report MI conf c1 c2) \<longleftrightarrow>
      (\<exists>h. content MI c1 (subject e) = Some h \<and> e \<in> set (first_events MI conf c1 c2 (?x h))) \<or>
      (\<exists>h. content MI c2 (subject e) = Some h \<and> e \<in> set (second_events MI c1 c2 (?x h)))"
    by (simp only: report_mem [OF assms] ex [OF first_events_subject] ex [OF second_events_subject])
  then show ?thesis
    by (cases "content MI c1 (subject e)"; cases "content MI c2 (subject e)")
       (simp_all add: first_events_content [OF assms] second_events_content [OF assms]
          path_events_def domIff Let_def)
qed

lemma Removed_reported:
  assumes "invar c1" and "invar c2"
  shows "EvRemoved p \<in> set (report MI conf c1 c2) \<longleftrightarrow>
    (\<exists>h. content MI c1 p = Some h \<and> content MI c2 p = None \<and> h \<notin> ran (content MI c2))"
  unfolding report_subject [OF assms]
  by (cases "content MI c1 p"; cases "content MI c2 p") (auto simp: path_events_def Let_def)

lemma RenameTo_reported:
  assumes "invar c1" and "invar c2"
  shows "EvRenameTo p cs \<in> set (report MI conf c1 c2) \<longleftrightarrow>
    \<not> conf_skip_renames conf \<and> (\<exists>h. content MI c1 p = Some h \<and> content MI c2 p = None \<and>
      h \<in> ran (content MI c2) \<and> cs = GetPathsForHash MI c2 h)"
  unfolding report_subject [OF assms]
  by (cases "content MI c1 p"; cases "content MI c2 p") (auto simp: path_events_def Let_def)

lemma OverwrittenBy_reported:
  assumes "invar c1" and "invar c2"
  shows "EvOverwrittenBy p cs \<in> set (report MI conf c1 c2) \<longleftrightarrow>
    (\<exists>h h'. content MI c1 p = Some h \<and> content MI c2 p = Some h' \<and> h \<noteq> h' \<and>
      h' \<in> ran (content MI c1) \<and> cs = GetPathsForHash MI c1 h')"
  unfolding report_subject [OF assms]
  by (cases "content MI c1 p"; cases "content MI c2 p") (auto simp: path_events_def Let_def)

lemma ContentChanged_reported:
  assumes "invar c1" and "invar c2"
  shows "EvContentChanged p \<in> set (report MI conf c1 c2) \<longleftrightarrow>
    (\<exists>h h'. content MI c1 p = Some h \<and> content MI c2 p = Some h' \<and> h \<noteq> h' \<and>
      h' \<notin> ran (content MI c1))"
  unfolding report_subject [OF assms]
  by (cases "content MI c1 p"; cases "content MI c2 p") (auto simp: path_events_def Let_def)

lemma NewFile_reported:
  assumes "invar c1" and "invar c2"
  shows "EvNewFile p \<in> set (report MI conf c1 c2) \<longleftrightarrow>
    (\<exists>h. content MI c2 p = Some h \<and> content MI c1 p = None \<and> h \<notin> ran (content MI c1))"
  unfolding report_subject [OF assms]
  by (cases "content MI c1 p"; cases "content MI c2 p") (auto simp: path_events_def Let_def)

lemma CopiedFrom_reported:
  assumes "invar c1" and "invar c2"
  shows "EvCopiedFrom p cs \<in> set (report MI conf c1 c2) \<longleftrightarrow>
    (\<exists>h. content MI c2 p = Some h \<and> content MI c1 p = None \<and> cs \<noteq> [] \<and>
      cs = filter (\<lambda>q. q \<in> dom (content MI c2)) (GetPathsForHash MI c1 h))"
proof -
  have "h \<in> ran (content MI c1)" if "filter P (GetPathsForHash MI c1 h) \<noteq> []" for P h
    using that GetPathsForHash_Nil [OF assms(1), of h] by auto
  then show ?thesis
    unfolding report_subject [OF assms]
    by (cases "content MI c1 p"; cases "content MI c2 p") (auto simp: path_events_def Let_def)
qed

lemmas reported_iff =
  Removed_reported RenameTo_reported OverwrittenBy_reported ContentChanged_reported
  NewFile_reported CopiedFrom_reported

end

section \<open>Replaying a report\<close>

text \<open>The checksum a path has after the reported actions: a path that is the subject of an
  event has the checksum the event gives it (none when it is removed or renamed, and none when
  its new content was not seen in the first directory); otherwise a path that is a candidate
  of a renaming has the checksum of the renamed file; otherwise nothing happened to it.\<close>

fun new_content :: "(string \<rightharpoonup> Cksum) \<Rightarrow> compare_event \<Rightarrow> Cksum option" where
  "new_content m (EvOverwrittenBy f cs) = (case cs of [] \<Rightarrow> None | c # _ \<Rightarrow> m c)"
| "new_content m (EvCopiedFrom f cs) = (case cs of [] \<Rightarrow> None | c # _ \<Rightarrow> m c)"
| "new_content m (EvRenameTo f cs) = None"
| "new_content m (EvContentChanged f) = None"
| "new_content m (EvRemoved f) = None"
| "new_content m (EvNewFile f) = None"

fun rename_candidate :: "string \<Rightarrow> compare_event \<Rightarrow> bool" where
  "rename_candidate p (EvRenameTo f cs) \<longleftrightarrow> p \<in> set cs"
| "rename_candidate p _ \<longleftrightarrow> False"

definition replay :: "(string \<rightharpoonup> Cksum) \<Rightarrow> compare_event list \<Rightarrow> string \<rightharpoonup> Cksum" where
  "replay m evs p =
     (case find (\<lambda>e. subject e = p) evs of
        Some e \<Rightarrow> new_content m e
      | None \<Rightarrow>
          (case find (rename_candidate p) evs of
             Some e \<Rightarrow> m (subject e)
           | None \<Rightarrow> m p))"

lemma rename_candidateE:
  assumes "rename_candidate p e"
  obtains f cs where "e = EvRenameTo f cs" "p \<in> set cs"
  using assms by (cases e) auto

context path_hashes
begin

lemma path_events_length: "length (path_events conf c1 c2 p) \<le> 1"
  by (simp add: path_events_def Let_def split: option.split)

lemma path_events_subject: "e \<in> set (path_events conf c1 c2 p) \<Longrightarrow> subject e = p"
  by (auto simp: path_events_def Let_def split: option.splits if_splits)

lemma find_subject:
  assumes "invar c1" and "invar c2"
  shows "find (\<lambda>e. subject e = p) (report MI conf c1 c2) =
    (case path_events conf c1 c2 p of [] \<Rightarrow> None | e # _ \<Rightarrow> Some e)"
proof (cases "path_events conf c1 c2 p")
  case Nil
  then show ?thesis
    using report_subject [OF assms] by (auto simp: find_None_iff)
next
  case (Cons e es)
  then have e: "path_events conf c1 c2 p = [e]"
    using path_events_length [of conf c1 c2 p] by (cases es) auto
  then have "e \<in> set (report MI conf c1 c2)" "subject e = p"
    using path_events_subject [of e conf c1 c2 p] report_subject [OF assms, of e] by auto
  then obtain e' where e': "find (\<lambda>e. subject e = p) (report MI conf c1 c2) = Some e'"
    by (metis (mono_tags, lifting) find_None_iff not_Some_eq)
  with find_SomeD [OF e'] e have "e' = e"
    using report_subject [OF assms, of e'] by auto
  with e e' show ?thesis by simp
qed

lemma rename_candidate_content:
  assumes "invar c1" and "invar c2"
    and "find (rename_candidate p) (report MI conf c1 c2) = Some e"
  shows "content MI c1 (subject e) = content MI c2 p"
    and "content MI c2 p \<noteq> None"
proof -
  from find_SomeD [OF assms(3)] obtain f cs
    where "e = EvRenameTo f cs" "p \<in> set cs" "e \<in> set (report MI conf c1 c2)"
    by (auto elim: rename_candidateE)
  then show "content MI c1 (subject e) = content MI c2 p" and "content MI c2 p \<noteq> None"
    using assms(1,2) by (auto simp: RenameTo_reported set_GetPathsForHash)
qed

lemma hd_GetPathsForHash:
  assumes "invar c" and "filter P (GetPathsForHash MI c h) = q # qs"
  shows "content MI c q = Some h"
proof -
  have "q \<in> set (filter P (GetPathsForHash MI c h))" using assms(2) by simp
  then show ?thesis using set_GetPathsForHash [OF assms(1), of h] by simp
qed

text \<open>A path without an event of its own has its old content, or is a renaming's target.\<close>

lemma replay_unreported:
  assumes "invar c1" and "invar c2" and "\<not> conf_skip_renames conf"
    and "path_events conf c1 c2 p = []"
  shows "replay (content MI c1) (report MI conf c1 c2) p = content MI c2 p"
proof (cases "find (rename_candidate p) (report MI conf c1 c2)")
  case (Some e)
  then show ?thesis
    using rename_candidate_content [OF assms(1,2) Some] assms(4)
    by (simp add: replay_def find_subject [OF assms(1,2)])
next
  case None
  have "content MI c1 p = content MI c2 p"
  proof (rule ccontr)
    assume "content MI c1 p \<noteq> content MI c2 p"
    with assms(3,4) obtain h q where q: "content MI c1 p = None" "content MI c2 p = Some h"
      "content MI c1 q = Some h" "content MI c2 q = None"
      by (auto simp: path_events_def Let_def ran_def filter_empty_conv
          set_GetPathsForHash [OF assms(1)] split: option.splits if_splits)
    then have "EvRenameTo q (GetPathsForHash MI c2 h) \<in> set (report MI conf c1 c2)"
      using assms(3) by (auto simp: RenameTo_reported [OF assms(1,2)] ran_def)
    moreover have "p \<in> set (GetPathsForHash MI c2 h)"
      using q by (simp add: set_GetPathsForHash [OF assms(2)])
    ultimately show False
      using None by (auto simp: find_None_iff)
  qed
  with None show ?thesis
    using assms(4) by (simp add: replay_def find_subject [OF assms(1,2)])
qed

lemma replay_report:
  assumes "invar c1" and "invar c2" and "\<not> conf_skip_renames conf"
    and "EvContentChanged p \<notin> set (report MI conf c1 c2)"
    and "EvNewFile p \<notin> set (report MI conf c1 c2)"
  shows "replay (content MI c1) (report MI conf c1 c2) p = content MI c2 p"
proof (cases "path_events conf c1 c2 p")
  case Nil
  then show ?thesis using replay_unreported [OF assms(1-3)] by simp
next
  case (Cons e es)
  have ne: "e \<noteq> EvContentChanged p" "e \<noteq> EvNewFile p"
    using Cons assms(4,5) path_events_subject [of e conf c1 c2 p]
    by (auto simp: report_subject [OF assms(1,2)])
  have "new_content (content MI c1) e = content MI c2 p"
    using Cons ne assms(3) hd_GetPathsForHash [OF assms(1), of "\<lambda>_. True"]
      hd_GetPathsForHash [OF assms(1)]
    by (auto simp: path_events_def Let_def GetPathsForHash_Nil [OF assms(1)]
        split: option.splits if_splits list.split)
  with Cons show ?thesis
    by (simp add: replay_def find_subject [OF assms(1,2)])
qed

end

context path_hashes
begin

text \<open>Every path is the subject of at most one event.\<close>

lemma report_distinct:
  assumes "invar c1" and "invar c2"
  shows "distinct (map subject (report MI conf c1 c2))"
proof -
  let ?F = "first_events MI conf c1 c2" and ?G = "second_events MI c1 c2"
  have "distinct (map subject (concat (map ?F (mi_by_path MI c1))))"
    by (rule distinct_map_concat [OF by_path_distinct [OF assms(1)]])
       (auto dest: first_events_subject simp: first_events_length [simplified])
  moreover have "distinct (map subject (concat (map ?G (mi_by_path MI c2))))"
    by (rule distinct_map_concat [OF by_path_distinct [OF assms(2)]])
       (auto dest: second_events_subject simp: second_events_length [simplified])
  moreover have "subject e \<in> dom (content MI c1)" if "x \<in> set (mi_by_path MI c1)" "e \<in> set (?F x)" for x e
    using that first_events_subject [OF that(2)] by_path_mem [OF assms(1)] by auto
  moreover have "subject e \<notin> dom (content MI c1)" if "e \<in> set (?G x)" for x e
    using that second_events_subject [OF that]
    by (auto simp: second_events_content [OF assms] split: if_splits)
  ultimately show ?thesis
    unfolding report_def map_append distinct_append by fastforce
qed

text \<open>The report is empty exactly when the directories have the same files and contents.\<close>

lemma report_empty_iff:
  assumes "invar c1" and "invar c2" and "\<not> conf_skip_renames conf"
  shows "report MI conf c1 c2 = [] \<longleftrightarrow> content MI c1 = content MI c2"
proof
  assume nil: "report MI conf c1 c2 = []"
  show "content MI c1 = content MI c2"
  proof
    fix p
    have "path_events conf c1 c2 p = []"
      using nil path_events_subject [of "hd (path_events conf c1 c2 p)" conf c1 c2 p]
        report_subject [OF assms(1,2), of "hd (path_events conf c1 c2 p)" conf]
      by (metis empty_iff hd_in_set list.set(1))
    from replay_unreported [OF assms this] nil
    show "content MI c1 p = content MI c2 p" by (simp add: replay_def)
  qed
next
  assume same: "content MI c1 = content MI c2"
  have "path_events conf c1 c2 p = []" for p
    by (simp add: path_events_def same split: option.split)
  then show "report MI conf c1 c2 = []"
    using report_subject [OF assms(1,2)] by (metis list.set_intros(1) list.set(1) empty_iff neq_Nil_conv)
qed

end

section \<open>Streams that keep their promise\<close>

text \<open>What an implementation of \<open>CompareOutputStream\<close> promises: its observable content
  (\<open>obs\<close>) changes by \<open>upd\<close> with every call, and no call throws while \<open>fits\<close> holds.\<close>

locale compare_stream =
  fixes S :: "'s CompareOutputStream" and obs :: "'s \<Rightarrow> 'o"
    and upd :: "compare_event \<Rightarrow> 'o \<Rightarrow> 'o" and fits :: "'o \<Rightarrow> compare_event \<Rightarrow> bool"
  assumes emit_upd: "fits (obs st) ev \<Longrightarrow> \<exists>st'. emit S ev st = Inr st' \<and> obs st' = upd ev (obs st)"
begin

fun fits_all :: "'o \<Rightarrow> compare_event list \<Rightarrow> bool" where
  "fits_all ob [] \<longleftrightarrow> True"
| "fits_all ob (ev # evs) \<longleftrightarrow> fits ob ev \<and> fits_all (upd ev ob) evs"

lemma emit_all:
  "fits_all (obs st) evs \<Longrightarrow> \<exists>st'. foldR (emit S) evs st = Inr st' \<and> obs st' = fold upd evs (obs st)"
proof (induction evs arbitrary: st)
  case (Cons ev evs)
  then obtain st' where st': "emit S ev st = Inr st'" "obs st' = upd ev (obs st)"
    using emit_upd by fastforce
  have "fits_all (obs st') evs" using Cons.prems st'(2) by simp
  from Cons.IH [OF this] st' show ?case by simp
qed simp

text \<open>The comparison writes its report, in order, to any such stream.\<close>

lemma comparison_written:
  assumes "fits_all (obs st) (report MI conf c1 c2)"
  shows "\<exists>st'. compare_hashes MI conf S c1 c2 st = Inr st' \<and>
    obs st' = fold upd (report MI conf c1 c2) (obs st)"
  using emit_all [OF assms] by (simp add: compare_hashes_emit)

end

fun print_event :: "compare_event \<Rightarrow> string" where
  "print_event (EvOverwrittenBy f cs) = ''OVERWRITTEN_BY: '' @ f @ '' CANDIDATES: '' @ print_paths cs"
| "print_event (EvCopiedFrom f cs) = ''COPIED_FROM: '' @ f @ '' CANDIDATES: '' @ print_paths cs"
| "print_event (EvRenameTo f cs) = ''RENAME_TO: '' @ f @ '' CANDIDATES: '' @ print_paths cs"
| "print_event (EvContentChanged f) = ''CONTENT_CHANGED: '' @ f"
| "print_event (EvRemoved f) = ''REMOVED: '' @ f"
| "print_event (EvNewFile f) = ''NEW_FILE: '' @ f"

interpretation printing: compare_stream PrintingOutputStream "\<lambda>out. out"
    "\<lambda>ev out. out @ [print_event ev]" "\<lambda>_ _. True"
proof
  fix st ev
  show "\<exists>st'. emit PrintingOutputStream ev st = Inr st' \<and> st' = st @ [print_event ev]"
    by (cases ev) (simp_all add: PrintingOutputStream_def)
qed

lemma printing_fits: "printing.fits_all out evs"
  by (induction evs arbitrary: out) simp_all

lemma fold_append_map: "fold (\<lambda>ev out. out @ [f ev]) evs out = out @ map f evs"
  by (induction evs arbitrary: out) simp_all

section \<open>Properties\<close>

text \<open>C22: Replaying the report of a comparison on the first directory yields the second one, for
  every path but those whose new content did not exist in the first directory (reported as
  CONTENT_CHANGED or NEW_FILE), provided that renames are reported. So no difference is lost and
  no action is wrong.\<close>

theorem report_replays:
  assumes "path_hashes MI invar" and "invar c1" and "invar c2"
    and "\<not> conf_skip_renames conf"
    and "reported MI conf c1 c2 = Inr evs"
    and "EvContentChanged p \<notin> set evs" and "EvNewFile p \<notin> set evs"
  shows "replay (content MI c1) evs p = content MI c2 p"
  using assms path_hashes.replay_report [OF assms(1-4), of p] by (simp add: reported_report)

definition table_before :: path_hash_list where
  "table_before = [\<lparr>ph_path = ''a'', ph_hash = 1\<rparr>, \<lparr>ph_path = ''b'', ph_hash = 2\<rparr>]"

definition table_after :: path_hash_list where
  "table_after = [\<lparr>ph_path = ''a'', ph_hash = 2\<rparr>, \<lparr>ph_path = ''c'', ph_hash = 1\<rparr>,
     \<lparr>ph_path = ''d'', ph_hash = 3\<rparr>]"

definition events_between :: "compare_event list" where
  "events_between = [EvOverwrittenBy ''a'' [''b''], EvRenameTo ''b'' [''a''],
     EvCopiedFrom ''c'' [''a''], EvNewFile ''d'']"

lemma sorted_tables: "sorted_table table_before" "sorted_table table_after"
  by code_simp+

lemma reported_between: "reported list_table test_conf table_before table_after = Inr events_between"
  by code_simp

theorem report_replays_witness:
  "replay (content list_table table_before) events_between ''c'' = content list_table table_after ''c''"
  by (rule report_replays [OF list_hashes.path_hashes_axioms sorted_tables _ reported_between])
     (simp_all add: test_conf_def po_notify_def only_dirs_def events_between_def)

text \<open>C23: When renames are reported, a comparison reports nothing exactly when both directories
  hold the same files with the same checksums.\<close>

theorem silent_iff_identical:
  assumes "path_hashes MI invar" and "invar c1" and "invar c2"
    and "\<not> conf_skip_renames conf"
  shows "reported MI conf c1 c2 = Inr [] \<longleftrightarrow> content MI c1 = content MI c2"
  using path_hashes.report_empty_iff [OF assms] by (simp add: reported_report)

theorem silent_iff_identical_witness:
  "reported list_table test_conf table_before table_after \<noteq> Inr []"
proof -
  have conf: "\<not> conf_skip_renames test_conf"
    by (simp add: test_conf_def po_notify_def only_dirs_def)
  have "content list_table table_before ''d'' \<noteq> content list_table table_after ''d''"
    by code_simp
  then show ?thesis
    using silent_iff_identical [OF list_hashes.path_hashes_axioms sorted_tables conf] by auto
qed

text \<open>C21: Which of the six actions is reported for a path is decided by the checksums of the path
  in both directories and by whether they occur elsewhere; the cases are exclusive and each
  reported action is justified.\<close>

theorem report_classification:
  assumes "path_hashes MI invar" and "invar c1" and "invar c2"
    and "reported MI conf c1 c2 = Inr evs"
  shows "(EvRemoved p \<in> set evs \<longleftrightarrow>
        (\<exists>h. content MI c1 p = Some h \<and> content MI c2 p = None \<and> h \<notin> ran (content MI c2))) \<and>
      ((\<exists>cs. EvRenameTo p cs \<in> set evs) \<longleftrightarrow> \<not> conf_skip_renames conf \<and>
        (\<exists>h. content MI c1 p = Some h \<and> content MI c2 p = None \<and> h \<in> ran (content MI c2))) \<and>
      ((\<exists>cs. EvOverwrittenBy p cs \<in> set evs) \<longleftrightarrow>
        (\<exists>h h'. content MI c1 p = Some h \<and> content MI c2 p = Some h' \<and> h \<noteq> h' \<and>
          h' \<in> ran (content MI c1))) \<and>
      (EvContentChanged p \<in> set evs \<longleftrightarrow>
        (\<exists>h h'. content MI c1 p = Some h \<and> content MI c2 p = Some h' \<and> h \<noteq> h' \<and>
          h' \<notin> ran (content MI c1))) \<and>
      (EvNewFile p \<in> set evs \<longleftrightarrow>
        (\<exists>h. content MI c2 p = Some h \<and> content MI c1 p = None \<and> h \<notin> ran (content MI c1))) \<and>
      ((\<exists>cs. EvCopiedFrom p cs \<in> set evs) \<longleftrightarrow>
        (\<exists>h q. content MI c2 p = Some h \<and> content MI c1 p = None \<and>
          content MI c1 q = Some h \<and> q \<in> dom (content MI c2)))"
proof -
  have evs: "evs = report MI conf c1 c2"
    using assms(4) by (simp add: reported_report)
  have "(\<exists>cs. cs \<noteq> [] \<and> cs = filter P (GetPathsForHash MI c1 h)) \<longleftrightarrow>
      (\<exists>q. content MI c1 q = Some h \<and> P q)" for P h
    using path_hashes.set_GetPathsForHash [OF assms(1,2), of h]
    by (auto simp: filter_empty_conv)
  then show ?thesis
    unfolding evs by (simp add: path_hashes.reported_iff [OF assms(1-3)]) blast
qed

theorem report_classification_witness:
  "EvNewFile ''d'' \<in> set events_between \<longleftrightarrow>
    (\<exists>h. content list_table table_after ''d'' = Some h \<and> content list_table table_before ''d'' = None \<and>
      h \<notin> ran (content list_table table_before))"
  using report_classification [OF list_hashes.path_hashes_axioms sorted_tables reported_between, of "''d''"]
  by blast

text \<open>C29: The candidates of a reported action are exactly the paths with the checksum in question:
  for RENAME_TO all files of the second directory with the lost file's checksum, for
  OVERWRITTEN_BY all files of the first directory with the new checksum, for COPIED_FROM those of
  them that still exist. So the candidates are never empty and all identical.\<close>

theorem report_candidates:
  assumes "path_hashes MI invar" and "invar c1" and "invar c2"
    and "reported MI conf c1 c2 = Inr evs" and "e \<in> set evs"
  shows "case e of
      EvRenameTo f cs \<Rightarrow> cs \<noteq> [] \<and> set cs = {q. content MI c2 q = content MI c1 f}
    | EvOverwrittenBy f cs \<Rightarrow> cs \<noteq> [] \<and> set cs = {q. content MI c1 q = content MI c2 f}
    | EvCopiedFrom f cs \<Rightarrow> cs \<noteq> [] \<and>
        set cs = {q. content MI c1 q = content MI c2 f \<and> q \<in> dom (content MI c2)}
    | _ \<Rightarrow> True"
proof -
  have e: "e \<in> set (report MI conf c1 c2)"
    using assms(4,5) by (simp add: reported_report)
  then show ?thesis
    by (cases e rule: compare_event.exhaust) (auto simp: path_hashes.reported_iff [OF assms(1-3)]
        path_hashes.set_GetPathsForHash [OF assms(1)] assms(2,3)
        path_hashes.GetPathsForHash_Nil [OF assms(1)])
qed

theorem report_candidates_witness:
  "set [''a''] = {q. content list_table table_after q = content list_table table_before ''b''}"
  using report_candidates [OF list_hashes.path_hashes_axioms sorted_tables reported_between,
      of "EvRenameTo ''b'' [''a'']"]
  by (simp add: events_between_def)

text \<open>Every path is the subject of at most one reported action, so the UNIQUE columns of the
  result tables Removed, NewFile and ContentChanged are never violated.\<close>

lemma report_subjects_distinct:
  assumes "path_hashes MI invar" and "invar c1" and "invar c2"
    and "reported MI conf c1 c2 = Inr evs"
  shows "distinct (map subject evs)"
  using path_hashes.report_distinct [OF assms(1-3), of conf] assms(4) by (simp add: reported_report)

lemma report_subjects_distinct_witness: "distinct (map subject events_between)"
  by (rule report_subjects_distinct [OF list_hashes.path_hashes_axioms sorted_tables reported_between])

text \<open>What a user is told about a path, read off the contents of both directories: the lines that may be
  printed for it. There is none for a path with the same content in both, for a lost file that was
  renamed if renames are skipped, and for a new file whose content was in the first directory but only at
  paths that are gone (the renames of these name it).\<close>

definition line_for ::
  "GlobalConfig \<Rightarrow> (string \<rightharpoonup> Cksum) \<Rightarrow> (string \<rightharpoonup> Cksum) \<Rightarrow> string \<Rightarrow> string \<Rightarrow> bool" where
  "line_for conf before after p line \<longleftrightarrow>
     (case (before p, after p) of
        (None, None) \<Rightarrow> False
      | (Some h, None) \<Rightarrow>
          if h \<notin> ran after then line = ''REMOVED: '' @ p
          else \<not> conf_skip_renames conf \<and>
            (\<exists>cs. set cs = {q. after q = Some h} \<and> line = ''RENAME_TO: '' @ p @ '' CANDIDATES: '' @ print_paths cs)
      | (None, Some h) \<Rightarrow>
          if h \<notin> ran before then line = ''NEW_FILE: '' @ p
          else (\<exists>cs. cs \<noteq> [] \<and> set cs = {q \<in> dom after. before q = Some h} \<and>
            line = ''COPIED_FROM: '' @ p @ '' CANDIDATES: '' @ print_paths cs)
      | (Some h, Some h') \<Rightarrow> h \<noteq> h' \<and>
          (if h' \<notin> ran before then line = ''CONTENT_CHANGED: '' @ p
           else \<exists>cs. set cs = {q. before q = Some h'} \<and>
             line = ''OVERWRITTEN_BY: '' @ p @ '' CANDIDATES: '' @ print_paths cs))"

lemma report_lines:
  assumes "path_hashes MI invar" and "invar c1" and "invar c2" and "e \<in> set (report MI conf c1 c2)"
  shows "line_for conf (content MI c1) (content MI c2) (subject e) (print_event e)"
proof -
  note iff = path_hashes.reported_iff [OF assms(1-3)]
  note before = path_hashes.set_GetPathsForHash [OF assms(1,2)] and after = path_hashes.set_GetPathsForHash [OF assms(1,3)]
  show ?thesis
  proof (cases e)
    case (EvOverwrittenBy f cs)
    then obtain h h' where h: "content MI c1 f = Some h" "content MI c2 f = Some h'" "h \<noteq> h'" "h' \<in> ran (content MI c1)"
      "cs = GetPathsForHash MI c1 h'" using assms(4) by (auto simp: iff)
    then have "set cs = {q. content MI c1 q = Some h'}" using before by simp
    with h(1-4) show ?thesis unfolding EvOverwrittenBy line_for_def by auto
  next
    case (EvCopiedFrom f cs)
    then obtain h where h: "content MI c2 f = Some h" "content MI c1 f = None" "cs \<noteq> []"
      "cs = filter (\<lambda>q. q \<in> dom (content MI c2)) (GetPathsForHash MI c1 h)" using assms(4) by (auto simp: iff)
    then have cs: "set cs = {q \<in> dom (content MI c2). content MI c1 q = Some h}" using before by auto
    with h(3) obtain q where "content MI c1 q = Some h" by (cases cs) auto
    then have "h \<in> ran (content MI c1)" by (rule ranI)
    with h(1-3) cs show ?thesis unfolding EvCopiedFrom line_for_def by auto
  next
    case (EvRenameTo f cs)
    then obtain h where h: "\<not> conf_skip_renames conf" "content MI c1 f = Some h" "content MI c2 f = None"
      "h \<in> ran (content MI c2)" "cs = GetPathsForHash MI c2 h" using assms(4) by (auto simp: iff)
    then have "set cs = {q. content MI c2 q = Some h}" using after by simp
    with h(1-4) show ?thesis unfolding EvRenameTo line_for_def by auto
  qed (use assms(4) in \<open>auto simp: iff line_for_def\<close>)
qed

lemma line_reported:
  assumes "path_hashes MI invar" and "invar c1" and "invar c2"
    and "line_for conf (content MI c1) (content MI c2) p line"
  shows "p \<in> subject ` set (report MI conf c1 c2)"
proof -
  note paths = path_hashes.set_GetPathsForHash [OF assms(1,2)]
  have "\<exists>e \<in> set (report MI conf c1 c2). subject e = p"
  proof (cases "content MI c1 p"; cases "content MI c2 p")
    fix h h' assume c: "content MI c1 p = Some h" "content MI c2 p = Some h'"
    with assms(4) have "h \<noteq> h'" by (simp add: line_for_def)
    with c show ?thesis
      by (cases "h' \<in> ran (content MI c1)")
        (rule bexI [of _ "EvOverwrittenBy p (GetPathsForHash MI c1 h')"] bexI [of _ "EvContentChanged p"], simp,
          simp add: path_hashes.reported_iff [OF assms(1-3)])+
  next
    fix h assume c: "content MI c1 p = Some h" "content MI c2 p = None"
    show ?thesis
    proof (cases "h \<in> ran (content MI c2)")
      case True
      with c assms(4) have "EvRenameTo p (GetPathsForHash MI c2 h) \<in> set (report MI conf c1 c2)"
        by (simp add: path_hashes.reported_iff [OF assms(1-3)] line_for_def)
      then show ?thesis by (rule bexI [rotated]) simp
    next
      case False
      with c have "EvRemoved p \<in> set (report MI conf c1 c2)" by (simp add: path_hashes.reported_iff [OF assms(1-3)])
      then show ?thesis by (rule bexI [rotated]) simp
    qed
  next
    fix h assume c: "content MI c1 p = None" "content MI c2 p = Some h"
    show ?thesis
    proof (cases "h \<in> ran (content MI c1)")
      case True
      let ?cs = "filter (\<lambda>q. q \<in> dom (content MI c2)) (GetPathsForHash MI c1 h)"
      from True c assms(4) obtain cs where "cs \<noteq> []" "set cs = {q \<in> dom (content MI c2). content MI c1 q = Some h}"
        by (simp add: line_for_def) blast
      then have "{q \<in> dom (content MI c2). content MI c1 q = Some h} \<noteq> {}" by (metis set_empty)
      moreover have "set ?cs = {q \<in> dom (content MI c2). content MI c1 q = Some h}" by (auto simp: paths)
      ultimately have "set ?cs \<noteq> {}" by simp
      then have "?cs \<noteq> []" by (metis empty_set)
      with c have "EvCopiedFrom p ?cs \<in> set (report MI conf c1 c2)" by (simp add: path_hashes.reported_iff [OF assms(1-3)])
      then show ?thesis by (rule bexI [rotated]) simp
    next
      case False
      with c have "EvNewFile p \<in> set (report MI conf c1 c2)" by (simp add: path_hashes.reported_iff [OF assms(1-3)])
      then show ?thesis by (rule bexI [rotated]) simp
    qed
  next
    assume "content MI c1 p = None" "content MI c2 p = None"
    with assms(4) show ?thesis by (simp add: line_for_def)
  qed
  then show ?thesis by blast
qed

text \<open>C30: On standard output a comparison never fails and prints, after what was printed before, exactly
  one line for every path about which there is something to tell and no other lines; the line says what
  happened to the path according to the contents of the two directories, with the other paths that have
  or had its content.\<close>

theorem comparison_printed:
  assumes "path_hashes MI invar" and "invar c1" and "invar c2"
  shows "\<exists>ps lines. compare_hashes MI conf PrintingOutputStream c1 c2 out = Inr (out @ lines) \<and>
    list_all2 (line_for conf (content MI c1) (content MI c2)) ps lines \<and> distinct ps \<and>
    set ps = {p. \<exists>line. line_for conf (content MI c1) (content MI c2) p line}"
proof -
  let ?evs = "report MI conf c1 c2"
  have "compare_hashes MI conf PrintingOutputStream c1 c2 out = Inr (out @ map print_event ?evs)"
    using printing.comparison_written [OF printing_fits, of MI conf c1 c2 out] by (simp add: fold_append_map)
  moreover have "list_all2 (line_for conf (content MI c1) (content MI c2)) (map subject ?evs) (map print_event ?evs)"
    using report_lines [OF assms] by (simp add: list_all2_conv_all_nth)
  moreover have "set (map subject ?evs) = {p. \<exists>line. line_for conf (content MI c1) (content MI c2) p line}"
    using report_lines [OF assms] line_reported [OF assms] by auto
  ultimately show ?thesis using path_hashes.report_distinct [OF assms, of conf] by blast
qed

text \<open>Four lines: \<open>a\<close> has the content of \<open>b\<close>, \<open>b\<close> is gone, \<open>c\<close> has the old content of \<open>a\<close>, \<open>d\<close> is new.\<close>

theorem comparison_printed_witness:
  "\<exists>ps lines. compare_hashes list_table test_conf PrintingOutputStream table_before table_after [] = Inr lines \<and>
    lines = [''OVERWRITTEN_BY: a CANDIDATES: [b]'', ''RENAME_TO: b CANDIDATES: [a]'', ''COPIED_FROM: c CANDIDATES: [a]'', ''NEW_FILE: d''] \<and>
    list_all2 (line_for test_conf (content list_table table_before) (content list_table table_after)) ps lines \<and>
    distinct ps"
proof -
  have "compare_hashes list_table test_conf PrintingOutputStream table_before table_after [] =
    Inr [''OVERWRITTEN_BY: a CANDIDATES: [b]'', ''RENAME_TO: b CANDIDATES: [a]'', ''COPIED_FROM: c CANDIDATES: [a]'', ''NEW_FILE: d'']"
    by code_simp
  with comparison_printed [OF list_hashes.path_hashes_axioms sorted_tables, of test_conf "[]"] show ?thesis by auto
qed

end
