(* ===== verification/Boost_Paths.thy ===== *)
theory Boost_Paths
  imports Dupa_Prelude
begin

text \<open>
  boost::filesystem::path, a third-party class: a parameter of the model. The record holds the
  operations the code uses; an element that iteration yields is a path itself. The locale
  \<open>path_laws\<close> states the documented behaviour the code relies on; it is interpreted on paths that
  are lists of their elements.
\<close>

section \<open>The operations\<close>

record 'p path_api =
  p_of :: "string \<Rightarrow> 'p"           \<comment> \<open>the constructor from a string; the default one from the empty string\<close>
  p_native :: "'p \<Rightarrow> string"
  p_elems :: "'p \<Rightarrow> 'p list"       \<comment> \<open>iteration from \<open>begin()\<close> to \<open>end()\<close>\<close>
  p_append :: "'p \<Rightarrow> 'p \<Rightarrow> 'p"    \<comment> \<open>\<open>operator/\<close> and \<open>operator/=\<close>\<close>
  p_parent :: "'p \<Rightarrow> 'p"           \<comment> \<open>\<open>parent_path()\<close>\<close>
  p_filename :: "'p \<Rightarrow> 'p"         \<comment> \<open>\<open>filename()\<close>\<close>
  p_is_empty :: "'p \<Rightarrow> bool"       \<comment> \<open>\<open>empty()\<close>\<close>
  p_eq :: "'p \<Rightarrow> 'p \<Rightarrow> bool"       \<comment> \<open>\<open>operator==\<close>\<close>

section \<open>The laws\<close>

text \<open>Appending is stated for elements of a path: an element other than the first one (which may
  be the root directory) goes to the end of any path, and the first one to the empty path.\<close>

locale path_laws =
  fixes P :: "'p path_api"
  assumes eq_iff: "p_eq P p q \<longleftrightarrow> p_elems P p = p_elems P q"
    and empty_iff: "p_is_empty P p \<longleftrightarrow> p_elems P p = []"
    and default_elems: "p_elems P (p_of P []) = []"
    and parent_elems: "p_elems P (p_parent P p) = butlast (p_elems P p)"
    and elem_elems: "e \<in> set (p_elems P p) \<Longrightarrow> p_elems P e = [e]"
    and append_elems: "p_elems P q = xs @ e # ys \<Longrightarrow> xs \<noteq> [] \<or> p_elems P p = [] \<Longrightarrow>
      p_elems P (p_append P p e) = p_elems P p @ [e]"
    and filename_last: "p_elems P p \<noteq> [] \<Longrightarrow> p_filename P p = last (p_elems P p)"
    and elem_native: "e \<in> set (p_elems P p) \<Longrightarrow> p_native P e \<noteq> []"
    and native_empty: "p_elems P p \<noteq> [] \<Longrightarrow> p_native P p \<noteq> []"
begin

lemma filename_filename: "p_elems P p \<noteq> [] \<Longrightarrow> p_filename P (p_filename P p) = p_filename P p"
  using elem_elems [of "last (p_elems P p)" p] by (simp add: filename_last)

lemma filename_elems: "p_elems P p \<noteq> [] \<Longrightarrow> p_elems P (p_filename P p) = [p_filename P p]"
  using elem_elems [of "last (p_elems P p)" p] by (simp add: filename_last)

lemma filename_native: "p_elems P p \<noteq> [] \<Longrightarrow> p_native P (p_filename P p) \<noteq> []"
  using elem_native [of "last (p_elems P p)" p] by (simp add: filename_last)

lemma elem_filename: "e \<in> set (p_elems P p) \<Longrightarrow> p_filename P e = e"
  using filename_last [of e] elem_elems [of e p] by simp

end

section \<open>Paths as lists of elements\<close>

fun split_slash :: "string \<Rightarrow> string \<Rightarrow> string list" where
  "split_slash [] acc = [acc]"
| "split_slash (c # cs) acc = (if c = CHR ''/'' then acc # split_slash cs [] else split_slash cs (acc @ [c]))"

definition parse_path :: "string \<Rightarrow> string list" where
  "parse_path s = (case s of [] \<Rightarrow> [] | c # cs \<Rightarrow>
     if c = CHR ''/'' then ''/'' # filter (\<lambda>e. e \<noteq> []) (split_slash cs [])
     else filter (\<lambda>e. e \<noteq> []) (split_slash s []))"

fun join_slash :: "string list \<Rightarrow> string" where
  "join_slash [] = []"
| "join_slash [e] = e"
| "join_slash (e # es) = (if e = ''/'' then e @ join_slash es else e @ ''/'' @ join_slash es)"

definition elements :: "string list \<Rightarrow> string list" where
  "elements p = filter (\<lambda>e. e \<noteq> []) p"

definition list_paths :: "string list path_api" where
  "list_paths = \<lparr>p_of = parse_path, p_native = \<lambda>p. join_slash (elements p),
     p_elems = \<lambda>p. map (\<lambda>e. [e]) (elements p), p_append = \<lambda>p q. elements p @ elements q,
     p_parent = \<lambda>p. butlast (elements p),
     p_filename = \<lambda>p. if elements p = [] then [] else [last (elements p)],
     p_is_empty = \<lambda>p. elements p = [], p_eq = \<lambda>p q. elements p = elements q\<rparr>"

lemma elements_simps [simp]:
  "elements [] = []" "elements (elements p) = elements p"
  "elements (p @ q) = elements p @ elements q"
  by (simp_all add: elements_def)

lemma elements_single [simp]: "e \<noteq> [] \<Longrightarrow> elements [e] = [e]"
  by (simp add: elements_def)

lemma elements_butlast [simp]: "elements (butlast (elements p)) = butlast (elements p)"
  unfolding elements_def by (rule filter_True) (auto dest: in_set_butlastD)

lemma join_slash_not_Nil: "es \<noteq> [] \<Longrightarrow> (\<forall>e \<in> set es. e \<noteq> []) \<Longrightarrow> join_slash es \<noteq> []"
  by (cases es rule: join_slash.cases) auto

interpretation list_path: path_laws list_paths
proof unfold_locales
  have ne: "e \<in> set (elements p) \<Longrightarrow> e \<noteq> []" for e p by (simp add: elements_def)
  have inj: "map (\<lambda>e. [e]) xs = map (\<lambda>e. [e]) ys \<longleftrightarrow> xs = ys" for xs ys :: "string list"
    by (simp add: inj_map_eq_map inj_on_def)
  fix p q e xs ys
  show "p_eq list_paths p q \<longleftrightarrow> p_elems list_paths p = p_elems list_paths q"
    by (simp add: list_paths_def inj)
  show "p_is_empty list_paths p \<longleftrightarrow> p_elems list_paths p = []"
    by (simp add: list_paths_def)
  show "p_elems list_paths (p_of list_paths []) = []"
    by (simp add: list_paths_def parse_path_def)
  show "p_elems list_paths (p_parent list_paths p) = butlast (p_elems list_paths p)"
    by (simp add: list_paths_def map_butlast)
  show "p_elems list_paths e = [e]" if "e \<in> set (p_elems list_paths p)"
    using that ne by (auto simp: list_paths_def)
  show "p_elems list_paths (p_append list_paths p e) = p_elems list_paths p @ [e]"
    if "p_elems list_paths q = xs @ e # ys"
  proof -
    have "e \<in> set (p_elems list_paths q)" using that by simp
    then obtain d where "d \<in> set (elements q)" "e = [d]" by (auto simp: list_paths_def)
    with ne show ?thesis by (simp add: list_paths_def)
  qed
  show "p_filename list_paths p = last (p_elems list_paths p)" if "p_elems list_paths p \<noteq> []"
    using that by (simp add: list_paths_def last_map)
  show "p_native list_paths e \<noteq> []" if "e \<in> set (p_elems list_paths p)"
    using that ne by (auto simp: list_paths_def)
  show "p_native list_paths p \<noteq> []" if "p_elems list_paths p \<noteq> []"
    using that ne join_slash_not_Nil by (simp add: list_paths_def)
qed

lemma parse_path_examples:
  "parse_path ''/a/b'' = [''/'', ''a'', ''b'']" "parse_path ''a/b'' = [''a'', ''b'']"
  "p_native list_paths (p_append list_paths (parse_path ''/a'') (parse_path ''b'')) = ''/a/b''"
  by code_simp+

end
