(* ===== verification/Scanner.thy ===== *)
theory Scanner
  imports Boost_Paths Config "HOL-Library.Sublist"
begin

text \<open>
  The scan interface (src/src/scanner.h, src/src/scanner_int.h, src/src/scanner.cpp): the
  processor that receives the files and directories found, and the scan of a database of paths.
  The processor is a table of its virtual methods over a state. The locale \<open>processor\<close> states what
  a processor promises; the scan of a database is proved once against it: every call is made with
  a handle the processor returned before, and no call fails.
\<close>

section \<open>Files and processors\<close>

record FileInfo =
  fi_size :: int
  fi_mtime :: int
  fi_sum :: Cksum

record ('p, 'h, 's) ScanProcessor =
  sp_File :: "'p \<Rightarrow> 'h \<Rightarrow> FileInfo \<Rightarrow> 's \<Rightarrow> 's res"
  sp_RootDir :: "'p \<Rightarrow> 's \<Rightarrow> ('h \<times> 's) res"
  sp_Dir :: "'p \<Rightarrow> 'h \<Rightarrow> 's \<Rightarrow> ('h \<times> 's) res"

section \<open>\<open>CommonPathPrefix\<close>\<close>

fun common_prefix_loop :: "'p path_api \<Rightarrow> 'p list \<Rightarrow> 'p list \<Rightarrow> 'p \<Rightarrow> 'p" where
  "common_prefix_loop P (p1i # p1s) (p2i # p2s) res =
     (if p_eq P p1i p2i
      then common_prefix_loop P p1s p2s (if p_is_empty P res then p1i else p_append P res p1i)
      else res)"
| "common_prefix_loop P _ _ res = res"

definition CommonPathPrefix :: "'p path_api \<Rightarrow> 'p \<Rightarrow> 'p \<Rightarrow> 'p" where
  "CommonPathPrefix P p1 p2 = common_prefix_loop P (p_elems P p1) (p_elems P p2) (p_of P [])"

section \<open>\<open>ScanDb\<close>\<close>

text \<open>\<open>std::map<path, DIR_HANDLE>\<close>: an association list, looked up by path equality.\<close>

definition find_dir :: "'p path_api \<Rightarrow> ('p \<times> 'h) list \<Rightarrow> 'p \<Rightarrow> 'h option" where
  "find_dir P created_dirs p = map_option snd (find (\<lambda>e. p_eq P (fst e) p) created_dirs)"

text \<open>The inner loop: create the directories on the way to a file.\<close>

fun descend ::
  "'p path_api \<Rightarrow> ('p, 'h, 's) ScanProcessor \<Rightarrow> 'p list \<Rightarrow> 'p \<Rightarrow> 'h \<Rightarrow> ('p \<times> 'h) list \<times> 's \<Rightarrow>
   ('h \<times> ('p \<times> 'h) list \<times> 's) res" where
  "descend P processor [] parent parent_handle st = Inr (parent_handle, st)"
| "descend P processor (it # its) parent parent_handle (created_dirs, s) =
     (let to_insert = p_append P parent it in
      case find_dir P created_dirs to_insert of
        Some h \<Rightarrow> descend P processor its to_insert h (created_dirs, s)
      | None \<Rightarrow> rbind (sp_Dir processor it parent_handle s) (\<lambda>(h, s').
          descend P processor its to_insert h ((to_insert, h) # created_dirs, s')))"

text \<open>One iteration of the outer loop. Advancing the iterator past the end is undefined;
  \<open>operator[]\<close> finds the entry that was inserted first.\<close>

definition scan_entry ::
  "'p path_api \<Rightarrow> ('p, 'h, 's) ScanProcessor \<Rightarrow> 'p \<Rightarrow> string \<times> FileInfo \<Rightarrow>
   ('p \<times> 'h) list \<times> 's \<Rightarrow> (('p \<times> 'h) list \<times> 's) res" where
  "scan_entry P processor common_prefix path_and_fi st =
     (let analyzed = p_of P (fst path_and_fi);
          dir = p_parent P analyzed;
          prefix_len = length (p_elems P common_prefix)
      in if length (p_elems P dir) < prefix_len then Inl (Undefined ''iterator past end()'')
         else deref (find_dir P (fst st) common_prefix) (\<lambda>parent_handle.
           rbind (descend P processor (drop prefix_len (p_elems P dir)) common_prefix parent_handle st)
             (\<lambda>(handle, created_dirs, s).
               rbind (sp_File processor (p_filename P analyzed) handle (snd path_and_fi) s)
                 (\<lambda>s'. Inr (created_dirs, s')))))"

text \<open>The database is the list of the entries of the \<open>unordered_map\<close> in iteration order.\<close>

definition db_prefix :: "'p path_api \<Rightarrow> (string \<times> FileInfo) list \<Rightarrow> 'p" where
  "db_prefix P db =
     fold (\<lambda>e common_prefix. CommonPathPrefix P common_prefix (p_parent P (p_of P (fst e)))) db
       (p_parent P (p_of P (fst (hd db))))"

definition ScanDb ::
  "'p path_api \<Rightarrow> ('p, 'h, 's) ScanProcessor \<Rightarrow> (string \<times> FileInfo) list \<Rightarrow> 's \<Rightarrow> 's res" where
  "ScanDb P processor db s =
     (if db = [] then Inr s
      else let common_prefix = db_prefix P db in
        rbind (sp_RootDir processor common_prefix s) (\<lambda>(h, s1).
        rbind (foldR (scan_entry P processor common_prefix) db ([(common_prefix, h)], s1)) (\<lambda>st.
          Inr (snd st))))"

text \<open>\<open>ScanDirectoryOrDb\<close>; the two scans it selects from are arguments, the first of them the
  database scan including the reading of the database.\<close>

definition ScanDirectoryOrDb ::
  "GlobalConfig \<Rightarrow> (string \<Rightarrow> 'r) \<Rightarrow> (string \<Rightarrow> 'r) \<Rightarrow> string \<Rightarrow> 'r" where
  "ScanDirectoryOrDb conf scan_db scan_directory path =
     (if \<not> conf_ignore_db_prefix conf \<and> take 3 path = ''db:''
      then scan_db (drop 3 path) else scan_directory path)"

section \<open>The longest common prefix\<close>

context path_laws
begin

lemma common_prefix_loop_elems:
  assumes "p_elems P p = xs @ p1s" and "p_elems P q = ys @ p2s" and "p_elems P res = xs"
  shows "p_elems P (common_prefix_loop P p1s p2s res) = xs @ longest_common_prefix p1s p2s"
  using assms
proof (induction p1s p2s arbitrary: xs ys res rule: longest_common_prefix.induct)
  case (1 a as b bs)
  have a: "p_elems P a = [a]" and b: "p_elems P b = [b]"
    using elem_elems 1(2,3) by (metis in_set_conv_decomp)+
  show ?case
  proof (cases "a = b")
    case True
    let ?res = "if p_is_empty P res then a else p_append P res a"
    have "p_elems P ?res = xs @ [a]"
      using append_elems [OF 1(2), of res] 1(4) a by (auto simp: empty_iff)
    have "common_prefix_loop P (a # as) (b # bs) res = common_prefix_loop P as bs ?res"
      using True by (simp add: eq_iff)
    with 1(1) [OF True, of "xs @ [a]" "ys @ [b]" ?res] 1(2,3) \<open>p_elems P ?res = xs @ [a]\<close> True
    show ?thesis by (simp del: common_prefix_loop.simps if_split)
  next
    case False
    with a b 1(4) show ?thesis by (simp add: eq_iff)
  qed
qed simp_all

lemma CommonPathPrefix_elems:
  "p_elems P (CommonPathPrefix P p q) = longest_common_prefix (p_elems P p) (p_elems P q)"
  using common_prefix_loop_elems [of p "[]" _ q "[]"] by (simp add: CommonPathPrefix_def default_elems)

lemma db_prefix_prefix:
  assumes "e \<in> set db"
  shows "prefix (p_elems P (db_prefix P db)) (p_elems P (p_parent P (p_of P (fst e))))"
proof -
  let ?dir = "\<lambda>e. p_parent P (p_of P (fst e))"
  let ?f = "\<lambda>e c. CommonPathPrefix P c (?dir e)"
  have shrink: "prefix (p_elems P (fold ?f xs c)) (p_elems P c)" for xs c
  proof (induction xs arbitrary: c)
    case (Cons x xs)
    have "prefix (p_elems P (?f x c)) (p_elems P c)"
      unfolding CommonPathPrefix_elems by (rule longest_common_prefix_prefix1)
    with Cons [of "?f x c"] show ?case by (simp add: prefix_order.trans)
  qed simp
  have "e \<in> set xs \<Longrightarrow> prefix (p_elems P (fold ?f xs c)) (p_elems P (?dir e))" for xs c
  proof (induction xs arbitrary: c)
    case (Cons x xs)
    have "prefix (p_elems P (?f x c)) (p_elems P (?dir x))"
      unfolding CommonPathPrefix_elems by (rule longest_common_prefix_prefix2)
    with shrink [of xs "?f x c"] have "prefix (p_elems P (fold ?f xs (?f x c))) (p_elems P (?dir x))"
      by (rule prefix_order.trans)
    with Cons show ?case by auto
  qed simp
  with assms show ?thesis by (simp add: db_prefix_def)
qed

end

section \<open>The contract of a processor\<close>

text \<open>\<open>rep s A ds fs\<close>: the processor in state \<open>s\<close> has created the directories \<open>ds\<close> and received the
  files \<open>fs\<close>, in this order and each with its path relative to the root; \<open>A\<close> tells the directory of
  a handle. A name that may follow the directory \<open>d\<close> is an element of some path, and not its
  first one (which could be the root directory of the file system) unless \<open>d\<close> is empty.\<close>

definition path_name :: "'p path_api \<Rightarrow> 'p list \<Rightarrow> 'p \<Rightarrow> bool" where
  "path_name P d p \<longleftrightarrow> (\<exists>q xs ys. p_elems P q = xs @ p # ys \<and> (xs \<noteq> [] \<or> d = []))"

context path_laws
begin

lemma path_nameD:
  assumes "path_name P d p"
  shows "p_elems P p = [p]" and "p_native P p \<noteq> []" and "p_filename P p = p"
    and "p_elems P q = d \<Longrightarrow> p_elems P (p_append P q p) = d @ [p]"
proof -
  obtain r xs ys where r: "p_elems P r = xs @ p # ys" "xs \<noteq> [] \<or> d = []"
    using assms unfolding path_name_def by blast
  then have p: "p \<in> set (p_elems P r)" by simp
  show "p_elems P p = [p]" "p_native P p \<noteq> []" "p_filename P p = p"
    using elem_elems [OF p] elem_native [OF p] elem_filename [OF p] by simp_all
  show "p_elems P q = d \<Longrightarrow> p_elems P (p_append P q p) = d @ [p]"
    using append_elems [OF r(1), of q] r(2) by simp
qed

end

locale scan_processor = path_laws P
  for P :: "'p path_api" +
  fixes processor :: "('p, 'h, 's) ScanProcessor"
    and start :: "'s \<Rightarrow> bool"
    and root_ok :: "'p \<Rightarrow> bool"
    and rep :: "'s \<Rightarrow> ('h \<rightharpoonup> 'p list) \<Rightarrow> 'p list list \<Rightarrow> ('p list \<times> FileInfo) list \<Rightarrow> bool"
  assumes new_root: "start s \<Longrightarrow> root_ok p \<Longrightarrow>
      \<exists>h s'. sp_RootDir processor p s = Inr (h, s') \<and> rep s' [h \<mapsto> []] [[]] []"
    and new_dir: "rep s A ds fs \<Longrightarrow> A h = Some d \<Longrightarrow> path_name P d p \<Longrightarrow>
      \<exists>h' s'. sp_Dir processor p h s = Inr (h', s') \<and> rep s' (A(h' \<mapsto> d @ [p])) (ds @ [d @ [p]]) fs \<and>
        A h' \<in> {None, Some (d @ [p])}"
    and new_file: "rep s A ds fs \<Longrightarrow> A h = Some d \<Longrightarrow> path_name P d p \<Longrightarrow> 0 \<le> fi_size fi \<Longrightarrow>
      \<exists>s'. sp_File processor p h fi s = Inr s' \<and> rep s' A ds (fs @ [(d @ [p], fi)])"
begin

text \<open>The state of \<open>ScanDb\<close>: every directory in the map has a handle for its path below the root, and
  these directories are the ones that were created, each once.\<close>

definition dirs_ok :: "'p list \<Rightarrow> ('p \<times> 'h) list \<Rightarrow> ('h \<rightharpoonup> 'p list) \<Rightarrow> 'p list list \<Rightarrow> bool" where
  "dirs_ok pre created A ds \<longleftrightarrow>
     (\<forall>e \<in> set created. \<exists>d. A (snd e) = Some d \<and> p_elems P (fst e) = pre @ d) \<and>
     distinct ds \<and> set ds = {d. \<exists>e \<in> set created. p_elems P (fst e) = pre @ d}"

lemma find_dir_iff:
  assumes "dirs_ok pre created A ds" and "p_elems P p = pre @ d"
  shows "find_dir P created p = None \<longleftrightarrow> d \<notin> set ds"
  using assms by (auto simp: find_dir_def find_None_iff dirs_ok_def eq_iff)

lemma dirs_ok_insert:
  assumes "dirs_ok pre created A ds" and "A h \<in> {None, Some d}" and "p_elems P p = pre @ d" and "d \<notin> set ds"
  shows "dirs_ok pre ((p, h) # created) (A(h \<mapsto> d)) (ds @ [d])"
  unfolding dirs_ok_def
proof (intro conjI ballI)
  show "distinct (ds @ [d])" "set (ds @ [d]) = {x. \<exists>e \<in> set ((p, h) # created). p_elems P (fst e) = pre @ x}"
    using assms(1,3,4) unfolding dirs_ok_def by auto
  fix e assume e: "e \<in> set ((p, h) # created)"
  show "\<exists>d'. (A(h \<mapsto> d)) (snd e) = Some d' \<and> p_elems P (fst e) = pre @ d'"
  proof (cases "e = (p, h)")
    case False
    with e assms(1) obtain d' where d': "A (snd e) = Some d'" "p_elems P (fst e) = pre @ d'"
      unfolding dirs_ok_def by auto
    with assms(2) show ?thesis by (cases "snd e = h") auto
  qed (simp add: assms(3))
qed

lemma find_dir_ok:
  assumes "dirs_ok pre created A ds" and "find_dir P created p = Some h" and "p_elems P p = pre @ d"
  shows "A h = Some d"
proof -
  obtain e where e: "find (\<lambda>e. p_eq P (fst e) p) created = Some e" "snd e = h"
    using assms(2) by (auto simp: find_dir_def)
  from find_SomeD [OF e(1)] have "e \<in> set created" "p_elems P (fst e) = p_elems P p"
    by (simp_all add: eq_iff)
  with assms(1,3) e(2) show ?thesis by (auto simp: dirs_ok_def)
qed

lemma descend_ok:
  assumes "p_elems P dir = pre @ d @ its" and "p_elems P parent = pre @ d" and "A h = Some d"
    and "rep s A ds fs" and "dirs_ok pre created A ds" and "d \<in> set ds"
  shows "\<exists>h' created' s' A' ds'. descend P processor its parent h (created, s) = Inr (h', created', s') \<and>
    rep s' A' ds' fs \<and> dirs_ok pre created' A' ds' \<and> A' h' = Some (d @ its) \<and>
    set ds' = set ds \<union> {d @ xs | xs. prefix xs its} \<and>
    (\<forall>k. A k \<noteq> None \<longrightarrow> A' k = A k) \<and> set created \<subseteq> set created'"
  using assms
proof (induction its arbitrary: parent h created s A d ds)
  case Nil
  then have "set ds = set ds \<union> {d @ xs | xs. prefix xs []}" by auto
  with Nil show ?case by (intro exI [of _ h] exI [of _ created] exI [of _ s] exI [of _ A] exI [of _ ds]) simp
next
  case (Cons it its)
  have it: "path_name P d it"
    unfolding path_name_def using Cons.prems(1)
    by (intro exI [of _ dir] exI [of _ "pre @ d"] exI [of _ its]) simp
  let ?p = "p_append P parent it"
  have p: "p_elems P ?p = pre @ d @ [it]"
    using append_elems [of dir "pre @ d" it its parent] Cons.prems(1,2) by auto
  have split: "{d @ xs | xs. prefix xs (it # its)} = insert d {(d @ [it]) @ xs | xs. prefix xs its}"
    by (auto simp: prefix_Cons)
  show ?case
  proof (cases "find_dir P created ?p")
    case (Some h1)
    have "A h1 = Some (d @ [it])" by (rule find_dir_ok [OF Cons.prems(5) Some p])
    moreover have "d @ [it] \<in> set ds" using find_dir_iff [OF Cons.prems(5) p] Some by simp
    ultimately show ?thesis
      using Cons.IH [of "d @ [it]" ?p A h1 s ds created] Cons.prems p Some unfolding split
      by (simp add: Let_def insert_absorb)
  next
    case None
    from new_dir [OF Cons.prems(4,3) it] obtain h1 s1 where d: "sp_Dir processor it h s = Inr (h1, s1)"
      "rep s1 (A(h1 \<mapsto> d @ [it])) (ds @ [d @ [it]]) fs" "A h1 \<in> {None, Some (d @ [it])}" by blast
    have new: "d @ [it] \<notin> set ds" using find_dir_iff [OF Cons.prems(5) p] None by simp
    have ok: "dirs_ok pre ((?p, h1) # created) (A(h1 \<mapsto> d @ [it])) (ds @ [d @ [it]])"
      by (rule dirs_ok_insert [OF Cons.prems(5) d(3) p new])
    have step: "descend P processor (it # its) parent h (created, s) =
        descend P processor its ?p h1 ((?p, h1) # created, s1)"
      by (simp add: Let_def None d(1))
    have keep: "A k \<noteq> None \<Longrightarrow> (A(h1 \<mapsto> d @ [it])) k = A k" for k using d(3) by auto
    have elems: "p_elems P dir = pre @ (d @ [it]) @ its" "p_elems P ?p = pre @ (d @ [it])"
      "(A(h1 \<mapsto> d @ [it])) h1 = Some (d @ [it])"
      using Cons.prems(1) p by simp_all
    have "d @ [it] \<in> set (ds @ [d @ [it]])" by simp
    from Cons.IH [OF elems d(2) ok this] obtain h' created' s' A' ds' where r:
      "descend P processor its ?p h1 ((?p, h1) # created, s1) = Inr (h', created', s')"
      "rep s' A' ds' fs" "dirs_ok pre created' A' ds'" "A' h' = Some ((d @ [it]) @ its)"
      "set ds' = set (ds @ [d @ [it]]) \<union> {(d @ [it]) @ xs | xs. prefix xs its}"
      "\<forall>k. (A(h1 \<mapsto> d @ [it])) k \<noteq> None \<longrightarrow> A' k = (A(h1 \<mapsto> d @ [it])) k"
      "set ((?p, h1) # created) \<subseteq> set created'" by blast
    have "A' k = A k" if "A k \<noteq> None" for k
      using r(6) keep [OF that] that by metis
    moreover have "set ds' = set ds \<union> {d @ xs | xs. prefix xs (it # its)}"
      unfolding r(5) split using Cons.prems(6) by auto
    ultimately show ?thesis unfolding step using r(1-4,7)
      by (intro exI [of _ h'] exI [of _ created'] exI [of _ s'] exI [of _ A'] exI [of _ ds']) auto
  qed
qed

end

text \<open>A database entry the scan can place: a path that is not empty, a size that is a size.\<close>

definition entry_ok :: "'p path_api \<Rightarrow> string \<times> FileInfo \<Rightarrow> bool" where
  "entry_ok P e \<longleftrightarrow> p_elems P (p_of P (fst e)) \<noteq> [] \<and> 0 \<le> fi_size (snd e)"

text \<open>The path of an entry relative to the common prefix.\<close>

definition relative_entry :: "'p path_api \<Rightarrow> 'p \<Rightarrow> string \<times> FileInfo \<Rightarrow> 'p list \<times> FileInfo" where
  "relative_entry P common_prefix e =
     (drop (length (p_elems P common_prefix)) (p_elems P (p_of P (fst e))), snd e)"

text \<open>The directories on the way to an entry, relative to the common prefix.\<close>

definition entry_dirs :: "'p path_api \<Rightarrow> 'p \<Rightarrow> string \<times> FileInfo \<Rightarrow> 'p list set" where
  "entry_dirs P common_prefix e = set (prefixes (butlast (fst (relative_entry P common_prefix e))))"

definition db_dirs :: "'p path_api \<Rightarrow> (string \<times> FileInfo) list \<Rightarrow> 'p list set" where
  "db_dirs P db = (\<Union>e \<in> set db. entry_dirs P (db_prefix P db) e)"

context scan_processor
begin

lemma scan_entry_ok:
  assumes "entry_ok P e" and "prefix (p_elems P root) (p_elems P (p_parent P (p_of P (fst e))))"
    and "rep s A ds fs" and "dirs_ok (p_elems P root) created A ds" and "(root, h) \<in> set created"
  shows "\<exists>created' s' A' ds'. scan_entry P processor root e (created, s) = Inr (created', s') \<and>
    rep s' A' ds' (fs @ [relative_entry P root e]) \<and> dirs_ok (p_elems P root) created' A' ds' \<and>
    set ds' = set ds \<union> entry_dirs P root e \<and> (root, h) \<in> set created'"
proof -
  let ?a = "p_of P (fst e)"
  let ?dir = "p_parent P ?a"
  have ne: "p_elems P ?a \<noteq> []" using assms(1) by (simp add: entry_ok_def)
  obtain its where its: "p_elems P ?dir = p_elems P root @ its"
    using assms(2) by (auto simp: prefix_def)
  have "\<exists>x \<in> set created. p_eq P (fst x) root" using assms(5) by (auto simp: eq_iff intro!: bexI)
  then obtain h0 where h0: "find_dir P created root = Some h0"
    by (cases "find (\<lambda>e. p_eq P (fst e) root) created") (auto simp: find_dir_def find_None_iff)
  have A0: "A h0 = Some []" by (rule find_dir_ok [OF assms(4) h0]) simp
  have e: "p_elems P ?dir = p_elems P root @ [] @ its" "p_elems P root = p_elems P root @ []"
    using its by simp_all
  have "[] \<in> set ds" using assms(4,5) unfolding dirs_ok_def by force
  from descend_ok [OF e A0 assms(3,4) this] obtain h' created' s' A' ds' where d: "descend P processor its root h0 (created, s) = Inr (h', created', s')"
    "rep s' A' ds' fs" "dirs_ok (p_elems P root) created' A' ds'" "A' h' = Some its" "set created \<subseteq> set created'"
    "set ds' = set ds \<union> {xs. prefix xs its}"
    unfolding append_Nil by auto
  have split: "p_elems P ?a = (p_elems P root @ its) @ [p_filename P ?a]"
    using ne its append_butlast_last_id [OF ne] by (simp add: parent_elems filename_last)
  then have nm: "path_name P its (p_filename P ?a)"
    unfolding path_name_def
    by (intro exI [of _ ?a] exI [of _ "p_elems P root @ its"] exI [of _ "[]"]) simp
  from new_file [OF d(2,4) nm, of "snd e"] assms(1) obtain s2 where f:
    "sp_File processor (p_filename P ?a) h' (snd e) s' = Inr s2"
    "rep s2 A' ds' (fs @ [(its @ [p_filename P ?a], snd e)])" by (auto simp: entry_ok_def)
  have "relative_entry P root e = (its @ [p_filename P ?a], snd e)"
    by (simp add: relative_entry_def split)
  moreover from this have "set ds' = set ds \<union> entry_dirs P root e" using d(6) by (auto simp: entry_dirs_def)
  moreover have "scan_entry P processor root e (created, s) = Inr (created', s2)"
    using its h0 d(1) f(1) by (simp add: scan_entry_def Let_def)
  ultimately show ?thesis using f(2) d(3,5) assms(5) by auto
qed

text \<open>The database scan never fails, hands every entry to the processor, in order, and creates every
  directory on the way to an entry exactly once.\<close>

lemma ScanDb_ok:
  assumes "start s" and "db \<noteq> []" and "\<forall>e \<in> set db. entry_ok P e" and "root_ok (db_prefix P db)"
  shows "\<exists>s' A ds. ScanDb P processor db s = Inr s' \<and>
    rep s' A ds (map (relative_entry P (db_prefix P db)) db) \<and> distinct ds \<and> set ds = db_dirs P db"
proof -
  let ?root = "db_prefix P db"
  from new_root [OF assms(1,4)] obtain h s1 where r: "sp_RootDir processor ?root s = Inr (h, s1)"
    "rep s1 [h \<mapsto> []] [[]] []" by blast
  let ?I = "\<lambda>ys st. \<exists>A ds. rep (snd st) A ds (map (relative_entry P ?root) ys) \<and>
    dirs_ok (p_elems P ?root) (fst st) A ds \<and> set ds = insert [] (\<Union>e \<in> set ys. entry_dirs P ?root e) \<and>
    (?root, h) \<in> set (fst st)"
  have "\<exists>st. foldR (scan_entry P processor ?root) db ([(?root, h)], s1) = Inr st \<and> ?I db st"
  proof (rule foldR_rule [where I = ?I])
    show "?I [] ([(?root, h)], s1)"
      using r(2) by (intro exI [of _ "[h \<mapsto> []]"] exI [of _ "[[]]"]) (auto simp: dirs_ok_def)
    fix ys e zs st assume split: "db = ys @ e # zs" and inv: "?I ys st"
    obtain created s where st: "st = (created, s)" by (cases st)
    from inv st obtain A ds where A: "rep s A ds (map (relative_entry P ?root) ys)"
      "dirs_ok (p_elems P ?root) created A ds" "(?root, h) \<in> set created"
      "set ds = insert [] (\<Union>e \<in> set ys. entry_dirs P ?root e)" by auto
    have e: "e \<in> set db" using split by simp
    from scan_entry_ok [OF bspec [OF assms(3) e] db_prefix_prefix [OF e] A(1-3)]
    obtain created' s' A' ds' where n: "scan_entry P processor ?root e (created, s) = Inr (created', s')"
      "rep s' A' ds' (map (relative_entry P ?root) ys @ [relative_entry P ?root e])"
      "dirs_ok (p_elems P ?root) created' A' ds'" "(?root, h) \<in> set created'"
      "set ds' = set ds \<union> entry_dirs P ?root e" by blast
    have "set ds' = insert [] (\<Union>e \<in> set (ys @ [e]). entry_dirs P ?root e)" unfolding n(5) A(4) by auto
    with n(1-4) have "?I (ys @ [e]) (created', s')" by (intro exI [of _ A'] exI [of _ ds']) simp
    with n(1) st
    show "\<exists>st'. scan_entry P processor ?root e st = Inr st' \<and> ?I (ys @ [e]) st'" by blast
  qed
  then obtain st where "foldR (scan_entry P processor ?root) db ([(?root, h)], s1) = Inr st"
    "?I db st" by blast
  moreover have "insert [] (\<Union>e \<in> set db. entry_dirs P ?root e) = db_dirs P db"
    using assms(2) by (cases db) (auto simp: db_dirs_def entry_dirs_def)
  ultimately show ?thesis using r(1) assms(2) by (auto simp: ScanDb_def Let_def dirs_ok_def)
qed

end

end
