(* ===== verification/Thread_Pool.thy ===== *)
theory Thread_Pool
  imports Dupa_Prelude "HOL-Library.Multiset" "HOL-Library.Word"
begin

text \<open>
  The thread pool (src/src/synch_thread_pool.h, src/src/synch_thread_pool.cpp) with its mutex and
  its two condition variables, as a step relation. A critical section is one step, since the mutex
  excludes the other threads; a thread that waits on a condition variable sleeps until it is
  notified or wakes up spuriously, and then checks its predicate again. The client is the one of
  the program: it constructs the pool, submits tasks from one thread, and destroys the pool.
\<close>

section \<open>The state\<close>

text \<open>A worker is about to enter its critical section, sleeps in \<open>cv_.wait\<close>, runs a task outside of
  the critical section, or has returned.\<close>

datatype 'a worker = Checking | Sleeping | Running 'a | Exited

text \<open>The client is about to enter the critical section of \<open>Submit\<close> or \<open>Stop\<close>, sleeps in
  \<open>user_cv_.wait\<close>, joins the threads, or is done.\<close>

datatype client = Active | Blocked | Joining | Done

record 'a pool =
  closing :: bool
  outstanding :: "64 word"
  q_tasks :: "'a list"
  threads :: "'a worker list"
  client :: client
  to_submit :: "'a list"        \<comment> \<open>the calls of \<open>Submit\<close> the client still makes\<close>
  started :: "'a list"          \<comment> \<open>history: the tasks taken from the queue\<close>
  finished :: "'a list"         \<comment> \<open>history: the tasks that have returned\<close>

text \<open>The constructor.\<close>

definition new_pool :: "int \<Rightarrow> 'a list \<Rightarrow> 'a pool res" where
  "new_pool concurrency tasks =
     rassert (concurrency > 0) ''concurrency > 0''
       (Inr \<lparr>closing = False, outstanding = 0, q_tasks = [], threads = replicate (nat concurrency) Checking,
         client = Active, to_submit = tasks, started = [], finished = []\<rparr>)"

section \<open>Notification\<close>

text \<open>\<open>cv_.notify_one()\<close>: some sleeping worker, if there is one.\<close>

inductive notify_one :: "'a worker list \<Rightarrow> 'a worker list \<Rightarrow> bool" where
  none: "Sleeping \<notin> set ws \<Longrightarrow> notify_one ws ws"
| one: "i < length ws \<Longrightarrow> ws ! i = Sleeping \<Longrightarrow> notify_one ws (ws[i := Checking])"

definition wake :: "'a worker \<Rightarrow> 'a worker" where
  "wake w = (if w = Sleeping then Checking else w)"

definition notify_all :: "'a worker list \<Rightarrow> 'a worker list" where
  "notify_all ws = map wake ws"

text \<open>\<open>user_cv_.notify_one()\<close>: the client is the only thread that waits there.\<close>

definition notify_client :: "client \<Rightarrow> client" where
  "notify_client c = (if c = Blocked then Active else c)"

section \<open>The critical sections\<close>

text \<open>The one of \<open>ThreadLoop\<close>, up to the release of the mutex.\<close>

definition worker_section :: "nat \<Rightarrow> 'a pool \<Rightarrow> 'a pool" where
  "worker_section i st =
     (if closing st then st\<lparr>threads := (threads st)[i := Exited]\<rparr>
      else case q_tasks st of
        [] \<Rightarrow> st\<lparr>threads := (threads st)[i := Sleeping]\<rparr>
      | task # rest \<Rightarrow> st\<lparr>q_tasks := rest, outstanding := outstanding st - 1,
            client := notify_client (client st), threads := (threads st)[i := Running task],
            started := started st @ [task]\<rparr>)"

text \<open>The one of \<open>Submit\<close>: the new threads, after \<open>cv_.notify_one()\<close>, are an argument.\<close>

definition submit_section :: "'a \<Rightarrow> 'a list \<Rightarrow> 'a worker list \<Rightarrow> 'a pool \<Rightarrow> 'a pool res" where
  "submit_section fn rest threads' st =
     rassert (\<not> closing st) ''!closing_''
       (if outstanding st \<le> of_nat (length (threads st))
        then Inr (st\<lparr>q_tasks := q_tasks st @ [fn], outstanding := outstanding st + 1, threads := threads',
            client := Active, to_submit := rest\<rparr>)
        else Inr (st\<lparr>client := Blocked\<rparr>))"

text \<open>The one of \<open>Stop\<close>.\<close>

definition stop_section :: "'a pool \<Rightarrow> 'a pool" where
  "stop_section st =
     (if outstanding st = 0
      then st\<lparr>closing := True, threads := notify_all (threads st), client := Joining\<rparr>
      else st\<lparr>client := Blocked\<rparr>)"

text \<open>After the last \<open>join\<close>: the threads are cleared and the destructor checks its assertions.\<close>

definition join_section :: "'a pool \<Rightarrow> 'a pool res" where
  "join_section st =
     (let st' = st\<lparr>threads := [], client := Done\<rparr> in
      rassert (closing st') ''closing_'' (rassert (threads st' = []) ''threads_.empty()'' (Inr st')))"

section \<open>The steps\<close>

text \<open>The steps of the program itself, without spurious wake-ups.\<close>

inductive pool_step :: "'a pool \<Rightarrow> 'a pool res \<Rightarrow> bool" where
  worker: "i < length (threads st) \<Longrightarrow> threads st ! i = Checking \<Longrightarrow> pool_step st (Inr (worker_section i st))"
| return: "i < length (threads st) \<Longrightarrow> threads st ! i = Running task \<Longrightarrow>
    pool_step st (Inr (st\<lparr>threads := (threads st)[i := Checking], finished := finished st @ [task]\<rparr>))"
| submit: "client st = Active \<Longrightarrow> to_submit st = fn # rest \<Longrightarrow> notify_one (threads st) threads' \<Longrightarrow>
    pool_step st (submit_section fn rest threads' st)"
| stop: "client st = Active \<Longrightarrow> to_submit st = [] \<Longrightarrow> pool_step st (Inr (stop_section st))"
| join: "client st = Joining \<Longrightarrow> \<forall>w \<in> set (threads st). w = Exited \<Longrightarrow> pool_step st (join_section st)"

text \<open>A spurious wake-up of a worker or of the client.\<close>

inductive spurious :: "'a pool \<Rightarrow> 'a pool \<Rightarrow> bool" where
  worker: "i < length (threads st) \<Longrightarrow> threads st ! i = Sleeping \<Longrightarrow>
    spurious st (st\<lparr>threads := (threads st)[i := Checking]\<rparr>)"
| client: "client st = Blocked \<Longrightarrow> spurious st (st\<lparr>client := Active\<rparr>)"

inductive pool_reachable :: "int \<Rightarrow> 'a list \<Rightarrow> 'a pool \<Rightarrow> bool" for n tasks where
  start: "new_pool n tasks = Inr st \<Longrightarrow> pool_reachable n tasks st"
| step: "pool_reachable n tasks st \<Longrightarrow> pool_step st (Inr st') \<Longrightarrow> pool_reachable n tasks st'"
| wakeup: "pool_reachable n tasks st \<Longrightarrow> spurious st st' \<Longrightarrow> pool_reachable n tasks st'"

inductive_cases pool_stepE: "pool_step st r"
inductive_cases spuriousE: "spurious st st'"
inductive_cases notify_oneE: "notify_one ws ws'"

section \<open>The invariant\<close>

text \<open>The tasks that run now.\<close>

fun running :: "'a worker list \<Rightarrow> 'a list" where
  "running [] = []"
| "running (Running t # ws) = t # running ws"
| "running (w # ws) = running ws"

lemma running_append [simp]: "running (xs @ ys) = running xs @ running ys"
  by (induction xs rule: running.induct) auto

lemma running_split:
  assumes "i < length ws"
  shows "mset (running ws) = mset (running [ws ! i]) + mset (running (take i ws @ drop (Suc i) ws))"
    and "mset (running (ws[i := w])) = mset (running [w]) + mset (running (take i ws @ drop (Suc i) ws))"
proof -
  have "ws = take i ws @ [ws ! i] @ drop (Suc i) ws" using id_take_nth_drop [OF assms] by simp
  then have "running ws = running (take i ws @ [ws ! i] @ drop (Suc i) ws)" by (rule arg_cong)
  then show "mset (running ws) = mset (running [ws ! i]) + mset (running (take i ws @ drop (Suc i) ws))"
    by (simp only: running_append mset_append ac_simps)
  have "ws[i := w] = take i ws @ [w] @ drop (Suc i) ws" using assms by (simp add: upd_conv_take_nth_drop)
  then have "running (ws[i := w]) = running (take i ws @ [w] @ drop (Suc i) ws)" by (rule arg_cong)
  then show "mset (running (ws[i := w])) = mset (running [w]) + mset (running (take i ws @ drop (Suc i) ws))"
    by (simp only: running_append mset_append ac_simps)
qed

lemma running_none [simp]: "running (replicate n Checking) = []"
  by (induction n) auto

lemma running_wake: "running (map wake ws) = running ws"
  by (induction ws rule: running.induct) (auto simp: wake_def)

lemma notify_one_running: "notify_one ws ws' \<Longrightarrow> mset (running ws') = mset (running ws)"
  by (erule notify_oneE) (auto simp: running_split(1) [of _ ws] running_split(2) [of _ ws])

lemma notify_one_length: "notify_one ws ws' \<Longrightarrow> length ws' = length ws"
  by (erule notify_oneE) auto

text \<open>The state of the client and of the workers fit the queue: this is what excludes lost
  wake-ups. A worker that is not asleep will look at the queue again.\<close>

definition awake :: "'a worker list \<Rightarrow> bool" where
  "awake ws \<longleftrightarrow> (\<exists>w \<in> set ws. w = Checking \<or> (\<exists>t. w = Running t))"

definition pool_inv :: "nat \<Rightarrow> 'a list \<Rightarrow> 'a pool \<Rightarrow> bool" where
  "pool_inv n tasks st \<longleftrightarrow>
     unat (outstanding st) = length (q_tasks st) \<and> length (q_tasks st) \<le> n + 1 \<and>
     tasks = started st @ q_tasks st @ to_submit st \<and>
     mset (started st) = mset (finished st) + mset (running (threads st)) \<and>
     (client st \<noteq> Done \<longrightarrow> length (threads st) = n) \<and>
     (q_tasks st \<noteq> [] \<longrightarrow> awake (threads st)) \<and>
     (client st = Blocked \<longrightarrow> q_tasks st \<noteq> [] \<and> (to_submit st \<noteq> [] \<longrightarrow> length (q_tasks st) = n + 1)) \<and>
     (closing st \<longleftrightarrow> client st = Joining \<or> client st = Done) \<and>
     (closing st \<longrightarrow> q_tasks st = [] \<and> to_submit st = [] \<and> Sleeping \<notin> set (threads st)) \<and>
     (\<not> closing st \<longrightarrow> Exited \<notin> set (threads st)) \<and>
     (client st = Done \<longrightarrow> threads st = [])"

lemma new_pool_inv:
  assumes "new_pool n tasks = Inr st"
  shows "0 < n" and "pool_inv (nat n) tasks st"
  using assms by (auto simp: new_pool_def pool_inv_def rassert_def split: if_splits)

lemma awake_update:
  assumes "awake ws" and "i < length ws" and "w = Checking \<or> (\<exists>t. w = Running t)"
  shows "awake (ws[i := w])"
  using assms(2,3) set_update_memI [OF assms(2), of w] unfolding awake_def by blast

lemma awake_set: "i < length ws \<Longrightarrow> w = Checking \<or> (\<exists>t. w = Running t) \<Longrightarrow> awake (ws[i := w])"
  using set_update_memI [of i ws w] unfolding awake_def by blast

lemma notify_one_awake:
  assumes "notify_one ws ws'" and "ws \<noteq> []" and "Exited \<notin> set ws"
  shows "awake ws'"
  using assms(1)
proof (cases rule: notify_one.cases)
  case none
  obtain w where w: "w \<in> set ws" using assms(2) by (cases ws) auto
  have "w = Checking \<or> (\<exists>t. w = Running t)"
    by (cases w) (use w none assms(3) in auto)
  with w none show ?thesis unfolding awake_def by blast
qed (simp add: awake_set)

lemma notify_one_set: "notify_one ws ws' \<Longrightarrow> set ws' \<subseteq> insert Checking (set ws)"
  by (erule notify_oneE) (auto dest: set_update_subset_insert [THEN subsetD])

section \<open>Every step keeps the invariant\<close>

lemma worker_section_inv:
  assumes "pool_inv n tasks st" and "i < length (threads st)" and "threads st ! i = Checking"
  shows "pool_inv n tasks (worker_section i st)"
proof (cases "closing st")
  case True
  note S = running_split [OF assms(2)]
  have "Sleeping \<notin> set ((threads st)[i := Exited])"
    using assms(1) True set_update_subset_insert [of "threads st" i Exited] unfolding pool_inv_def by auto
  moreover have "mset (running ((threads st)[i := Exited])) = mset (running (threads st))"
    using S(1) S(2) [of Exited] assms(3) by simp
  ultimately show ?thesis
    using assms(1) True unfolding pool_inv_def worker_section_def by auto
next
  case open_pool: False
  note S = running_split [OF assms(2)]
  show ?thesis
  proof (cases "q_tasks st")
    case Nil
    have "mset (running ((threads st)[i := Sleeping])) = mset (running (threads st))"
      using S(1) S(2) [of Sleeping] assms(3) by simp
    moreover have "Exited \<notin> set ((threads st)[i := Sleeping])"
      using assms(1) open_pool set_update_subset_insert [of "threads st" i Sleeping] unfolding pool_inv_def by auto
    ultimately show ?thesis
      using assms(1) open_pool Nil unfolding pool_inv_def worker_section_def by auto
  next
    case (Cons task rest)
    have "mset (running ((threads st)[i := Running task])) = add_mset task (mset (running (threads st)))"
      using S(1) S(2) [of "Running task"] assms(3) by simp
    moreover have "Exited \<notin> set ((threads st)[i := Running task])"
      using assms(1) open_pool set_update_subset_insert [of "threads st" i "Running task"]
      unfolding pool_inv_def by auto
    moreover have "awake ((threads st)[i := Running task])" by (rule awake_set [OF assms(2)]) simp
    moreover have "unat (outstanding st - 1) = length rest"
      using assms(1) Cons unfolding pool_inv_def
      by (metis length_Cons diff_Suc_1 unat_minus_one unat_0 nat.distinct(1))
    ultimately show ?thesis
      using assms(1) open_pool Cons unfolding pool_inv_def worker_section_def notify_client_def by auto
  qed
qed

lemma return_inv:
  assumes "pool_inv n tasks st" and "i < length (threads st)" and "threads st ! i = Running task"
  shows "pool_inv n tasks (st\<lparr>threads := (threads st)[i := Checking], finished := finished st @ [task]\<rparr>)"
proof -
  note S = running_split [OF assms(2)]
  have "mset (running (threads st)) = add_mset task (mset (running ((threads st)[i := Checking])))"
    using S(1) S(2) [of Checking] assms(3) by simp
  moreover have "awake ((threads st)[i := Checking])" by (rule awake_set [OF assms(2)]) simp
  moreover have "w \<in> set ((threads st)[i := Checking]) \<Longrightarrow> w = Checking \<or> w \<in> set (threads st)" for w
    using set_update_subset_insert [of "threads st" i Checking] by auto
  ultimately show ?thesis
    using assms(1) unfolding pool_inv_def by auto
qed

lemma submit_section_inv:
  assumes "pool_inv n tasks st" and "0 < n" and "n < 2 ^ 32" and "client st = Active"
    and "to_submit st = fn # rest" and "notify_one (threads st) threads'"
  shows "\<exists>st'. submit_section fn rest threads' st = Inr st' \<and> pool_inv n tasks st'"
proof -
  have cl: "\<not> closing st" and len: "length (threads st) = n" and un: "unat (outstanding st) = length (q_tasks st)"
    and qn: "length (q_tasks st) \<le> n + 1"
    using assms(1,4) unfolding pool_inv_def by auto
  have bound: "outstanding st \<le> of_nat n \<longleftrightarrow> length (q_tasks st) \<le> n"
    using assms(3) un by (simp add: word_le_nat_alt unat_of_nat)
  show ?thesis
  proof (cases "length (q_tasks st) \<le> n")
    case True
    have "unat (outstanding st + 1) = length (q_tasks st) + 1"
      using un True assms(3) by (simp add: unat_plus_if')
    moreover have "awake threads'"
      using notify_one_awake [OF assms(6)] len assms(1,2) cl unfolding pool_inv_def by auto
    moreover have "Exited \<notin> set threads'"
      using notify_one_set [OF assms(6)] assms(1) cl unfolding pool_inv_def by auto
    ultimately show ?thesis
      using assms(1,4,5) True bound cl len notify_one_running [OF assms(6)] notify_one_length [OF assms(6)]
      unfolding pool_inv_def submit_section_def by (auto simp: rassert_def)
  next
    case False
    then show ?thesis
      using assms(1,4,5) bound cl len qn unfolding pool_inv_def submit_section_def by (auto simp: rassert_def)
  qed
qed

lemma stop_section_inv:
  assumes "pool_inv n tasks st" and "client st = Active" and "to_submit st = []"
  shows "pool_inv n tasks (stop_section st)"
proof (cases "outstanding st = 0")
  case True
  have "Sleeping \<notin> set (notify_all ws)" "length (notify_all ws) = length ws"
    "running (notify_all ws) = running ws" for ws :: "'a worker list"
    by (auto simp: notify_all_def wake_def running_wake)
  moreover have "q_tasks st = []" using assms(1) True unfolding pool_inv_def by auto
  ultimately show ?thesis
    using assms True unfolding pool_inv_def stop_section_def by auto
next
  case False
  then have "q_tasks st \<noteq> []" using assms(1) unfolding pool_inv_def by (auto simp: unat_eq_0)
  with False assms show ?thesis unfolding pool_inv_def stop_section_def by auto
qed

lemma join_section_inv:
  assumes "pool_inv n tasks st" and "client st = Joining" and "\<forall>w \<in> set (threads st). w = Exited"
  shows "\<exists>st'. join_section st = Inr st' \<and> pool_inv n tasks st'"
proof -
  have "\<forall>w \<in> set ws. w = Exited \<Longrightarrow> running ws = []" for ws :: "'a worker list"
    by (induction ws rule: running.induct) auto
  then have "running (threads st) = []" using assms(3) .
  then show ?thesis
    using assms(1,2) unfolding pool_inv_def join_section_def by (auto simp: rassert_def Let_def)
qed

lemma pool_step_inv:
  assumes "pool_inv n tasks st" and "0 < n" and "n < 2 ^ 32" and "pool_step st r"
  shows "\<exists>st'. r = Inr st' \<and> pool_inv n tasks st'"
  using assms(4)
proof (cases rule: pool_step.cases)
  case (worker i)
  then show ?thesis using worker_section_inv [OF assms(1)] by simp
next
  case (return i task)
  then show ?thesis using return_inv [OF assms(1)] by simp
next
  case (submit fn rest threads')
  then show ?thesis using submit_section_inv [OF assms(1-3)] by simp
next
  case stop
  then show ?thesis using stop_section_inv [OF assms(1)] by simp
next
  case join
  then show ?thesis using join_section_inv [OF assms(1)] by simp
qed

lemma spurious_inv:
  assumes "pool_inv n tasks st" and "spurious st st'"
  shows "pool_inv n tasks st'"
  using assms(2)
proof (cases rule: spurious.cases)
  case (worker i)
  note S = running_split [OF worker(2)]
  have "mset (running ((threads st)[i := Checking])) = mset (running (threads st))"
    using S(1) S(2) [of Checking] worker(3) by simp
  moreover have "awake ((threads st)[i := Checking])" by (rule awake_set [OF worker(2)]) simp
  moreover have "w \<in> set ((threads st)[i := Checking]) \<Longrightarrow> w = Checking \<or> w \<in> set (threads st)" for w
    using set_update_subset_insert [of "threads st" i Checking] by auto
  ultimately show ?thesis
    using assms(1) worker unfolding pool_inv_def by auto
qed (use assms(1) in \<open>auto simp: pool_inv_def\<close>)

lemma reachable_inv:
  assumes "pool_reachable n tasks st" and "n < 2 ^ 32"
  shows "pool_inv (nat n) tasks st \<and> 0 < n"
  using assms(1)
proof induction
  case (start st)
  then show ?case using new_pool_inv by blast
next
  case (step st st')
  then show ?case using pool_step_inv [of "nat n" tasks st "Inr st'"] assms(2) by auto
next
  case (wakeup st st')
  then show ?case using spurious_inv by blast
qed

section \<open>Progress and termination\<close>

lemma awake_step:
  assumes "awake (threads st)"
  shows "\<exists>r. pool_step st r"
proof -
  obtain w where w: "w \<in> set (threads st)" "w = Checking \<or> (\<exists>t. w = Running t)"
    using assms unfolding awake_def by blast
  from w(1) obtain i where i: "i < length (threads st)" "threads st ! i = w" by (auto simp: in_set_conv_nth)
  from w(2) show ?thesis
  proof (elim disjE exE)
    assume "w = Checking"
    with i have "threads st ! i = Checking" by simp
    then show ?thesis using pool_step.worker [OF i(1)] by blast
  next
    fix t assume "w = Running t"
    with i have "threads st ! i = Running t" by simp
    then show ?thesis using pool_step.return [OF i(1)] by blast
  qed
qed

lemma notify_one_exists: "\<exists>ws'. notify_one ws ws'"
proof (cases "Sleeping \<in> set ws")
  case True
  then obtain i where "i < length ws" "ws ! i = Sleeping" by (auto simp: in_set_conv_nth)
  then show ?thesis using notify_one.one by blast
qed (use notify_one.none in blast)

lemma pool_progress:
  assumes "pool_inv n tasks st" and "client st \<noteq> Done"
  shows "\<exists>r. pool_step st r"
proof (cases "client st")
  case Active
  obtain ws where "notify_one (threads st) ws" using notify_one_exists by blast
  with Active show ?thesis
    by (cases "to_submit st") (auto intro: pool_step.submit pool_step.stop)
next
  case Blocked
  then show ?thesis using assms(1) awake_step unfolding pool_inv_def by blast
next
  case Joining
  show ?thesis
  proof (cases "\<forall>w \<in> set (threads st). w = Exited")
    case False
    then obtain w where w: "w \<in> set (threads st)" "w \<noteq> Exited" by blast
    moreover have "w \<noteq> Sleeping" using w(1) assms(1) Joining unfolding pool_inv_def by auto
    ultimately have "w = Checking \<or> (\<exists>t. w = Running t)" by (metis worker.exhaust)
    then have "awake (threads st)" using w(1) unfolding awake_def by blast
    then show ?thesis by (rule awake_step)
  qed (use Joining in \<open>auto intro: pool_step.join\<close>)
qed (use assms in simp)

fun worker_work :: "'a worker \<Rightarrow> nat" where
  "worker_work Checking = 1"
| "worker_work Sleeping = 0"
| "worker_work (Running t) = 2"
| "worker_work Exited = 0"

fun client_work :: "nat \<Rightarrow> client \<Rightarrow> nat" where
  "client_work n Active = n + 3"
| "client_work n Blocked = n + 2"
| "client_work n Joining = 1"
| "client_work n Done = 0"

definition pool_work :: "'a pool \<Rightarrow> nat" where
  "pool_work st =
     5 * length (to_submit st) + 3 * length (q_tasks st) + sum_list (map worker_work (threads st)) +
     client_work (length (threads st)) (client st)"

lemma worker_work_update:
  "i < length ws \<Longrightarrow> sum_list (map worker_work (ws[i := w])) + worker_work (ws ! i) =
     sum_list (map worker_work ws) + worker_work w"
  by (induction ws arbitrary: i) (auto split: nat.split)

lemma notify_one_work:
  "notify_one ws ws' \<Longrightarrow> sum_list (map worker_work ws') \<le> Suc (sum_list (map worker_work ws))"
  by (erule notify_oneE) (use worker_work_update in fastforce)+

lemma notify_all_work: "sum_list (map worker_work (notify_all ws)) \<le> sum_list (map worker_work ws) + length ws"
proof (induction ws)
  case (Cons w ws)
  then show ?case by (cases w) (auto simp: notify_all_def wake_def)
qed (simp add: notify_all_def)

lemma notify_all_length [simp]: "length (notify_all ws) = length ws"
  by (simp add: notify_all_def)

lemma notify_client_work: "client_work n (notify_client c) \<le> Suc (client_work n c)"
  by (cases c) (simp_all add: notify_client_def)

lemma worker_section_work:
  assumes "i < length (threads st)" and "threads st ! i = Checking"
  shows "pool_work (worker_section i st) < pool_work st"
proof -
  note u = worker_work_update [OF assms(1)]
  show ?thesis
    using u [of Exited] u [of Sleeping] u [of "Running (hd (q_tasks st))"] assms(2)
      notify_client_work [of "length (threads st)" "client st"]
    by (cases "q_tasks st") (auto simp: pool_work_def worker_section_def)
qed

lemma pool_step_work:
  assumes "pool_step st (Inr st')"
  shows "pool_work st' < pool_work st"
  using assms
proof (cases rule: pool_step.cases)
  case (worker i)
  then show ?thesis using worker_section_work by simp
next
  case (return i task)
  then show ?thesis using worker_work_update [OF return(2), of Checking] by (simp add: pool_work_def)
next
  case (submit fn rest threads')
  then show ?thesis
    using notify_one_work [OF submit(4)] notify_one_length [OF submit(4)]
    by (auto simp: submit_section_def rassert_def pool_work_def split: if_splits)
next
  case stop
  then show ?thesis
    using notify_all_work [of "threads st"] by (auto simp: stop_section_def pool_work_def)
next
  case join
  then show ?thesis by (auto simp: join_section_def rassert_def pool_work_def Let_def split: if_splits)
qed

lemma wf_pool_step: "wf {(st', st). pool_step st (Inr st')}"
  by (rule wf_subset [OF wf_measure [of pool_work]]) (auto simp: pool_step_work)

section \<open>The bag of pending tasks\<close>

text \<open>What the pool promises its client: a bag to which tasks are added in order and from which any
  task may complete.\<close>

inductive bag_step :: "'a multiset \<times> 'a list \<Rightarrow> 'a multiset \<times> 'a list \<Rightarrow> bool" where
  add: "bag_step (B, t # ts) (add_mset t B, ts)"
| complete: "bag_step (add_mset t B, ts) (B, ts)"

definition bag :: "'a pool \<Rightarrow> 'a multiset \<times> 'a list" where
  "bag st = (mset (q_tasks st) + mset (running (threads st)), to_submit st)"

lemma bag_worker_section:
  assumes "i < length (threads st)" and "threads st ! i = Checking"
  shows "bag (worker_section i st) = bag st"
  using running_split [OF assms(1)] assms(2)
  by (cases "q_tasks st") (auto simp: bag_def worker_section_def)

lemma bag_refinement:
  assumes "pool_step st (Inr st')"
  shows "bag st' = bag st \<or> bag_step (bag st) (bag st')"
  using assms
proof (cases rule: pool_step.cases)
  case (worker i)
  then show ?thesis using bag_worker_section [OF worker(2,3)] by simp
next
  case (return i task)
  note S = running_split [OF return(2)]
  have "mset (running (threads st)) = add_mset task (mset (running ((threads st)[i := Checking])))"
    using S(1) S(2) [of Checking] return(3) by simp
  then have "bag st = (add_mset task (fst (bag st')), snd (bag st'))" using return(1) by (simp add: bag_def)
  then show ?thesis using bag_step.complete [of task "fst (bag st')" "snd (bag st')"] by simp
next
  case (submit fn rest threads')
  then show ?thesis
    using notify_one_running [OF submit(4)] bag_step.add
    by (auto simp: submit_section_def rassert_def bag_def split: if_splits)
next
  case stop
  then show ?thesis by (auto simp: stop_section_def bag_def notify_all_def running_wake)
next
  case join
  have "\<forall>w \<in> set ws. w = Exited \<Longrightarrow> running ws = []" for ws :: "'a worker list"
    by (induction ws rule: running.induct) auto
  from this [OF join(3)] join(1) show ?thesis
    by (auto simp: join_section_def rassert_def bag_def Let_def split: if_splits)
qed

lemma bag_spurious:
  assumes "spurious st st'" shows "bag st' = bag st"
  using assms
proof (cases rule: spurious.cases)
  case (worker i)
  then show ?thesis using running_split [OF worker(2)] by (simp add: bag_def)
qed (simp add: bag_def)

section \<open>Properties of the pool\<close>

lemma pool_finishes:
  assumes "n < 2 ^ 32" and "pool_reachable n tasks st"
  shows "\<exists>st'. pool_reachable n tasks st' \<and> client st' = Done"
  using assms(2)
proof (induction st rule: wf_induct_rule [OF wf_pool_step])
  case (1 st)
  note inv = reachable_inv [OF 1(2) assms(1)]
  show ?case
  proof (cases "client st = Done")
    case False
    then obtain r where r: "pool_step st r" using pool_progress inv by blast
    moreover have "nat n < 2 ^ 32" using assms(1) by simp
    ultimately obtain st' where "r = Inr st'" using pool_step_inv inv by (metis zero_less_nat_eq)
    with r 1 show ?thesis using pool_reachable.step by blast
  qed (use 1 in blast)
qed

text \<open>C3: The pool takes the tasks in the order of their submission, each exactly once; a task that has
  returned was taken before, and when the destructor returns, every submitted task has returned.\<close>

theorem pool_runs_each_task_once:
  assumes "pool_reachable n tasks st" and "n < 2 ^ 32"
  shows "started st @ q_tasks st @ to_submit st = tasks \<and>
    mset (started st) = mset (finished st) + mset (running (threads st)) \<and>
    (client st = Done \<longrightarrow> started st = tasks \<and> mset (finished st) = mset tasks)"
  using reachable_inv [OF assms] unfolding pool_inv_def by auto

theorem pool_runs_each_task_once_witness:
  "\<exists>st. pool_reachable 2 [''a'', ''b'', ''c''] st \<and> client st = Done \<and>
    started st = [''a'', ''b'', ''c''] \<and> mset (finished st) = {#''a'', ''b'', ''c''#}"
proof -
  have "\<exists>st. new_pool 2 [''a'', ''b'', ''c''] = Inr st" by (simp add: new_pool_def rassert_def)
  then obtain st where "pool_reachable 2 [''a'', ''b'', ''c''] st" using pool_reachable.start by blast
  then obtain st' where st': "pool_reachable 2 [''a'', ''b'', ''c''] st'" "client st' = Done"
    using pool_finishes [of 2] by auto
  then show ?thesis using pool_runs_each_task_once [OF st'(1)] by auto
qed

text \<open>C2: The pool never deadlocks and loses no wake-up: in every reachable state no assertion can fire,
  some thread can take a step without a spurious wake-up until the destructor has returned, and
  every sequence of such steps ends, provided that the tasks return.\<close>

theorem pool_always_terminates:
  assumes "pool_reachable n tasks st" and "n < 2 ^ 32"
  shows "(client st = Done \<or> (\<exists>r. pool_step st r)) \<and> (\<forall>e. \<not> pool_step st (Inl e)) \<and>
    wf {(st', st :: 'a pool). pool_step st (Inr st')}"
proof -
  note inv = reachable_inv [OF assms]
  moreover have "nat n < 2 ^ 32" using assms(2) by simp
  ultimately have "\<not> pool_step st (Inl e)" for e
    using pool_step_inv [of "nat n" tasks st "Inl e"] by auto
  with inv show ?thesis using pool_progress wf_pool_step by blast
qed

theorem pool_always_terminates_witness:
  "\<exists>st :: string pool. new_pool 2 [''a'', ''b''] = Inr st \<and> (\<exists>st'. pool_step st (Inr st'))"
proof -
  obtain st where st: "new_pool 2 [''a'', ''b''] = Inr st" by (simp add: new_pool_def rassert_def)
  then have c: "client st = Active" by (auto simp: new_pool_def rassert_def)
  from pool_always_terminates [OF pool_reachable.start [OF st]] c
  obtain r where r: "pool_step st r" "\<forall>e. r \<noteq> Inl e" by auto
  then obtain st' where "r = Inr st'" by (cases r) auto
  with st r show ?thesis by blast
qed

text \<open>C39: At most one task more than there are threads is queued, the counter \<open>outstanding_\<close> is the
  length of the queue and does not wrap around, and no more tasks run than there are threads.\<close>

theorem pool_bounds:
  assumes "pool_reachable n tasks st" and "n < 2 ^ 32"
  shows "unat (outstanding st) = length (q_tasks st) \<and> length (q_tasks st) \<le> nat n + 1 \<and>
    length (running (threads st)) \<le> nat n"
proof -
  have "length (running ws) \<le> length ws" for ws :: "'a worker list"
    by (induction ws rule: running.induct) auto
  from this [of "threads st"] show ?thesis
    using reachable_inv [OF assms] unfolding pool_inv_def by fastforce
qed

theorem pool_bounds_witness:
  "\<exists>st. new_pool 2 [''a'', ''b''] = Inr st \<and> unat (outstanding st) = length (q_tasks st)"
proof -
  obtain st where st: "new_pool 2 [''a'', ''b''] = Inr st" by (simp add: new_pool_def rassert_def)
  with pool_bounds [OF pool_reachable.start [OF st]] show ?thesis by simp
qed

text \<open>C38: To its client the pool is a bag of pending tasks: every step either adds the next task to the
  bag, or completes one task of the bag, or does not change it; once the destructor has returned,
  the bag is empty and nothing is left to submit.\<close>

theorem pool_refines_bag:
  assumes "pool_reachable n tasks st" and "n < 2 ^ 32" and "pool_step st (Inr st')"
  shows "(bag st' = bag st \<or> bag_step (bag st) (bag st')) \<and> (client st' = Done \<longrightarrow> bag st' = ({#}, []))"
proof -
  have "pool_inv (nat n) tasks st'"
    using reachable_inv [OF pool_reachable.step [OF assms(1,3)] assms(2)] by blast
  then have "client st' = Done \<longrightarrow> bag st' = ({#}, [])"
    unfolding pool_inv_def bag_def by auto
  with bag_refinement [OF assms(3)] show ?thesis by blast
qed

theorem pool_refines_bag_witness:
  "\<exists>st st'. new_pool 1 [''a''] = Inr st \<and> pool_step st (Inr st') \<and>
    (bag st' = bag st \<or> bag_step (bag st) (bag st'))"
proof -
  obtain st where st: "new_pool 1 [''a''] = Inr st" by (simp add: new_pool_def rassert_def)
  then have "0 < length (threads st)" "threads st ! 0 = Checking" by (auto simp: new_pool_def rassert_def)
  from pool_step.worker [OF this] pool_refines_bag [OF pool_reachable.start [OF st]] st show ?thesis by auto
qed

section \<open>\<open>SyncCounter\<close>\<close>

record counter =
  cntr :: "64 word"
  waiters :: nat          \<comment> \<open>the threads asleep in \<open>WaitForZero\<close>\<close>

definition new_counter :: "64 word \<Rightarrow> counter" where
  "new_counter initial = \<lparr>cntr = initial, waiters = 0\<rparr>"

definition Increment :: "counter \<Rightarrow> counter" where
  "Increment c = c\<lparr>cntr := cntr c + 1\<rparr>"

text \<open>\<open>cntr_-- == 0\<close> compares the value before the decrement.\<close>

definition Decrement :: "counter \<Rightarrow> counter res" where
  "Decrement c =
     rassert (cntr c > 0) ''cntr_ > 0''
       (let old = cntr c; c' = c\<lparr>cntr := old - 1\<rparr>
        in Inr (if old = 0 then c'\<lparr>waiters := 0\<rparr> else c'))"

text \<open>The critical section of \<open>WaitForZero\<close>: whether it returns; otherwise the thread goes to sleep.\<close>

definition WaitForZero :: "counter \<Rightarrow> bool \<times> counter" where
  "WaitForZero c = (if cntr c = 0 then (True, c) else (False, c\<lparr>waiters := Suc (waiters c)\<rparr>))"

text \<open>C40: No thread that sleeps in \<open>WaitForZero\<close> is ever notified: \<open>Decrement\<close> lowers the counter by one,
  also to zero, and leaves the sleeping threads asleep.\<close>

theorem counter_never_notifies:
  assumes "Decrement c = Inr c'"
  shows "waiters c' = waiters c \<and> unat (cntr c') + 1 = unat (cntr c)"
proof -
  have pos: "0 < cntr c" "c' = c\<lparr>cntr := cntr c - 1\<rparr>"
    using assms by (auto simp: Decrement_def rassert_def Let_def split: if_splits)
  then have ne: "cntr c \<noteq> 0" by auto
  then have "unat (cntr c) \<noteq> 0" by (simp add: unat_eq_0)
  then have "unat (cntr c - 1) + 1 = unat (cntr c)"
    unfolding unat_minus_one [OF ne] by simp
  with pos(2) show ?thesis by simp
qed

theorem counter_never_notifies_witness:
  "\<exists>c. Decrement (snd (WaitForZero (new_counter 1))) = Inr c \<and> cntr c = 0 \<and> waiters c = 1"
proof -
  have d: "Decrement (snd (WaitForZero (new_counter 1))) = Inr \<lparr>cntr = 0, waiters = 1\<rparr>"
    by (simp add: Decrement_def WaitForZero_def new_counter_def rassert_def Let_def)
  from counter_never_notifies [OF d] d show ?thesis by simp
qed

end
