(* ===== verification/Directory_Scan.thy ===== *)
theory Directory_Scan
  imports Scanner Thread_Pool
begin

text \<open>
  \<open>ScanDirectory\<close> (src/src/scanner_int.h): the main thread walks the directories with a stack and
  submits one task per regular file to the thread pool; the workers compute checksums and hand the
  files to the processor, one call at a time under a mutex. The interleavings are a step relation;
  what the operating system and the checksum computation say about a path is a parameter. The pool
  is constructed first, which fails without threads; from then on it is a bag of submitted tasks
  (theory Thread_Pool shows that it implements one). The mutex is declared after the pool, so it is
  destroyed when the loop ends, before the destructor of the pool waits for the tasks that are left.
\<close>

section \<open>The file system\<close>

text \<open>\<open>None\<close> is a thrown exception; the last operation is \<open>HashCache::Get()(path)\<close>. The file system
  does not change during the scan. The entries of a directory end where the iteration ends or its
  increment throws, which has the same effect. The flag is about the platform: whether a
  \<open>std::mutex\<close> can be locked after its destructor has run, as long as its storage exists. C++ leaves
  that undefined; it works where the destructor is trivial, as it is in libstdc++.\<close>

record 'p file_system =
  fs_list :: "'p \<Rightarrow> 'p list option"
  fs_is_symlink :: "'p \<Rightarrow> bool option"
  fs_is_directory :: "'p \<Rightarrow> bool option"
  fs_is_regular :: "'p \<Rightarrow> bool option"
  fs_info :: "'p \<Rightarrow> FileInfo option"
  fs_late_lock :: bool

section \<open>The steps\<close>

record ('p, 'h, 's) scan_state =
  dirs_to_process :: "('p \<times> 'h option) list"
  current_dir :: "('h \<times> 'p list) option"     \<comment> \<open>the handle and the entries still to visit\<close>
  submitted :: "('p \<times> 'h) list"              \<comment> \<open>tasks not yet finished\<close>
  mutex_alive :: bool
  proc_state :: 's

text \<open>Whether locking the mutex is defined.\<close>

definition can_lock :: "'p file_system \<Rightarrow> ('p, 'h, 's) scan_state \<Rightarrow> bool" where
  "can_lock FS st \<longleftrightarrow> mutex_alive st \<or> fs_late_lock FS"

text \<open>The body of the loop over the entries: the stack and the tasks after it.\<close>

definition visit_entry ::
  "'p file_system \<Rightarrow> 'h \<Rightarrow> 'p \<Rightarrow> ('p, 'h, 's) scan_state \<Rightarrow> ('p, 'h, 's) scan_state" where
  "visit_entry FS handle it st =
     (case fs_is_symlink FS it of
        None \<Rightarrow> st
      | Some True \<Rightarrow> st
      | Some False \<Rightarrow>
          (case fs_is_directory FS it of
             None \<Rightarrow> st
           | Some is_dir \<Rightarrow>
               let st1 = (if is_dir then st\<lparr>dirs_to_process := (it, Some handle) # dirs_to_process st\<rparr> else st)
               in if fs_is_regular FS it = Some True
                  then st1\<lparr>submitted := submitted st1 @ [(it, handle)]\<rparr> else st1))"

text \<open>The task of a file: nothing is reported, and nothing locked, when its checksum is 0 or cannot be
  computed.\<close>

definition run_task ::
  "'p path_api \<Rightarrow> 'p file_system \<Rightarrow> ('p, 'h, 's) ScanProcessor \<Rightarrow> bool \<Rightarrow> 'p \<times> 'h \<Rightarrow> 's \<Rightarrow> 's res" where
  "run_task P FS processor lockable task s =
     (case fs_info FS (fst task) of
        None \<Rightarrow> Inr s
      | Some f_info \<Rightarrow>
          if fi_sum f_info \<noteq> 0 then
            (if lockable then sp_File processor (p_filename P (fst task)) (snd task) f_info s
             else Inl (Undefined ''lock of a destroyed mutex''))
          else Inr s)"

text \<open>Opening a directory: its handle is created only if it can be listed.\<close>

definition open_directory ::
  "'p path_api \<Rightarrow> 'p file_system \<Rightarrow> ('p, 'h, 's) ScanProcessor \<Rightarrow> 'p \<times> 'h option \<Rightarrow>
   ('p, 'h, 's) scan_state \<Rightarrow> ('p, 'h, 's) scan_state res" where
  "open_directory P FS processor entry st =
     (case fs_list FS (fst entry) of
        None \<Rightarrow> Inr st
      | Some entries \<Rightarrow>
          rbind (case snd entry of
              Some parent \<Rightarrow> sp_Dir processor (p_filename P (fst entry)) parent (proc_state st)
            | None \<Rightarrow> sp_RootDir processor (fst entry) (proc_state st))
            (\<lambda>(handle, s). Inr (st\<lparr>current_dir := Some (handle, entries), proc_state := s\<rparr>)))"

inductive scan_step ::
  "'p path_api \<Rightarrow> 'p file_system \<Rightarrow> ('p, 'h, 's) ScanProcessor \<Rightarrow>
   ('p, 'h, 's) scan_state \<Rightarrow> ('p, 'h, 's) scan_state res \<Rightarrow> bool" for P FS processor where
  pop: "current_dir st = None \<Longrightarrow> dirs_to_process st = entry # rest \<Longrightarrow>
    scan_step P FS processor st (open_directory P FS processor entry (st\<lparr>dirs_to_process := rest\<rparr>))"
| visit: "current_dir st = Some (handle, it # its) \<Longrightarrow>
    scan_step P FS processor st (Inr (visit_entry FS handle it (st\<lparr>current_dir := Some (handle, its)\<rparr>)))"
| leave: "current_dir st = Some (handle, []) \<Longrightarrow>
    scan_step P FS processor st (Inr (st\<lparr>current_dir := None\<rparr>))"
| work: "submitted st = ts1 @ task # ts2 \<Longrightarrow>
    scan_step P FS processor st (rbind (run_task P FS processor (can_lock FS st) task (proc_state st))
      (\<lambda>s. Inr (st\<lparr>submitted := ts1 @ ts2, proc_state := s\<rparr>)))"
| destroy: "current_dir st = None \<Longrightarrow> dirs_to_process st = [] \<Longrightarrow> mutex_alive st \<Longrightarrow>
    scan_step P FS processor st (Inr (st\<lparr>mutex_alive := False\<rparr>))"

definition scan_done :: "('p, 'h, 's) scan_state \<Rightarrow> bool" where
  "scan_done st \<longleftrightarrow> dirs_to_process st = [] \<and> current_dir st = None \<and> \<not> mutex_alive st \<and> submitted st = []"

inductive scan_run ::
  "'p path_api \<Rightarrow> 'p file_system \<Rightarrow> ('p, 'h, 's) ScanProcessor \<Rightarrow>
   ('p, 'h, 's) scan_state \<Rightarrow> 's res \<Rightarrow> bool" for P FS processor where
  finished: "scan_done st \<Longrightarrow> scan_run P FS processor st (Inr (proc_state st))"
| stepped: "scan_step P FS processor st (Inr st') \<Longrightarrow> scan_run P FS processor st' r \<Longrightarrow>
    scan_run P FS processor st r"
| failed: "scan_step P FS processor st (Inl e) \<Longrightarrow> scan_run P FS processor st (Inl e)"

text \<open>The local variables at the beginning of the loop, and their construction: the stack, the pool,
  which still has no tasks, and the mutex.\<close>

definition scan_locals :: "'p \<Rightarrow> 's \<Rightarrow> ('p, 'h, 's) scan_state" where
  "scan_locals root s =
     \<lparr>dirs_to_process = [(root, None)], current_dir = None, submitted = [], mutex_alive = True, proc_state = s\<rparr>"

definition start_scan :: "int \<Rightarrow> 'p \<Rightarrow> 's \<Rightarrow> ('p, 'h, 's) scan_state res" where
  "start_scan concurrency root s =
     rbind (new_pool concurrency ([] :: ('p \<times> 'h) list)) (\<lambda>pool. Inr (scan_locals root s))"

lemma start_scan_cases:
  "start_scan n root s = (if 0 < n then Inr (scan_locals root s) else Inl (Assertion ''concurrency > 0''))"
  by (simp add: start_scan_def new_pool_def rassert_def)

text \<open>The possible outcomes of \<open>ScanDirectory\<close>.\<close>

definition ScanDirectory ::
  "'p path_api \<Rightarrow> 'p file_system \<Rightarrow> ('p, 'h, 's) ScanProcessor \<Rightarrow> int \<Rightarrow> 'p \<Rightarrow> 's \<Rightarrow> 's res set" where
  "ScanDirectory P FS processor concurrency root s =
     (case start_scan concurrency root s of
        Inl e \<Rightarrow> {Inl e}
      | Inr st \<Rightarrow> {r. scan_run P FS processor st r})"

section \<open>What there is to find\<close>

definition is_subdir :: "'p file_system \<Rightarrow> 'p \<Rightarrow> bool" where
  "is_subdir FS e \<longleftrightarrow> fs_is_symlink FS e = Some False \<and> fs_is_directory FS e = Some True"

definition is_task :: "'p file_system \<Rightarrow> 'p \<Rightarrow> bool" where
  "is_task FS e \<longleftrightarrow> fs_is_symlink FS e = Some False \<and> fs_is_directory FS e \<noteq> None \<and>
     fs_is_regular FS e = Some True"

definition task_files :: "'p path_api \<Rightarrow> 'p file_system \<Rightarrow> 'p list \<Rightarrow> 'p \<Rightarrow> ('p list \<times> FileInfo) set" where
  "task_files P FS d e =
     {(d @ [p_filename P e], fi) | fi. fs_info FS e = Some fi \<and> fi_sum fi \<noteq> 0}"

text \<open>The files below a directory that is reached by real directories from it, with their path
  relative to the root of the scan.\<close>

inductive_set files_in :: "'p path_api \<Rightarrow> 'p file_system \<Rightarrow> ('p \<times> 'p list \<times> 'p list \<times> FileInfo) set"
  for P FS where
  here: "fs_list FS r = Some es \<Longrightarrow> e \<in> set es \<Longrightarrow> is_task FS e \<Longrightarrow>
    x \<in> task_files P FS d e \<Longrightarrow> (r, d, x) \<in> files_in P FS"
| below: "fs_list FS r = Some es \<Longrightarrow> e \<in> set es \<Longrightarrow> is_subdir FS e \<Longrightarrow>
    (e, d @ [p_filename P e], x) \<in> files_in P FS \<Longrightarrow> (r, d, x) \<in> files_in P FS"

definition found_in :: "'p path_api \<Rightarrow> 'p file_system \<Rightarrow> 'p \<Rightarrow> 'p list \<Rightarrow> ('p list \<times> FileInfo) set" where
  "found_in P FS r d = {x. (r, d, x) \<in> files_in P FS}"

definition entry_files :: "'p path_api \<Rightarrow> 'p file_system \<Rightarrow> 'p list \<Rightarrow> 'p \<Rightarrow> ('p list \<times> FileInfo) set" where
  "entry_files P FS d e =
     (if is_task FS e then task_files P FS d e else {}) \<union>
     (if is_subdir FS e then found_in P FS e (d @ [p_filename P e]) else {})"

lemma found_in_rec:
  "found_in P FS r d = (case fs_list FS r of None \<Rightarrow> {} | Some es \<Rightarrow> (\<Union>e \<in> set es. entry_files P FS d e))"
proof -
  have "x \<in> found_in P FS r d \<longleftrightarrow>
      (\<exists>es e. fs_list FS r = Some es \<and> e \<in> set es \<and> x \<in> entry_files P FS d e)" for x
    unfolding found_in_def entry_files_def mem_Collect_eq
    by (subst files_in.simps) auto
  then show ?thesis by (auto split: option.split)
qed

section \<open>A plain recursive walk\<close>

text \<open>What one thread that descends into every directory at once finds: the directories that can be
  listed and the files with a nonzero checksum, each as often as the listings name it.\<close>

datatype 'p found = FoundDir "'p list" | FoundFile "'p list \<times> FileInfo"

definition task_report :: "'p path_api \<Rightarrow> 'p file_system \<Rightarrow> 'p list \<Rightarrow> 'p \<Rightarrow> 'p found list" where
  "task_report P FS d e =
     (case fs_info FS e of
        None \<Rightarrow> []
      | Some fi \<Rightarrow> if fi_sum fi \<noteq> 0 then [FoundFile (d @ [p_filename P e], fi)] else [])"

definition entry_found ::
  "'p path_api \<Rightarrow> 'p file_system \<Rightarrow> ('p \<Rightarrow> 'p list \<Rightarrow> 'p found list) \<Rightarrow> 'p list \<Rightarrow> 'p \<Rightarrow> 'p found list" where
  "entry_found P FS rec d e =
     (if is_task FS e then task_report P FS d e else []) @
     (if is_subdir FS e then rec e (d @ [p_filename P e]) else [])"

fun walk :: "'p path_api \<Rightarrow> 'p file_system \<Rightarrow> nat \<Rightarrow> 'p \<Rightarrow> 'p list \<Rightarrow> 'p found list" where
  "walk P FS 0 r d = []"
| "walk P FS (Suc k) r d =
     (case fs_list FS r of
        None \<Rightarrow> []
      | Some es \<Rightarrow> FoundDir d # concat (map (entry_found P FS (walk P FS k) d) es))"

text \<open>The depth that is enough for whatever is below a directory.\<close>

fun height_le :: "'p file_system \<Rightarrow> nat \<Rightarrow> 'p \<Rightarrow> bool" where
  "height_le FS 0 r \<longleftrightarrow> fs_list FS r = None"
| "height_le FS (Suc k) r \<longleftrightarrow>
     (case fs_list FS r of
        None \<Rightarrow> True
      | Some es \<Rightarrow> \<forall>e \<in> set es. is_subdir FS e \<longrightarrow> height_le FS k e)"

definition below :: "'p file_system \<Rightarrow> ('p \<times> 'p) set" where
  "below FS = {(e, r). \<exists>es. fs_list FS r = Some es \<and> e \<in> set es \<and> is_subdir FS e}"

lemma height_le_mono: "height_le FS k r \<Longrightarrow> k \<le> k' \<Longrightarrow> height_le FS k' r"
proof (induction k arbitrary: r k')
  case 0
  then show ?case by (cases k') simp_all
next
  case (Suc k)
  obtain m where "k' = Suc m" "k \<le> m" using Suc.prems(2) by (cases k') auto
  with Suc show ?case by (auto split: option.splits)
qed

lemma walk_stable: "height_le FS k r \<Longrightarrow> k \<le> k' \<Longrightarrow> walk P FS k' r d = walk P FS k r d"
proof (induction k arbitrary: r d k')
  case 0
  then show ?case by (cases k') simp_all
next
  case (Suc k)
  obtain m where m: "k' = Suc m" "k \<le> m" using Suc.prems(2) by (cases k') auto
  have "entry_found P FS (walk P FS m) d e = entry_found P FS (walk P FS k) d e"
    if "fs_list FS r = Some es" "e \<in> set es" for es e
    using Suc.IH [OF _ m(2), of e] Suc.prems(1) that by (auto simp: entry_found_def)
  then show ?case using m(1) by (auto split: option.split cong: map_cong)
qed

lemma height_exists:
  assumes "wf (below FS)"
  shows "\<exists>k. height_le FS k r"
  using assms
proof (induction r rule: wf_induct_rule)
  case (less r)
  show ?case
  proof (cases "fs_list FS r")
    case None
    then show ?thesis by (intro exI [of _ 0]) simp
  next
    case (Some es)
    have "\<exists>k. \<forall>e \<in> set xs. is_subdir FS e \<longrightarrow> height_le FS k e" if "set xs \<subseteq> set es" for xs
      using that
    proof (induction xs)
      case (Cons x xs)
      then obtain k where k: "\<forall>e \<in> set xs. is_subdir FS e \<longrightarrow> height_le FS k e" by auto
      obtain m where m: "is_subdir FS x \<longrightarrow> height_le FS m x"
        using less [of x] Cons.prems Some by (auto simp: below_def)
      show ?case
        by (intro exI [of _ "max k m"]) (use k m height_le_mono [of FS _ _ "max k m"] in auto)
    qed simp
    from this [of es] obtain k where "\<forall>e \<in> set es. is_subdir FS e \<longrightarrow> height_le FS k e" by auto
    then show ?thesis using Some by (intro exI [of _ "Suc k"]) simp
  qed
qed

text \<open>The walk with a depth that is enough.\<close>

definition all_found :: "'p path_api \<Rightarrow> 'p file_system \<Rightarrow> 'p \<Rightarrow> 'p list \<Rightarrow> 'p found list" where
  "all_found P FS r d = walk P FS (LEAST k. height_le FS k r) r d"

lemma all_found_walk: "height_le FS k r \<Longrightarrow> all_found P FS r d = walk P FS k r d"
  unfolding all_found_def by (metis LeastI Least_le walk_stable)

lemma all_found_rec:
  assumes "wf (below FS)"
  shows "all_found P FS r d = (case fs_list FS r of None \<Rightarrow> []
    | Some es \<Rightarrow> FoundDir d # concat (map (entry_found P FS (all_found P FS) d) es))"
proof -
  obtain k where k: "height_le FS k r" using height_exists [OF assms] by blast
  then have k': "height_le FS (Suc k) r" by (rule height_le_mono) simp
  have "entry_found P FS (walk P FS k) d e = entry_found P FS (all_found P FS) d e"
    if "fs_list FS r = Some es" "e \<in> set es" for es e
    using k' that by (auto simp: entry_found_def all_found_walk)
  then show ?thesis unfolding all_found_walk [OF k'] by (auto split: option.split cong: map_cong)
qed

lemma walk_files: "height_le FS k r \<Longrightarrow> FoundFile x \<in> set (walk P FS k r d) \<longleftrightarrow> x \<in> found_in P FS r d"
proof (induction k arbitrary: r d)
  case 0
  then show ?case by (simp add: found_in_rec)
next
  case (Suc k)
  have "FoundFile x \<in> set (entry_found P FS (walk P FS k) d e) \<longleftrightarrow> x \<in> entry_files P FS d e"
    if "fs_list FS r = Some es" "e \<in> set es" for es e
    using Suc that by (auto simp: entry_found_def entry_files_def task_report_def task_files_def split: option.split)
  then show ?case by (auto simp: found_in_rec [of P FS r] split: option.split)
qed

lemma all_found_files: "wf (below FS) \<Longrightarrow> {x. FoundFile x \<in> set (all_found P FS r d)} = found_in P FS r d"
  using height_exists walk_files all_found_walk by (metis (no_types, lifting) Collect_cong Collect_mem_eq)

section \<open>Every run finds exactly what the walk finds\<close>

text \<open>What is known of the entries of a directory: each has a filename that may follow any
  directory, and the size of a file is not negative.\<close>

definition file_system_ok :: "'p path_api \<Rightarrow> 'p file_system \<Rightarrow> bool" where
  "file_system_ok P FS \<longleftrightarrow>
     (\<forall>r es e d. fs_list FS r = Some es \<longrightarrow> e \<in> set es \<longrightarrow> path_name P d (p_filename P e)) \<and>
     (\<forall>e fi. fs_info FS e = Some fi \<longrightarrow> 0 \<le> fi_size fi)"

text \<open>What the rest of a run will find: below the directories on the stack, from the entries still to
  visit, and by the tasks.\<close>

definition from_stack where
  "from_stack P FS A x = mset (all_found P FS (fst x) (the (A (the (snd x))) @ [p_filename P (fst x)]))"

definition from_entries where
  "from_entries P FS d es = (\<Sum>e\<leftarrow>es. mset (entry_found P FS (all_found P FS) d e))"

definition from_task where
  "from_task P FS A t = mset (task_report P FS (the (A (snd t))) (fst t))"

definition open_found where
  "open_found P FS A st =
     (\<Sum>x\<leftarrow>dirs_to_process st. from_stack P FS A x) +
     (case current_dir st of None \<Rightarrow> {#} | Some (h, es) \<Rightarrow> from_entries P FS (the (A h)) es) +
     (\<Sum>t\<leftarrow>submitted st. from_task P FS A t)"

text \<open>The handles in use are known, the names may follow their directories.\<close>

definition known :: "'p path_api \<Rightarrow> ('h \<rightharpoonup> 'p list) \<Rightarrow> 'p \<Rightarrow> 'h \<Rightarrow> bool" where
  "known P A e h \<longleftrightarrow> (\<exists>d. A h = Some d \<and> path_name P d (p_filename P e))"

definition handles_ok where
  "handles_ok P A st \<longleftrightarrow>
     (\<forall>x \<in> set (dirs_to_process st). \<exists>h. snd x = Some h \<and> known P A (fst x) h) \<and>
     (\<forall>h es. current_dir st = Some (h, es) \<longrightarrow> A h \<noteq> None \<and> (\<forall>e \<in> set es. known P A e h)) \<and>
     (\<forall>t \<in> set (submitted st). known P A (fst t) (snd t))"

lemma known_extend: "known P A e h \<Longrightarrow> (\<And>k. A k \<noteq> None \<Longrightarrow> A' k = A k) \<Longrightarrow> known P A' e h"
  unfolding known_def by (metis option.distinct(1))

lemma handles_extend:
  assumes "handles_ok P A st" and "\<And>k. A k \<noteq> None \<Longrightarrow> A' k = A k"
  shows "handles_ok P A' st" and "open_found P FS A' st = open_found P FS A st"
proof -
  have up: "known P A e h \<Longrightarrow> known P A' e h" for e h by (rule known_extend) (use assms(2) in blast)+
  show "handles_ok P A' st"
    unfolding handles_ok_def
  proof (intro conjI ballI allI impI)
    show "\<exists>h. snd x = Some h \<and> known P A' (fst x) h" if "x \<in> set (dirs_to_process st)" for x
      using assms(1) up that unfolding handles_ok_def by blast
    show "A' h \<noteq> None" if "current_dir st = Some (h, es)" for h es
      using assms(1) assms(2) [of h] that unfolding handles_ok_def by simp
    show "known P A' e h" if "current_dir st = Some (h, es)" "e \<in> set es" for h es e
      using assms(1) up that unfolding handles_ok_def by blast
    show "known P A' (fst t) (snd t)" if "t \<in> set (submitted st)" for t
      using assms(1) up that unfolding handles_ok_def by blast
  qed
  have k: "A' h = A h" if "known P A e h" for e h
    using that assms(2) unfolding known_def by (metis option.distinct(1))
  have "map (from_stack P FS A') (dirs_to_process st) = map (from_stack P FS A) (dirs_to_process st)"
    using assms(1) k by (intro map_cong refl) (auto simp: handles_ok_def from_stack_def)
  moreover have "map (from_task P FS A') (submitted st) = map (from_task P FS A) (submitted st)"
    using assms(1) k by (intro map_cong refl) (auto simp: handles_ok_def from_task_def)
  moreover have "(case current_dir st of None \<Rightarrow> {#} | Some (h, es) \<Rightarrow> from_entries P FS (the (A' h)) es) =
      (case current_dir st of None \<Rightarrow> {#} | Some (h, es) \<Rightarrow> from_entries P FS (the (A h)) es)"
    using assms by (auto simp: handles_ok_def split: option.split)
  ultimately show "open_found P FS A' st = open_found P FS A st"
    unfolding open_found_def by (simp only:)
qed

lemma visit_entry_found:
  assumes "A h = Some d"
  shows "open_found P FS A (visit_entry FS h e st) =
    open_found P FS A st + mset (entry_found P FS (all_found P FS) d e)"
proof -
  have "dirs_to_process (visit_entry FS h e st) =
      (if is_subdir FS e then (e, Some h) # dirs_to_process st else dirs_to_process st)"
    "submitted (visit_entry FS h e st) = (if is_task FS e then submitted st @ [(e, h)] else submitted st)"
    "current_dir (visit_entry FS h e st) = current_dir st"
    by (simp_all add: visit_entry_def is_subdir_def is_task_def Let_def split: option.split bool.split)
  then show ?thesis
    using assms by (simp add: open_found_def from_stack_def from_task_def entry_found_def ac_simps)
qed

lemma visit_entry_handles:
  assumes "handles_ok P A st" and "known P A e h"
  shows "handles_ok P A (visit_entry FS h e st)"
  using assms by (auto simp: visit_entry_def handles_ok_def Let_def split: option.split bool.split)

text \<open>What was found and what is still to be found add up.\<close>

definition in_progress where
  "in_progress rep P FS everything st \<longleftrightarrow>
     (\<exists>A ds fs. rep (proc_state st) A ds fs \<and> handles_ok P A st \<and>
        mset (map FoundDir ds @ map FoundFile fs) + open_found P FS A st = everything)"

context scan_processor
begin

lemma pop_progress:
  assumes "file_system_ok P FS" and "wf (below FS)" and "in_progress rep P FS everything st"
    and "current_dir st = None" and "dirs_to_process st = x # rest"
  shows "\<exists>st'. open_directory P FS processor x (st\<lparr>dirs_to_process := rest\<rparr>) = Inr st' \<and>
    in_progress rep P FS everything st'"
proof -
  obtain A ds fs where st: "rep (proc_state st) A ds fs" "handles_ok P A st"
    "mset (map FoundDir ds @ map FoundFile fs) + open_found P FS A st = everything"
    using assms(3) unfolding in_progress_def by blast
  obtain e h d where x: "x = (e, Some h)" "A h = Some d" "path_name P d (p_filename P e)"
    using st(2) assms(5) by (cases x) (auto simp: handles_ok_def known_def)
  let ?st = "st\<lparr>dirs_to_process := rest\<rparr>" and ?d = "d @ [p_filename P e]"
  have ok: "handles_ok P A ?st" using st(2) assms(5) by (simp add: handles_ok_def)
  have found: "open_found P FS A st = open_found P FS A ?st + mset (all_found P FS e ?d)"
    using assms(5) x by (simp add: open_found_def from_stack_def ac_simps)
  show ?thesis
  proof (cases "fs_list FS e")
    case None
    then have "all_found P FS e ?d = []" by (simp add: all_found_rec [OF assms(2)])
    then have "in_progress rep P FS everything ?st"
      unfolding in_progress_def using st ok found by auto
    with None x show ?thesis by (simp add: open_directory_def)
  next
    case (Some es)
    from new_dir [OF st(1) x(2,3)] obtain h' s' where d: "sp_Dir processor (p_filename P e) h (proc_state st) = Inr (h', s')"
      "rep s' (A(h' \<mapsto> ?d)) (ds @ [?d]) fs" "A h' \<in> {None, Some ?d}" by blast
    let ?A = "A(h' \<mapsto> ?d)"
    let ?st' = "?st\<lparr>current_dir := Some (h', es), proc_state := s'\<rparr>"
    have keep: "?A k = A k" if "A k \<noteq> None" for k using that d(3) by auto
    have ext: "handles_ok P ?A ?st" "open_found P FS ?A ?st = open_found P FS A ?st"
      by (rule handles_extend [where A' = ?A, OF ok keep], simp)+
    have "known P ?A e' h'" if "e' \<in> set es" for e'
      using assms(1) Some that by (auto simp: known_def file_system_ok_def)
    then have hok: "handles_ok P ?A ?st'"
      using ext(1) by (simp add: handles_ok_def)
    have "open_found P FS ?A ?st' = open_found P FS ?A ?st + from_entries P FS ?d es"
      using assms(4) by (simp add: open_found_def ac_simps)
    moreover have "mset (all_found P FS e ?d) = add_mset (FoundDir ?d) (from_entries P FS ?d es)"
      using Some by (simp add: all_found_rec [OF assms(2), of P e] from_entries_def mset_concat comp_def)
    ultimately have "mset (map FoundDir (ds @ [?d]) @ map FoundFile fs) + open_found P FS ?A ?st' = everything"
      using st(3) unfolding found ext(2) by (simp add: ac_simps)
    then have "in_progress rep P FS everything ?st'"
      unfolding in_progress_def using d(2) hok
      by (intro exI [of _ ?A] exI [of _ "ds @ [?d]"] exI [of _ fs]) simp
    with Some x d(1) show ?thesis by (simp add: open_directory_def)
  qed
qed

lemma work_progress:
  assumes "file_system_ok P FS" and "in_progress rep P FS everything st" and "submitted st = ts1 @ t # ts2"
  shows "\<exists>s'. run_task P FS processor True t (proc_state st) = Inr s' \<and>
    in_progress rep P FS everything (st\<lparr>submitted := ts1 @ ts2, proc_state := s'\<rparr>)"
proof -
  obtain A ds fs where st: "rep (proc_state st) A ds fs" "handles_ok P A st"
    "mset (map FoundDir ds @ map FoundFile fs) + open_found P FS A st = everything"
    using assms(2) unfolding in_progress_def by blast
  obtain e h d where t: "t = (e, h)" "A h = Some d" "path_name P d (p_filename P e)"
    using st(2) assms(3) by (cases t) (auto simp: handles_ok_def known_def)
  have ok: "handles_ok P A (st\<lparr>submitted := ts1 @ ts2, proc_state := s'\<rparr>)" for s'
    using st(2) assms(3) by (simp add: handles_ok_def)
  have found: "open_found P FS A st =
      open_found P FS A (st\<lparr>submitted := ts1 @ ts2, proc_state := s'\<rparr>) + mset (task_report P FS d e)" for s'
    using assms(3) t by (simp add: open_found_def from_task_def ac_simps)
  show ?thesis
  proof (cases "task_report P FS d e")
    case Nil
    then have "run_task P FS processor True t (proc_state st) = Inr (proc_state st)"
      using t by (auto simp: run_task_def task_report_def split: option.splits if_splits)
    moreover have "in_progress rep P FS everything (st\<lparr>submitted := ts1 @ ts2, proc_state := proc_state st\<rparr>)"
      unfolding in_progress_def using st(1,3) ok [of "proc_state st"] found [of "proc_state st"] Nil
      by (intro exI [of _ A] exI [of _ ds] exI [of _ fs]) simp
    ultimately show ?thesis by blast
  next
    case (Cons y ys)
    then obtain fi where fi: "fs_info FS e = Some fi" "fi_sum fi \<noteq> 0"
      "task_report P FS d e = [FoundFile (d @ [p_filename P e], fi)]"
      by (auto simp: task_report_def split: option.splits if_splits)
    have "0 \<le> fi_size fi" using assms(1) fi(1) by (auto simp: file_system_ok_def)
    from new_file [OF st(1) t(2,3) this] obtain s' where s': "sp_File processor (p_filename P e) h fi (proc_state st) = Inr s'"
      "rep s' A ds (fs @ [(d @ [p_filename P e], fi)])" by blast
    have "in_progress rep P FS everything (st\<lparr>submitted := ts1 @ ts2, proc_state := s'\<rparr>)"
      unfolding in_progress_def using s'(2) ok [of s'] st(3) found [of s'] fi(3)
      by (intro exI [of _ A] exI [of _ ds] exI [of _ "fs @ [(d @ [p_filename P e], fi)]"]) (simp add: ac_simps)
    with s'(1) fi t show ?thesis by (simp add: run_task_def)
  qed
qed

lemma step_progress:
  assumes "scan_step P FS processor st r" and "file_system_ok P FS" and "wf (below FS)" and "fs_late_lock FS"
    and "in_progress rep P FS everything st"
  shows "\<exists>st'. r = Inr st' \<and> in_progress rep P FS everything st'"
  using assms(1)
proof cases
  case (pop x rest)
  from pop_progress [OF assms(2,3,5) pop(2,3)] pop(1) show ?thesis by auto
next
  case (visit h it its)
  obtain A ds fs where st: "rep (proc_state st) A ds fs" "handles_ok P A st"
    "mset (map FoundDir ds @ map FoundFile fs) + open_found P FS A st = everything"
    using assms(5) unfolding in_progress_def by blast
  let ?st = "st\<lparr>current_dir := Some (h, its)\<rparr>"
  obtain d where d: "A h = Some d" "known P A it h"
    using st(2) visit(2) by (auto simp: handles_ok_def known_def)
  have "handles_ok P A (visit_entry FS h it ?st)"
    by (rule visit_entry_handles) (use st(2) visit(2) d(2) in \<open>auto simp: handles_ok_def\<close>)
  moreover have "open_found P FS A st = open_found P FS A ?st + mset (entry_found P FS (all_found P FS) d it)"
    using visit(2) d(1) by (simp add: open_found_def from_entries_def ac_simps)
  then have "open_found P FS A (visit_entry FS h it ?st) = open_found P FS A st"
    using visit_entry_found [where A = A and h = h and d = d, OF d(1)] by metis
  moreover have "proc_state (visit_entry FS h it ?st) = proc_state st"
    by (simp add: visit_entry_def Let_def split: option.split bool.split)
  ultimately have "in_progress rep P FS everything (visit_entry FS h it ?st)"
    unfolding in_progress_def using st by (intro exI [of _ A] exI [of _ ds] exI [of _ fs]) simp
  with visit(1) show ?thesis by blast
next
  case (leave h)
  from assms(5) leave(2) have "in_progress rep P FS everything (st\<lparr>current_dir := None\<rparr>)"
    by (auto simp: in_progress_def handles_ok_def open_found_def from_entries_def)
  with leave(1) show ?thesis by blast
next
  case (work ts1 t ts2)
  from work_progress [OF assms(2,5) work(2)] work(1) assms(4) show ?thesis by (auto simp: can_lock_def)
next
  case destroy
  from assms(5) have "in_progress rep P FS everything (st\<lparr>mutex_alive := False\<rparr>)"
    by (simp add: in_progress_def handles_ok_def open_found_def)
  with destroy(1) show ?thesis by blast
qed

lemma run_progress:
  assumes "scan_run P FS processor st r" and "file_system_ok P FS" and "wf (below FS)" and "fs_late_lock FS"
    and "in_progress rep P FS everything st"
  shows "\<exists>s A ds fs. r = Inr s \<and> rep s A ds fs \<and> mset (map FoundDir ds @ map FoundFile fs) = everything"
  using assms(1,5)
proof induction
  case (finished st)
  then show ?case
    by (auto simp: in_progress_def scan_done_def open_found_def)
next
  case (stepped st st' r)
  with step_progress [OF stepped(1) assms(2-4)] show ?case by blast
next
  case (failed st e)
  with step_progress [OF failed(1) assms(2-4)] show ?case by blast
qed

end

lemma idle_run:
  assumes "scan_run P FS processor st r" and "dirs_to_process st = []" and "current_dir st = None" and "submitted st = []"
  shows "r = Inr (proc_state st)"
  using assms by induction (auto elim: scan_step.cases)

text \<open>Unless the scan is finished, some thread can take a step.\<close>

lemma not_done_step: "\<not> scan_done st \<Longrightarrow> \<exists>r. scan_step P FS processor st r"
proof -
  assume nd: "\<not> scan_done st"
  show ?thesis
  proof (cases "current_dir st")
    case None
    show ?thesis
    proof (cases "dirs_to_process st")
      case Nil
      with nd None consider "mutex_alive st" | t ts where "submitted st = [] @ t # ts"
        by (cases "submitted st") (auto simp: scan_done_def)
      then show ?thesis using scan_step.destroy [OF None Nil] scan_step.work by cases blast+
    next
      case (Cons x rest)
      show ?thesis by (rule exI, rule scan_step.pop [OF None Cons])
    qed
  next
    case (Some c)
    obtain h es where c: "c = (h, es)" by (cases c)
    show ?thesis
    proof (cases es)
      case Nil
      show ?thesis by (rule exI, rule scan_step.leave) (use Some c Nil in simp)
    next
      case (Cons e es')
      show ?thesis by (rule exI, rule scan_step.visit) (use Some c Cons in simp)
    qed
  qed
qed

text \<open>The first step opens the root.\<close>

lemma first_step:
  assumes "scan_run P FS processor (scan_locals r s) out"
  defines "opened \<equiv> open_directory P FS processor (r, None) ((scan_locals r s)\<lparr>dirs_to_process := []\<rparr>)"
  shows "(\<exists>st. opened = Inr st \<and> scan_run P FS processor st out) \<or> (\<exists>e. opened = Inl e \<and> out = Inl e)"
proof -
  have first: "x = opened" if "scan_step P FS processor (scan_locals r s) x" for x
    using that by (cases rule: scan_step.cases) (auto simp: scan_locals_def opened_def)
  from assms(1) show ?thesis
  proof (cases rule: scan_run.cases)
    case finished
    then show ?thesis by (simp add: scan_done_def scan_locals_def)
  qed (use first in metis)+
qed

context scan_processor
begin

text \<open>Whatever the interleaving, a scan fails nowhere and finds exactly what the recursive walk finds.\<close>

lemma ScanDirectory_ok:
  assumes "start s" and "root_ok r" and "file_system_ok P FS" and "wf (below FS)" and "fs_late_lock FS" and "0 < n"
    and "out \<in> ScanDirectory P FS processor n r s"
  shows "(fs_list FS r = None \<and> out = Inr s) \<or>
    (\<exists>s' A ds fs. out = Inr s' \<and> rep s' A ds fs \<and>
      mset (map FoundDir ds @ map FoundFile fs) = mset (all_found P FS r []))"
proof -
  let ?st = "(scan_locals r s)\<lparr>dirs_to_process := []\<rparr>"
  let ?open = "open_directory P FS processor (r, None) ?st"
  have "scan_run P FS processor (scan_locals r s) out"
    using assms(6,7) by (simp add: ScanDirectory_def start_scan_cases)
  note rest = first_step [OF this]
  show ?thesis
  proof (cases "fs_list FS r")
    case None
    then have "?open = Inr ?st" by (simp add: open_directory_def)
    with rest have "scan_run P FS processor ?st out" by auto
    from idle_run [OF this] None show ?thesis by (simp add: scan_locals_def)
  next
    case (Some es)
    from new_root [OF assms(1,2)] obtain h s1 where h: "sp_RootDir processor r s = Inr (h, s1)"
      "rep s1 [h \<mapsto> []] [[]] []" by blast
    let ?st1 = "?st\<lparr>current_dir := Some (h, es), proc_state := s1\<rparr>"
    have opened: "?open = Inr ?st1" using Some h(1) by (simp add: open_directory_def scan_locals_def)
    have "known P [h \<mapsto> []] e h" if "e \<in> set es" for e
      using assms(3) Some that by (auto simp: known_def file_system_ok_def)
    then have hok: "handles_ok P [h \<mapsto> []] ?st1" by (simp add: handles_ok_def scan_locals_def)
    have "mset (map FoundDir [[]] @ map FoundFile []) + open_found P FS [h \<mapsto> []] ?st1 = mset (all_found P FS r [])"
      using Some by (simp add: open_found_def from_entries_def scan_locals_def all_found_rec [OF assms(4), of P r]
          mset_concat comp_def)
    with h(2) hok have "in_progress rep P FS (mset (all_found P FS r [])) ?st1"
      unfolding in_progress_def by (intro exI [of _ "[h \<mapsto> []]"] exI [of _ "[[]]"] exI [of _ "[]"]) simp
    moreover have "scan_run P FS processor ?st1 out" using rest opened by auto
    ultimately show ?thesis using run_progress assms(3-5) by blast
  qed
qed

end

text \<open>The files of such a result.\<close>

lemma found_files:
  assumes "wf (below FS)" and "mset (map FoundDir ds @ map FoundFile fs) = mset (all_found P FS r d)"
  shows "set fs = found_in P FS r d"
proof -
  have "x \<in> set fs \<longleftrightarrow> FoundFile x \<in> set (all_found P FS r d)" for x
    using mset_eq_setD [OF assms(2)] by auto
  then show ?thesis using all_found_files [OF assms(1), of P r d] by blast
qed

end
