(* ===== verification/Hash_Cache.thy ===== *)
theory Hash_Cache
  imports Scanner
begin

text \<open>
  The checksum cache (src/src/hash_cache.h, src/src/hash_cache.cpp): the cache by path that is
  valid while size and modification time stay the same, the cache by inode of one run, and the
  table in which the cache is kept between runs, and the exception for a failing system call
  (src/src/exceptions.h, src/src/exceptions.cpp). The operating system, SHA-1 and the rows of a
  database are parameters.
\<close>

section \<open>The operating system\<close>

type_synonym uuid = "int \<times> int"   \<comment> \<open>device and inode\<close>
type_synonym byte = "8 word"

record StatResult =
  st_id :: uuid
  st_size :: int
  st_mtime :: int

text \<open>\<open>os_fstat\<close> also tells whether the file is regular. \<open>os_read\<close> lists the results of the
  successive calls of \<open>read\<close> on a descriptor. A system call that fails sets \<open>errno\<close> to its left
  value; \<open>os_errno\<close> is what earlier calls left there. \<open>os_strerror\<close> is \<open>strerror_r\<close>; \<open>os_sha1\<close> is
  the first eight bytes of the digest as the machine reads them.\<close>

record os_api =
  os_open :: "string \<Rightarrow> int + int"
  os_fstat :: "int \<Rightarrow> int + StatResult \<times> bool"
  os_read :: "int \<Rightarrow> (int + byte list) list"
  os_errno :: int
  os_strerror :: "int \<Rightarrow> string"
  os_sha1 :: "byte list \<Rightarrow> Cksum"

definition FsException :: "os_api \<Rightarrow> int \<Rightarrow> string \<Rightarrow> fault" where
  "FsException os err operation =
     Exception (operation @ '': '' @ to_string_int err @ '' ('' @ os_strerror os err @ '')'')"

definition quoted :: "string \<Rightarrow> string" where
  "quoted path = [CHR 0x27] @ path @ [CHR 0x27]"

section \<open>\<open>InodeCache\<close>\<close>

type_synonym inode_cache = "uuid \<rightharpoonup> Cksum"

definition InodeCache_Get :: "uuid \<Rightarrow> inode_cache \<Rightarrow> bool \<times> Cksum" where
  "InodeCache_Get ino cache_map =
     (case cache_map ino of Some cksum \<Rightarrow> (True, cksum) | None \<Rightarrow> (False, 0))"

definition InodeCache_Update :: "uuid \<Rightarrow> Cksum \<Rightarrow> inode_cache \<Rightarrow> inode_cache" where
  "InodeCache_Update ino cksum cache_map =
     (if ino \<in> dom cache_map then cache_map else cache_map(ino \<mapsto> cksum))"

definition GetInodeInfo :: "os_api \<Rightarrow> int \<Rightarrow> string \<Rightarrow> StatResult res" where
  "GetInodeInfo os fd path_for_errors =
     (case os_fstat os fd of
        Inl err \<Rightarrow> Inl (FsException os err (''stat on '' @ quoted path_for_errors))
      | Inr (st, is_reg) \<Rightarrow>
          if \<not> is_reg then Inl (FsException os (os_errno os) (quoted path_for_errors @ '' is not a regular file''))
          else Inr st)"

section \<open>\<open>ComputeCksum\<close>\<close>

text \<open>The reading loop: the bytes given to SHA-1 and the number of bytes read.\<close>

fun read_loop ::
  "os_api \<Rightarrow> string \<Rightarrow> (int + byte list) list \<Rightarrow> byte list \<Rightarrow> nat \<Rightarrow> (byte list \<times> nat) res" where
  "read_loop os path_for_errors [] sha size' = Inl OutOfFuel"
| "read_loop os path_for_errors (Inl err # rs) sha size' =
     Inl (FsException os err (''read '' @ quoted path_for_errors))"
| "read_loop os path_for_errors (Inr buf # rs) sha size' =
     (if length buf = 0 then Inr (sha, size')
      else read_loop os path_for_errors rs (sha @ buf) (size' + length buf))"

definition ComputeCksum ::
  "os_api \<Rightarrow> int \<Rightarrow> uuid \<Rightarrow> string \<Rightarrow> inode_cache \<Rightarrow> (Cksum \<times> inode_cache) res" where
  "ComputeCksum os fd uuid path_for_errors ino_cache =
     (let cached = InodeCache_Get uuid ino_cache in
      if fst cached then Inr (snd cached, ino_cache)
      else rbind (read_loop os path_for_errors (os_read os fd) [] 0) (\<lambda>(sha, size').
        if size' \<noteq> 0 then Inr (os_sha1 os sha, InodeCache_Update uuid (os_sha1 os sha) ino_cache)
        else Inr (0, InodeCache_Update uuid 0 ino_cache)))"

section \<open>\<open>HashCache\<close>\<close>

record HashCache =
  hc_cache :: "string \<rightharpoonup> FileInfo"
  hc_ino_cache :: inode_cache

text \<open>\<open>operator()\<close>.\<close>

definition HashCache_get ::
  "'p path_api \<Rightarrow> os_api \<Rightarrow> 'p \<Rightarrow> HashCache \<Rightarrow> (FileInfo \<times> HashCache) res" where
  "HashCache_get P os p hc =
     (let native = p_native P p in
      case os_open os native of
        Inl err \<Rightarrow> Inl (FsException os err (''open '' @ quoted native))
      | Inr fd \<Rightarrow>
          rbind (GetInodeInfo os fd native) (\<lambda>stat_res.
            let compute = rbind (ComputeCksum os fd (st_id stat_res) native (hc_ino_cache hc)) (\<lambda>(cksum, ino).
                let r = \<lparr>fi_size = st_size stat_res, fi_mtime = st_mtime stat_res, fi_sum = cksum\<rparr>
                in Inr (r, hc\<lparr>hc_cache := (hc_cache hc)(native \<mapsto> r), hc_ino_cache := ino\<rparr>))
            in case hc_cache hc native of
                 Some cached \<Rightarrow>
                   if fi_size cached = st_size stat_res \<and> fi_mtime cached = st_mtime stat_res
                   then Inr (cached, hc) else compute
               | None \<Rightarrow> compute))"

section \<open>The table between two runs\<close>

text \<open>A row of the table FileList: the path, the checksum, the size and the modification time. SQLite
  keeps signed 64-bit integers, so the unsigned checksum is converted when it is bound and
  converted back when it is read.\<close>

type_synonym db_row = "string \<times> int \<times> int \<times> int"

definition store_row :: "string \<times> FileInfo \<Rightarrow> db_row" where
  "store_row e = (fst e, sint (fi_sum (snd e)), fi_size (snd e), fi_mtime (snd e))"

definition read_row :: "db_row \<Rightarrow> string \<times> FileInfo" where
  "read_row r = (case r of (path, cksum, size', mtime) \<Rightarrow>
     (path, \<lparr>fi_size = size', fi_mtime = mtime, fi_sum = word_of_int cksum\<rparr>))"

text \<open>\<open>StoreCksums\<close> writes the entries in iteration order into an empty table.\<close>

definition StoreCksums :: "(string \<times> FileInfo) list \<Rightarrow> db_row list" where
  "StoreCksums cache = map store_row cache"

text \<open>\<open>ReadCacheFromDb\<close>; the first argument gives the rows of a database, or the exception. The
  map is the list of its entries, in the order of insertion; \<open>insert\<close> keeps an existing entry.\<close>

definition insert_entry :: "string \<times> FileInfo \<Rightarrow> (string \<times> FileInfo) list \<Rightarrow> (string \<times> FileInfo) list" where
  "insert_entry e cache = (if fst e \<in> fst ` set cache then cache else cache @ [e])"

definition ReadCacheFromDb :: "(string \<Rightarrow> db_row list res) \<Rightarrow> string \<Rightarrow> (string \<times> FileInfo) list res" where
  "ReadCacheFromDb db_rows path =
     rbind (db_rows path) (\<lambda>rows. Inr (fold (\<lambda>r. insert_entry (read_row r)) rows []))"

text \<open>The constructor.\<close>

definition new_HashCache :: "(string \<Rightarrow> db_row list res) \<Rightarrow> string \<Rightarrow> HashCache res" where
  "new_HashCache db_rows read_cache_from =
     (if read_cache_from \<noteq> []
      then rbind (ReadCacheFromDb db_rows read_cache_from)
        (\<lambda>cache. Inr \<lparr>hc_cache = map_of cache, hc_ino_cache = Map.empty\<rparr>)
      else Inr \<lparr>hc_cache = Map.empty, hc_ino_cache = Map.empty\<rparr>)"

section \<open>The round trip of the table\<close>

lemma read_store_row [simp]: "read_row (store_row e) = e"
  by (cases e; cases "snd e") (simp add: read_row_def store_row_def)

text \<open>The checksum in the table is an integer SQLite can hold.\<close>

lemma stored_cksum_range: "fst (snd (store_row e)) \<in> {- (2 ^ 63) ..< 2 ^ 63}"
  using sint_range_size [of "fi_sum (snd e)"] by (simp add: store_row_def word_size)

lemma insert_entries_distinct:
  "distinct (map fst acc @ map fst es) \<Longrightarrow> fold insert_entry es acc = acc @ es"
proof (induction es arbitrary: acc)
  case (Cons e es)
  then have "insert_entry e acc = acc @ [e]" by (simp add: insert_entry_def)
  with Cons show ?case by simp
qed simp

lemma ReadCacheFromDb_StoreCksums:
  assumes "distinct (map fst cache)" and "db_rows path = Inr (StoreCksums cache)"
  shows "ReadCacheFromDb db_rows path = Inr cache"
proof -
  have "fold (\<lambda>r. insert_entry (read_row r)) (StoreCksums cache) [] = fold insert_entry cache []"
    by (simp add: StoreCksums_def fold_map comp_def)
  then show ?thesis
    using assms insert_entries_distinct [of "[]" cache] by (simp add: ReadCacheFromDb_def)
qed

section \<open>The cache is transparent\<close>

text \<open>What the code relies on: the descriptors of one inode show one content.\<close>

definition os_ok :: "os_api \<Rightarrow> bool" where
  "os_ok os \<longleftrightarrow>
     (\<forall>fd fd' st st' b b'. os_fstat os fd = Inr (st, b) \<longrightarrow> os_fstat os fd' = Inr (st', b') \<longrightarrow>
        st_id st = st_id st' \<longrightarrow> os_read os fd = os_read os fd')"

text \<open>The checksum without any cache.\<close>

definition plain_cksum :: "os_api \<Rightarrow> int \<Rightarrow> string \<Rightarrow> Cksum res" where
  "plain_cksum os fd path =
     rbind (read_loop os path (os_read os fd) [] 0)
       (\<lambda>(bytes, n). Inr (if n \<noteq> 0 then os_sha1 os bytes else 0))"

definition plain_info :: "'p path_api \<Rightarrow> os_api \<Rightarrow> 'p \<Rightarrow> FileInfo res" where
  "plain_info P os p =
     (case os_open os (p_native P p) of
        Inl err \<Rightarrow> Inl (FsException os err (''open '' @ quoted (p_native P p)))
      | Inr fd \<Rightarrow>
          rbind (GetInodeInfo os fd (p_native P p)) (\<lambda>st.
          rbind (plain_cksum os fd (p_native P p)) (\<lambda>c.
            Inr \<lparr>fi_size = st_size st, fi_mtime = st_mtime st, fi_sum = c\<rparr>)))"

text \<open>The entries that the code would use are right.\<close>

definition ino_cache_ok :: "os_api \<Rightarrow> inode_cache \<Rightarrow> bool" where
  "ino_cache_ok os ino \<longleftrightarrow>
     (\<forall>fd st b c path. os_fstat os fd = Inr (st, b) \<longrightarrow> ino (st_id st) = Some c \<longrightarrow>
        plain_cksum os fd path = Inr c)"

definition path_cache_ok :: "os_api \<Rightarrow> (string \<rightharpoonup> FileInfo) \<Rightarrow> bool" where
  "path_cache_ok os cache \<longleftrightarrow>
     (\<forall>path fi fd st. cache path = Some fi \<longrightarrow> os_open os path = Inr fd \<longrightarrow>
        os_fstat os fd = Inr (st, True) \<longrightarrow> fi_size fi = st_size st \<longrightarrow> fi_mtime fi = st_mtime st \<longrightarrow>
        plain_cksum os fd path = Inr (fi_sum fi))"

definition cache_ok :: "os_api \<Rightarrow> HashCache \<Rightarrow> bool" where
  "cache_ok os hc \<longleftrightarrow> ino_cache_ok os (hc_ino_cache hc) \<and> path_cache_ok os (hc_cache hc)"

lemma read_loop_path:
  "read_loop os path rs bytes n = Inr x \<Longrightarrow> read_loop os path' rs bytes n = Inr x"
proof (induction os path rs bytes n rule: read_loop.induct)
  case (3 os path buf rs bytes n)
  then show ?case by (auto split: if_splits)
qed simp_all

lemma plain_cksum_path: "plain_cksum os fd path = Inr c \<Longrightarrow> plain_cksum os fd path' = Inr c"
proof -
  assume "plain_cksum os fd path = Inr c"
  then obtain x where x: "read_loop os path (os_read os fd) [] 0 = Inr x"
    "Inr (if snd x \<noteq> 0 then os_sha1 os (fst x) else 0) = (Inr c :: Cksum res)"
    by (auto simp: plain_cksum_def res_simps)
  from read_loop_path [OF x(1), of path'] x(2) show ?thesis
    by (simp add: plain_cksum_def case_prod_unfold)
qed

text \<open>Storing a right checksum keeps the caches right.\<close>

lemma InodeCache_Update_ok:
  assumes "os_ok os" and "ino_cache_ok os ino" and "os_fstat os fd = Inr (st, b)"
    and c: "plain_cksum os fd path = Inr c"
  shows "ino_cache_ok os (InodeCache_Update (st_id st) c ino)"
  unfolding ino_cache_ok_def
proof (intro allI impI)
  fix fd' st' b c' path'
  assume f: "os_fstat os fd' = Inr (st', b)" "InodeCache_Update (st_id st) c ino (st_id st') = Some c'"
  show "plain_cksum os fd' path' = Inr c'"
  proof (cases "st_id st' = st_id st \<and> ino (st_id st) = None")
    case True
    then have "c' = c" using f(2) by (simp add: InodeCache_Update_def domIff)
    moreover have "os_read os fd' = os_read os fd"
      using assms(1,3) f(1) True unfolding os_ok_def by blast
    then have "plain_cksum os fd' path' = plain_cksum os fd path'" by (simp add: plain_cksum_def)
    ultimately show ?thesis using plain_cksum_path [OF c] by simp
  next
    case False
    then have "ino (st_id st') = Some c'"
      using f(2) by (auto simp: InodeCache_Update_def domIff split: if_splits)
    with assms(2) f(1) show ?thesis unfolding ino_cache_ok_def by blast
  qed
qed

lemma path_cache_update_ok:
  assumes "path_cache_ok os cache" and "os_open os path = Inr fd" and "plain_cksum os fd path = Inr (fi_sum fi)"
  shows "path_cache_ok os (cache(path \<mapsto> fi))"
  using assms unfolding path_cache_ok_def by auto

lemma ComputeCksum_ok:
  assumes "os_ok os" and "ino_cache_ok os ino" and "os_fstat os fd = Inr (st, True)"
  shows "case plain_cksum os fd path of
      Inl e \<Rightarrow> ComputeCksum os fd (st_id st) path ino = Inl e
    | Inr c \<Rightarrow> \<exists>ino'. ComputeCksum os fd (st_id st) path ino = Inr (c, ino') \<and> ino_cache_ok os ino'"
proof (cases "ino (st_id st)")
  case (Some c)
  then have "plain_cksum os fd path = Inr c" using assms(2,3) by (auto simp: ino_cache_ok_def)
  with Some assms(2) show ?thesis by (simp add: ComputeCksum_def InodeCache_Get_def)
next
  case None
  note upd = InodeCache_Update_ok [OF assms]
  show ?thesis
  proof (cases "read_loop os path (os_read os fd) [] 0")
    case (Inr x)
    obtain bytes n where x: "x = (bytes, n)" by (cases x)
    have "plain_cksum os fd path = Inr (if n \<noteq> 0 then os_sha1 os bytes else 0)"
      by (simp add: plain_cksum_def Inr x)
    with upd [OF this] None Inr x show ?thesis
      by (cases "n = 0") (simp_all add: ComputeCksum_def InodeCache_Get_def)
  qed (use None in \<open>simp add: ComputeCksum_def InodeCache_Get_def plain_cksum_def\<close>)
qed

lemma HashCache_get_ok:
  assumes "os_ok os" and "cache_ok os hc"
  shows "case plain_info P os p of
      Inl e \<Rightarrow> HashCache_get P os p hc = Inl e
    | Inr fi \<Rightarrow> \<exists>hc'. HashCache_get P os p hc = Inr (fi, hc') \<and> cache_ok os hc'"
proof (cases "os_open os (p_native P p)")
  case (Inl err)
  then show ?thesis by (simp add: plain_info_def HashCache_get_def)
next
  case fd: (Inr fd)
  let ?path = "p_native P p"
  show ?thesis
  proof (cases "GetInodeInfo os fd ?path")
    case (Inl e)
    with fd show ?thesis by (simp add: plain_info_def HashCache_get_def Let_def)
  next
    case (Inr st)
    then have st: "os_fstat os fd = Inr (st, True)"
      by (auto simp: GetInodeInfo_def split: sum.splits if_splits)
    note ino = assms(2) [unfolded cache_ok_def, THEN conjunct1] and path = assms(2) [unfolded cache_ok_def, THEN conjunct2]
    show ?thesis
    proof (cases "\<exists>fi. hc_cache hc ?path = Some fi \<and> fi_size fi = st_size st \<and> fi_mtime fi = st_mtime st")
      case True
      then obtain fi where fi: "hc_cache hc ?path = Some fi" "fi_size fi = st_size st" "fi_mtime fi = st_mtime st"
        by blast
      have "plain_cksum os fd ?path = Inr (fi_sum fi)"
        using path fi fd st unfolding path_cache_ok_def by blast
      with fi fd Inr assms(2) show ?thesis by (simp add: plain_info_def HashCache_get_def Let_def)
    next
      case False
      have get: "HashCache_get P os p hc = rbind (ComputeCksum os fd (st_id st) ?path (hc_ino_cache hc)) (\<lambda>(c, ino).
          let r = \<lparr>fi_size = st_size st, fi_mtime = st_mtime st, fi_sum = c\<rparr>
          in Inr (r, hc\<lparr>hc_cache := (hc_cache hc)(?path \<mapsto> r), hc_ino_cache := ino\<rparr>))"
        using fd Inr False by (auto simp: HashCache_get_def Let_def split: option.split)
      have info: "plain_info P os p = rbind (plain_cksum os fd ?path)
          (\<lambda>c. Inr \<lparr>fi_size = st_size st, fi_mtime = st_mtime st, fi_sum = c\<rparr>)"
        using fd Inr by (simp add: plain_info_def)
      note cc = ComputeCksum_ok [OF assms(1) ino st, of ?path]
      show ?thesis
      proof (cases "plain_cksum os fd ?path")
        case (Inl e)
        with cc show ?thesis unfolding get info by simp
      next
        case c: (Inr c)
        with cc obtain ino' where ino': "ComputeCksum os fd (st_id st) ?path (hc_ino_cache hc) = Inr (c, ino')"
          "ino_cache_ok os ino'" by auto
        let ?r = "\<lparr>fi_size = st_size st, fi_mtime = st_mtime st, fi_sum = c\<rparr>"
        have "path_cache_ok os ((hc_cache hc)(?path \<mapsto> ?r))"
          by (rule path_cache_update_ok [OF path fd]) (simp add: c)
        with ino' c show ?thesis unfolding get info by (simp add: cache_ok_def Let_def)
      qed
    qed
  qed
qed

end
