(* ===== verification/Compare_Directories.thy ===== *)
theory Compare_Directories
  imports Dir_Compare Directory_Scan Hash_Cache
begin

text \<open>
  The scans of \<open>DirCompare\<close> and \<open>WarmupCache\<close> (src/src/dir_compare.cpp): the processor that fills
  the table of paths and checksums, the scan of a directory or a database into such a table, and
  the comparison of two of them. A directory scan has several possible outcomes, so the results
  are sets; the two filler threads work on separate tables.
\<close>

section \<open>\<open>PathHashesFiller\<close>\<close>

definition PathHashesFiller ::
  "'p path_api \<Rightarrow> 'c path_hashes_api \<Rightarrow> ('p, 'p, 'c) ScanProcessor" where
  "PathHashesFiller P MI =
     \<lparr>sp_File = \<lambda>path parent f_info hashes.
        let relative = p_append P parent (p_filename P path)
        in Inr (mi_insert MI \<lparr>ph_path = p_native P relative, ph_hash = fi_sum f_info\<rparr> hashes),
      sp_RootDir = \<lambda>path hashes. Inr (p_of P [], hashes),
      sp_Dir = \<lambda>path parent hashes. Inr (p_append P parent (p_filename P path), hashes)\<rparr>"

section \<open>Scanning into a table\<close>

text \<open>What a scan reads: databases and the file system.\<close>

record 'p world =
  w_paths :: "'p path_api"
  w_conf :: GlobalConfig
  w_db_rows :: "string \<Rightarrow> db_row list res"
  w_map_order :: "(string \<times> FileInfo) list \<Rightarrow> (string \<times> FileInfo) list"
     \<comment> \<open>the iteration order of an \<open>unordered_map\<close>\<close>
  w_files :: "'p file_system"

text \<open>\<open>ScanDb\<close> of a database path: read, then scan in the iteration order of the map.\<close>

definition scan_db_file ::
  "'p world \<Rightarrow> ('p, 'h, 's) ScanProcessor \<Rightarrow> 's \<Rightarrow> string \<Rightarrow> 's res" where
  "scan_db_file W processor s db_path =
     rbind (ReadCacheFromDb (w_db_rows W) (p_native (w_paths W) (p_of (w_paths W) db_path)))
       (\<lambda>db. ScanDb (w_paths W) processor (w_map_order W db) s)"

definition scan_path ::
  "'p world \<Rightarrow> ('p, 'h, 's) ScanProcessor \<Rightarrow> 's \<Rightarrow> string \<Rightarrow> 's res set" where
  "scan_path W processor s path =
     ScanDirectoryOrDb (w_conf W) (\<lambda>db_path. {scan_db_file W processor s db_path})
       (\<lambda>dir. ScanDirectory (w_paths W) (w_files W) processor (conf_concurrency (w_conf W))
         (p_of (w_paths W) dir) s) path"

definition FillPathHashes :: "'p world \<Rightarrow> 'c path_hashes_api \<Rightarrow> string \<Rightarrow> 'c res set" where
  "FillPathHashes W MI start_dir =
     scan_path W (PathHashesFiller (w_paths W) MI) (mi_empty MI) start_dir"

definition WarmupCache :: "'p world \<Rightarrow> 'c path_hashes_api \<Rightarrow> string \<Rightarrow> unit res set" where
  "WarmupCache W MI path = (\<lambda>r. rbind r (\<lambda>_. Inr ())) ` FillPathHashes W MI path"

definition DirCompare ::
  "'p world \<Rightarrow> 'c path_hashes_api \<Rightarrow> 's CompareOutputStream \<Rightarrow> string \<Rightarrow> string \<Rightarrow> 's \<Rightarrow> 's res set" where
  "DirCompare W MI stream dir1 dir2 st =
     {rbind hashes1 (\<lambda>h1. rbind hashes2 (\<lambda>h2. compare_hashes MI (w_conf W) stream h1 h2 st)) |
        hashes1 hashes2. hashes1 \<in> FillPathHashes W MI dir1 \<and> hashes2 \<in> FillPathHashes W MI dir2}"

section \<open>The filler keeps the contract of a processor\<close>

definition relative_path :: "'p path_api \<Rightarrow> 'p list \<Rightarrow> 'p" where
  "relative_path P d = fold (\<lambda>e q. p_append P q e) d (p_of P [])"

lemma relative_path_simps [simp]:
  "relative_path P [] = p_of P []"
  "relative_path P (d @ [e]) = p_append P (relative_path P d) e"
  by (simp_all add: relative_path_def)

text \<open>The table that a list of files gives; the first of two files with the same name wins.\<close>

definition table_content :: "'p path_api \<Rightarrow> ('p list \<times> FileInfo) list \<Rightarrow> string \<rightharpoonup> Cksum" where
  "table_content P fs = map_of (map (\<lambda>f. (p_native P (relative_path P (fst f)), fi_sum (snd f))) fs)"

lemma table_content_snoc:
  "table_content P (fs @ [(d, fi)]) =
     (if p_native P (relative_path P d) \<in> dom (table_content P fs) then table_content P fs
      else (table_content P fs)(p_native P (relative_path P d) \<mapsto> fi_sum fi))"
  by (auto simp: table_content_def map_add_def fun_eq_iff dom_def split: option.split)

definition filler_rep ::
  "'p path_api \<Rightarrow> 'c path_hashes_api \<Rightarrow> ('c \<Rightarrow> bool) \<Rightarrow> 'c \<Rightarrow> ('p \<rightharpoonup> 'p list) \<Rightarrow> ('p list \<times> FileInfo) list \<Rightarrow> bool" where
  "filler_rep P MI invar c A fs \<longleftrightarrow>
     invar c \<and> (\<forall>h d. A h = Some d \<longrightarrow> h = relative_path P d \<and> p_elems P h = d) \<and>
     content MI c = table_content P fs"

text \<open>Where paths and tables keep their laws, the filler is a processor.\<close>

locale path_table = path_laws P + path_hashes MI invar
  for P :: "'p path_api" and MI :: "'c path_hashes_api" and invar

sublocale path_table \<subseteq> filler: scan_processor P "PathHashesFiller P MI" "\<lambda>c. c = mi_empty MI"
    "\<lambda>_. True" "\<lambda>c A ds fs. filler_rep P MI invar c A fs"
proof unfold_locales
  fix s A fs h d p fi
  show "\<exists>h s'. sp_RootDir (PathHashesFiller P MI) p s = Inr (h, s') \<and> filler_rep P MI invar s' [h \<mapsto> []] []"
    if "s = mi_empty MI"
    using that invar_empty content_empty default_elems
    by (simp add: PathHashesFiller_def filler_rep_def table_content_def)
  show "\<exists>h' s'. sp_Dir (PathHashesFiller P MI) p h s = Inr (h', s') \<and>
      filler_rep P MI invar s' (A(h' \<mapsto> d @ [p])) fs \<and> A h' \<in> {None, Some (d @ [p])}"
    if "filler_rep P MI invar s A fs" "A h = Some d" "path_name P d p"
  proof -
    have h: "h = relative_path P d" "p_elems P h = d" using that(1,2) by (simp_all add: filler_rep_def)
    note nm = path_nameD [OF that(3)]
    let ?h = "p_append P h p"
    have e: "p_elems P ?h = d @ [p]" by (rule nm(4) [OF h(2)])
    have "A ?h \<in> {None, Some (d @ [p])}"
      using that(1) e by (cases "A ?h") (auto simp: filler_rep_def)
    moreover have "filler_rep P MI invar s (A(?h \<mapsto> d @ [p])) fs"
      using that(1) e h(1) by (auto simp: filler_rep_def)
    ultimately show ?thesis using nm(3) by (simp add: PathHashesFiller_def)
  qed
  show "\<exists>s'. sp_File (PathHashesFiller P MI) p h fi s = Inr s' \<and>
      filler_rep P MI invar s' A (fs @ [(d @ [p], fi)])"
    if "filler_rep P MI invar s A fs" "A h = Some d" "path_name P d p"
  proof -
    have h: "h = relative_path P d" using that(1,2) by (simp add: filler_rep_def)
    note nm = path_nameD [OF that(3)]
    have "invar s" "content MI s = table_content P fs" using that(1) by (simp_all add: filler_rep_def)
    then have "content MI (mi_insert MI \<lparr>ph_path = p_native P (p_append P h p), ph_hash = fi_sum fi\<rparr> s) =
        table_content P (fs @ [(d @ [p], fi)])"
      by (simp add: content_insert table_content_snoc h)
    then show ?thesis
      using that(1) nm(3) invar_insert by (simp add: PathHashesFiller_def filler_rep_def Let_def)
  qed
qed

interpretation list_path_table: path_table list_paths list_table sorted_table
  by unfold_locales

section \<open>What the tables hold\<close>

definition file_name :: "'p path_api \<Rightarrow> 'p list \<times> FileInfo \<Rightarrow> string" where
  "file_name P f = p_native P (relative_path P (fst f))"

text \<open>Files with the same name have the same checksum.\<close>

definition unambiguous :: "'p path_api \<Rightarrow> ('p list \<times> FileInfo) set \<Rightarrow> bool" where
  "unambiguous P fs \<longleftrightarrow>
     (\<forall>f \<in> fs. \<forall>g \<in> fs. file_name P f = file_name P g \<longrightarrow> fi_sum (snd f) = fi_sum (snd g))"

text \<open>The table holds the given files and nothing else.\<close>

definition holds_files :: "'p path_api \<Rightarrow> (string \<rightharpoonup> Cksum) \<Rightarrow> ('p list \<times> FileInfo) set \<Rightarrow> bool" where
  "holds_files P m fs \<longleftrightarrow>
     (\<forall>p c. m p = Some c \<longleftrightarrow> (\<exists>f \<in> fs. file_name P f = p \<and> fi_sum (snd f) = c))"

lemma table_content_holds:
  assumes "unambiguous P (set fs)"
  shows "holds_files P (table_content P fs) (set fs)"
  unfolding holds_files_def
proof (intro allI iffI)
  let ?m = "map (\<lambda>f. (file_name P f, fi_sum (snd f))) fs"
  have m: "table_content P fs = map_of ?m" by (simp add: table_content_def file_name_def)
  fix p c
  show "\<exists>f \<in> set fs. file_name P f = p \<and> fi_sum (snd f) = c" if "table_content P fs p = Some c"
    using map_of_SomeD [of ?m p c] that unfolding m by auto
  show "table_content P fs p = Some c" if ex: "\<exists>f \<in> set fs. file_name P f = p \<and> fi_sum (snd f) = c"
  proof -
    obtain f where f: "f \<in> set fs" "file_name P f = p" "fi_sum (snd f) = c" using ex by blast
    then have "p \<in> fst ` set ?m" by (auto simp: image_iff)
    then obtain c' where c': "map_of ?m p = Some c'"
      by (cases "map_of ?m p") (auto simp: map_of_eq_None_iff)
    from map_of_SomeD [OF this] obtain g where "g \<in> set fs" "file_name P g = p" "fi_sum (snd g) = c'"
      by auto
    with f assms have "c' = c" unfolding unambiguous_def by blast
    with c' show ?thesis unfolding m by simp
  qed
qed

lemma holds_files_empty: "holds_files P Map.empty {}"
  by (simp add: holds_files_def)

definition has_db_prefix :: "'p world \<Rightarrow> string \<Rightarrow> bool" where
  "has_db_prefix W path \<longleftrightarrow> \<not> conf_ignore_db_prefix (w_conf W) \<and> take 3 path = ''db:''"

lemma scan_path_cases:
  "scan_path W processor s path =
     (if has_db_prefix W path then {scan_db_file W processor s (drop 3 path)}
      else ScanDirectory (w_paths W) (w_files W) processor (conf_concurrency (w_conf W)) (p_of (w_paths W) path) s)"
  by (simp add: scan_path_def ScanDirectoryOrDb_def has_db_prefix_def)

text \<open>What a scan of a directory needs: no directory below itself, at least one thread, and a mutex
  that can be locked late.\<close>

definition scannable :: "'p world \<Rightarrow> bool" where
  "scannable W \<longleftrightarrow> file_system_ok (w_paths W) (w_files W) \<and> wf (below (w_files W)) \<and>
     fs_late_lock (w_files W) \<and> 0 < conf_concurrency (w_conf W)"

context path_table
begin

lemma FillPathHashes_directory:
  assumes "w_paths W = P" and "scannable W" and "\<not> has_db_prefix W dir"
    and "unambiguous P (found_in P (w_files W) (p_of P dir) [])"
    and "out \<in> FillPathHashes W MI dir"
  shows "\<exists>c. out = Inr c \<and> invar c \<and>
    holds_files P (content MI c) (found_in P (w_files W) (p_of P dir) [])"
proof -
  let ?X = "found_in P (w_files W) (p_of P dir) []"
  have "out \<in> ScanDirectory P (w_files W) (PathHashesFiller P MI) (conf_concurrency (w_conf W)) (p_of P dir) (mi_empty MI)"
    using assms(1,3,5) by (simp add: FillPathHashes_def scan_path_cases)
  from filler.ScanDirectory_ok [OF refl TrueI _ _ _ _ this] assms(1,2)
  have "(fs_list (w_files W) (p_of P dir) = None \<and> out = Inr (mi_empty MI)) \<or>
    (\<exists>c A ds fs. out = Inr c \<and> filler_rep P MI invar c A fs \<and>
      mset (map FoundDir ds @ map FoundFile fs) = mset (all_found P (w_files W) (p_of P dir) []))"
    by (auto simp: scannable_def)
  then show ?thesis
  proof (elim disjE exE conjE)
    assume "fs_list (w_files W) (p_of P dir) = None" and out: "out = Inr (mi_empty MI)"
    then have "?X = {}" by (simp add: found_in_rec)
    then show ?thesis using out invar_empty content_empty holds_files_empty by simp
  next
    fix c A ds fs assume c: "out = Inr c" "filler_rep P MI invar c A fs"
      "mset (map FoundDir ds @ map FoundFile fs) = mset (all_found P (w_files W) (p_of P dir) [])"
    from assms(2) found_files [OF _ c(3)] have "set fs = ?X" by (simp add: scannable_def)
    then have "holds_files P (table_content P fs) ?X"
      using table_content_holds [of P fs] assms(4) by simp
    with c show ?thesis by (simp add: filler_rep_def)
  qed
qed

lemma FillPathHashes_returns:
  assumes "w_paths W = P" and "scannable W" and "\<not> has_db_prefix W dir"
    and "out \<in> FillPathHashes W MI dir"
  shows "\<exists>c. out = Inr c"
proof -
  have "out \<in> ScanDirectory P (w_files W) (PathHashesFiller P MI) (conf_concurrency (w_conf W)) (p_of P dir) (mi_empty MI)"
    using assms(1,3,4) by (simp add: FillPathHashes_def scan_path_cases)
  from filler.ScanDirectory_ok [OF refl TrueI _ _ _ _ this] assms(1,2) show ?thesis by (auto simp: scannable_def)
qed

lemma FillPathHashes_db:
  assumes "w_paths W = P" and "has_db_prefix W path"
    and "ReadCacheFromDb (w_db_rows W) (p_native P (p_of P (drop 3 path))) = Inr db"
    and "w_map_order W db = entries" and "\<forall>e \<in> set entries. entry_ok P e"
    and "unambiguous P (relative_entry P (db_prefix P entries) ` set entries)"
  shows "\<exists>c. FillPathHashes W MI path = {Inr c} \<and> invar c \<and>
    holds_files P (content MI c) (relative_entry P (db_prefix P entries) ` set entries)"
proof -
  let ?f = "relative_entry P (db_prefix P entries)"
  have run: "FillPathHashes W MI path = {ScanDb P (PathHashesFiller P MI) entries (mi_empty MI)}"
    using assms(1-4) by (simp add: FillPathHashes_def scan_path_cases scan_db_file_def)
  show ?thesis
  proof (cases "entries = []")
    case True
    then show ?thesis
      using run invar_empty content_empty holds_files_empty by (simp add: ScanDb_def)
  next
    case False
    from filler.ScanDb_ok [OF _ False assms(5)] obtain c A where
      c: "ScanDb P (PathHashesFiller P MI) entries (mi_empty MI) = Inr c"
      "filler_rep P MI invar c A (map ?f entries)" by auto
    have "holds_files P (table_content P (map ?f entries)) (set (map ?f entries))"
      by (rule table_content_holds) (use assms(6) in simp)
    with c run show ?thesis by (simp add: filler_rep_def)
  qed
qed

end

end
