(* ===== verification/Doubles.thy ===== *)
theory Doubles
  imports Complex_Main Dupa_Prelude "HOL-Library.Log_Nat"
begin

text \<open>
  The C++ type \<open>double\<close>: IEEE-754 binary64 arithmetic, rounding to nearest, ties to even. A
  double is a rational number; every operation is the exact one followed by \<open>dbl\<close>, the rounding
  to 53 significant bits. The exponent range is unbounded here: the program computes with weights
  (counts and sums of file sizes) and fractions of them only, which neither overflow nor become
  subnormal. The locale \<open>rounding\<close> states what the rest of the development uses of the rounding.
\<close>

section \<open>Rounding to an integer\<close>

definition rne :: "rat \<Rightarrow> int" where
  "rne y = (let f = \<lfloor>y\<rfloor>; d = y - of_int f in
     if d < 1 / 2 \<or> d = 1 / 2 \<and> even f then f else f + 1)"

lemma rne_of_int [simp]: "rne (of_int n) = n"
  by (simp add: rne_def)

lemma rne_bounds: "\<lfloor>y\<rfloor> \<le> rne y" "rne y \<le> \<lfloor>y\<rfloor> + 1"
  by (auto simp: rne_def Let_def)

lemma rne_mono: assumes "x \<le> y" shows "rne x \<le> rne y"
proof (cases "\<lfloor>x\<rfloor> = \<lfloor>y\<rfloor>")
  case True
  with assms show ?thesis by (auto simp: rne_def Let_def)
next
  case False
  with assms have "\<lfloor>x\<rfloor> + 1 \<le> \<lfloor>y\<rfloor>" using floor_mono [of x y] by linarith
  then show ?thesis using rne_bounds [of x] rne_bounds [of y] by linarith
qed

lemma rne_ge: "of_int n \<le> y \<Longrightarrow> n \<le> rne y"
  using rne_mono [of "of_int n" y] by simp

lemma rne_le: "y \<le> of_int n \<Longrightarrow> rne y \<le> n"
  using rne_mono [of y "of_int n"] by simp

section \<open>The exponent\<close>

definition exp2 :: "rat \<Rightarrow> int" where
  "exp2 x = (let (p, q) = quotient_of x; k = bitlen p - bitlen q
     in if 2 powi k \<le> x then k else k - 1)"

lemma powi_2_mono: "j \<le> k \<Longrightarrow> (2 :: rat) powi j \<le> 2 powi k"
  by (rule power_int_increasing) auto

lemma powi_2_less: "(2 :: rat) powi j < 2 powi k \<longleftrightarrow> j < k"
  using power_int_strict_increasing [of j k "2::rat"] powi_2_mono [of k j] by fastforce

lemma exp2_bounds:
  assumes "0 < x"
  shows "2 powi exp2 x \<le> x" and "x < 2 powi (exp2 x + 1)"
proof -
  obtain p q where pq: "quotient_of x = (p, q)" by (cases "quotient_of x")
  then have x: "x = of_int p / of_int q" and q: "0 < q"
    by (simp_all add: quotient_of_div quotient_of_denom_pos)
  with assms have p: "0 < p" by (simp add: zero_less_divide_iff)
  have bound: "2 powi (bitlen n - 1) \<le> (of_int n :: rat)" "(of_int n :: rat) < 2 powi (bitlen n)"
    if "0 < n" for n
  proof -
    have b: "0 < bitlen n" using that bitlen_nonneg [of n] bitlen_eq_zero_iff [of n] by linarith
    have "2 ^ nat (bitlen n - 1) \<le> n" "n < 2 ^ nat (bitlen n)"
      using bitlen_bounds [OF that] by auto
    then have "(of_int (2 ^ nat (bitlen n - 1)) :: rat) \<le> of_int n"
      "(of_int n :: rat) < of_int (2 ^ nat (bitlen n))"
      using of_int_le_iff of_int_less_iff by blast+
    then show "2 powi (bitlen n - 1) \<le> (of_int n :: rat)" "(of_int n :: rat) < 2 powi (bitlen n)"
      using b by (simp_all add: power_int_def)
  qed
  let ?k = "bitlen p - bitlen q"
  have "x < 2 powi (?k + 1)"
  proof -
    have "x < 2 powi (bitlen p) / of_int q"
      unfolding x using bound(2) [OF p] q by (simp add: divide_strict_right_mono)
    also have "\<dots> \<le> 2 powi (bitlen p) / 2 powi (bitlen q - 1)"
      using bound(1) [OF q] q by (intro divide_left_mono) auto
    also have "\<dots> = 2 powi (?k + 1)"
      by (simp add: power_int_diff [symmetric] algebra_simps)
    finally show ?thesis .
  qed
  moreover have "2 powi (?k - 1) \<le> x"
  proof -
    have "(2 :: rat) powi (?k - 1) = 2 powi (bitlen p - 1) / 2 powi (bitlen q)"
      by (simp add: power_int_diff [symmetric] algebra_simps)
    also have "\<dots> \<le> of_int p / 2 powi (bitlen q)"
      using bound(1) [OF p] by (simp add: divide_right_mono)
    also have "\<dots> \<le> x"
      unfolding x using bound(2) [OF q] q p by (intro divide_left_mono) auto
    finally show ?thesis .
  qed
  ultimately show "2 powi exp2 x \<le> x" and "x < 2 powi (exp2 x + 1)"
    by (auto simp: exp2_def pq Let_def)
qed

lemma exp2_unique:
  assumes "2 powi k \<le> x" and "x < 2 powi (k + 1)"
  shows "exp2 x = k"
proof -
  have "0 < x" using assms(1) by (smt (verit) zero_less_power_int zero_less_numeral order_less_le_trans)
  from exp2_bounds [OF this] assms have "(2::rat) powi exp2 x < 2 powi (k + 1)" "(2::rat) powi k < 2 powi (exp2 x + 1)"
    by linarith+
  then show ?thesis by (simp add: powi_2_less)
qed

lemma exp2_mono: "0 < x \<Longrightarrow> x \<le> y \<Longrightarrow> exp2 x \<le> exp2 y"
proof -
  assume "0 < x" "x \<le> y"
  then have "(2::rat) powi exp2 x < 2 powi (exp2 y + 1)"
    using exp2_bounds(1) [of x] exp2_bounds(2) [of y] by linarith
  then show ?thesis by (simp add: powi_2_less)
qed

section \<open>Rounding to 53 significant bits\<close>

definition ulp :: "rat \<Rightarrow> rat" where
  "ulp x = 2 powi (exp2 x - 52)"

definition round_pos :: "rat \<Rightarrow> rat" where
  "round_pos x = of_int (rne (x / ulp x)) * ulp x"

definition dbl :: "rat \<Rightarrow> rat" where
  "dbl x = (if x = 0 then 0 else if 0 < x then round_pos x else - round_pos (- x))"

lemma ulp_pos: "0 < ulp x"
  by (simp add: ulp_def)

lemma ulp_scaled: "2 ^ 52 * ulp x = 2 powi exp2 x" "2 ^ 53 * ulp x = 2 powi (exp2 x + 1)"
proof -
  have "(2::rat) ^ n * ulp x = 2 powi (exp2 x - 52 + int n)" for n
    by (simp add: ulp_def power_int_add)
  from this [of 52] this [of 53]
  show "2 ^ 52 * ulp x = 2 powi exp2 x" "2 ^ 53 * ulp x = 2 powi (exp2 x + 1)"
    by (simp_all add: algebra_simps)
qed

lemmas ulp_scaled' = ulp_scaled [simplified]

lemma significand_bounds:
  assumes "0 < x"
  shows "2 ^ 52 \<le> rne (x / ulp x)" and "rne (x / ulp x) \<le> 2 ^ 53"
proof -
  have "2 ^ 52 * ulp x \<le> x" "x \<le> 2 ^ 53 * ulp x"
    using exp2_bounds [OF assms] by (simp_all add: ulp_scaled')
  then have "of_int (2 ^ 52) \<le> x / ulp x" "x / ulp x \<le> of_int (2 ^ 53)"
    by (simp_all add: le_divide_eq divide_le_eq ulp_pos)
  then show "2 ^ 52 \<le> rne (x / ulp x)" and "rne (x / ulp x) \<le> 2 ^ 53"
    using rne_ge rne_le by blast+
qed

lemma round_pos_bounds:
  assumes "0 < x"
  shows "2 powi exp2 x \<le> round_pos x" and "round_pos x \<le> 2 powi (exp2 x + 1)"
proof -
  have "(of_int (2 ^ 52) :: rat) \<le> of_int (rne (x / ulp x))" "(of_int (rne (x / ulp x)) :: rat) \<le> of_int (2 ^ 53)"
    using significand_bounds [OF assms] by (simp_all only: of_int_le_iff)
  then have "of_int (2 ^ 52) * ulp x \<le> round_pos x" "round_pos x \<le> of_int (2 ^ 53) * ulp x"
    by (simp_all only: round_pos_def mult_right_mono less_imp_le [OF ulp_pos])
  then show "2 powi exp2 x \<le> round_pos x" and "round_pos x \<le> 2 powi (exp2 x + 1)"
    by (simp_all add: ulp_scaled')
qed

lemma round_pos_pos: "0 < x \<Longrightarrow> 0 < round_pos x"
  using round_pos_bounds(1) [of x] by (meson order_less_le_trans zero_less_numeral zero_less_power_int)

lemma round_pos_mono:
  assumes "0 < x" and "x \<le> y"
  shows "round_pos x \<le> round_pos y"
proof (cases "exp2 x = exp2 y")
  case True
  then have u: "ulp x = ulp y" by (simp add: ulp_def)
  have "rne (x / ulp x) \<le> rne (y / ulp x)"
    using assms(2) ulp_pos [of x] by (intro rne_mono divide_right_mono) auto
  then show ?thesis
    using ulp_pos [of y] by (simp add: round_pos_def u)
next
  case False
  with exp2_mono [OF assms] have "exp2 x + 1 \<le> exp2 y" by simp
  then have "(2::rat) powi (exp2 x + 1) \<le> 2 powi exp2 y" by (rule powi_2_mono)
  moreover have "round_pos x \<le> 2 powi (exp2 x + 1)" by (rule round_pos_bounds(2) [OF assms(1)])
  moreover have "2 powi exp2 y \<le> round_pos y" using assms by (intro round_pos_bounds(1)) simp
  ultimately show ?thesis by linarith
qed

lemma dbl_mono: "x \<le> y \<Longrightarrow> dbl x \<le> dbl y"
proof -
  assume le: "x \<le> y"
  consider "0 < x" | "x \<le> 0" "0 \<le> y" | "y < 0" by linarith
  then show ?thesis
  proof cases
    case 1
    with le round_pos_mono show ?thesis by (simp add: dbl_def)
  next
    case 2
    then show ?thesis
      using round_pos_pos [of y] round_pos_pos [of "- x"] by (auto simp: dbl_def)
  next
    case 3
    with le round_pos_mono [of "- y" "- x"] show ?thesis by (simp add: dbl_def)
  qed
qed

text \<open>Numbers of the form $m \cdot 2^k$ with at most 53 significant bits are not changed.\<close>

lemma round_pos_exact:
  assumes "0 < x" and "x = of_int m * 2 powi k" and "exp2 x - 52 \<le> k"
  shows "round_pos x = x"
proof -
  let ?j = "nat (k - (exp2 x - 52))"
  have "(2::rat) powi k = 2 ^ ?j * ulp x"
    using assms(3) by (simp add: ulp_def power_int_add [symmetric] flip: power_int_of_nat)
  then have x: "x = of_int (m * 2 ^ ?j) * ulp x"
    by (subst assms(2)) simp
  then have "x / ulp x = of_int (m * 2 ^ ?j)"
    using ulp_pos [of x] by (metis nonzero_mult_div_cancel_right order_less_irrefl)
  then show ?thesis
    by (simp only: round_pos_def rne_of_int flip: x)
qed

lemma round_pos_idem: assumes "0 < x" shows "round_pos (round_pos x) = round_pos x"
proof (cases "rne (x / ulp x) = 2 ^ 53")
  case True
  then have r: "round_pos x = 2 powi (exp2 x + 1)"
    by (simp add: round_pos_def ulp_scaled')
  have "exp2 (round_pos x) = exp2 x + 1"
    unfolding r by (rule exp2_unique) (simp_all add: powi_2_less)
  then show ?thesis
    using round_pos_pos [OF assms] r
    by (intro round_pos_exact [where m = 1 and k = "exp2 x + 1"]) simp_all
next
  case False
  with significand_bounds(2) [OF assms] have "rne (x / ulp x) < 2 ^ 53" by simp
  then have "(of_int (rne (x / ulp x)) :: rat) < of_int (2 ^ 53)" by (simp only: of_int_less_iff)
  then have "round_pos x < of_int (2 ^ 53) * ulp x"
    unfolding round_pos_def using ulp_pos by (rule mult_strict_right_mono)
  then have "exp2 (round_pos x) = exp2 x"
    using round_pos_bounds(1) [OF assms] by (intro exp2_unique) (simp_all add: ulp_scaled')
  then show ?thesis
    using round_pos_pos [OF assms]
    by (intro round_pos_exact [where m = "rne (x / ulp x)" and k = "exp2 x - 52"])
       (simp_all add: round_pos_def ulp_def)
qed

lemma dbl_idem: "dbl (dbl x) = dbl x"
  using round_pos_pos [of x] round_pos_pos [of "- x"] round_pos_idem [of x] round_pos_idem [of "- x"]
  by (auto simp: dbl_def)

lemma dbl_minus: "dbl (- x) = - dbl x"
  by (auto simp: dbl_def)

lemma round_pos_int: assumes "0 < n" "n \<le> 2 ^ 53" shows "round_pos (of_int n) = of_int n"
proof (cases "n = 2 ^ 53")
  case True
  have "exp2 (2 ^ 53) = 53"
    by (rule exp2_unique) (simp_all add: power_int_def)
  with True show ?thesis
    by (intro round_pos_exact [where m = 1 and k = 53]) (simp_all add: power_int_def)
next
  case False
  have pos: "(0::rat) < of_int n" using assms by simp
  have "(of_int n :: rat) < of_int (2 ^ 53)"
    using False assms by (simp only: of_int_less_iff)
  then have "(2::rat) powi exp2 (of_int n) < 2 powi 53"
    using exp2_bounds(1) [OF pos] by (simp add: power_int_def)
  then have "exp2 (of_int n) < 53" by (simp only: powi_2_less)
  then show ?thesis
    using pos by (intro round_pos_exact [where m = n and k = 0]) simp_all
qed

lemma dbl_int: assumes "\<bar>n\<bar> \<le> 2 ^ 53" shows "dbl (of_int n) = of_int n"
proof -
  consider "n = 0" | "0 < n" | "n < 0" by linarith
  then show ?thesis
    using assms round_pos_int [of n] round_pos_int [of "- n"] by cases (auto simp: dbl_def)
qed

lemma round_pos_floor:
  assumes "0 < x" and "round_pos x = x"
  shows "dbl (of_int \<lfloor>x\<rfloor>) = of_int \<lfloor>x\<rfloor>"
proof (cases "exp2 x < 53")
  case True
  have "(2::rat) powi (exp2 x + 1) \<le> 2 powi 53" using True by (intro powi_2_mono) simp
  then have "x < of_int (2 ^ 53)"
    using exp2_bounds(2) [OF assms(1)] by (simp add: power_int_def)
  then have "\<lfloor>x\<rfloor> < 2 ^ 53" by (simp only: floor_less_iff)
  with assms(1) show ?thesis by (intro dbl_int) simp
next
  case False
  then have "ulp x = of_int (2 ^ nat (exp2 x - 52))" by (simp add: ulp_def power_int_def)
  then have "x = of_int (rne (x / ulp x) * 2 ^ nat (exp2 x - 52))"
    using assms(2) by (simp add: round_pos_def)
  then have "of_int \<lfloor>x\<rfloor> = x" by (metis floor_of_int)
  moreover have "dbl x = x" using assms by (simp add: dbl_def)
  ultimately show ?thesis by metis
qed

lemma dbl_floor: assumes "0 \<le> x" shows "dbl (of_int \<lfloor>dbl x\<rfloor>) = of_int \<lfloor>dbl x\<rfloor>"
proof (cases "x = 0")
  case False
  with assms show ?thesis
    using round_pos_floor [OF round_pos_pos round_pos_idem] by (simp add: dbl_def)
qed (simp add: dbl_def)

section \<open>What the program relies on\<close>

locale rounding =
  fixes rnd :: "rat \<Rightarrow> rat"
  assumes rnd_mono: "x \<le> y \<Longrightarrow> rnd x \<le> rnd y"
    and rnd_idem: "rnd (rnd x) = rnd x"
    and rnd_int: "\<bar>n\<bar> \<le> 2 ^ 53 \<Longrightarrow> rnd (of_int n) = of_int n"
    and rnd_floor: "0 \<le> x \<Longrightarrow> rnd (of_int \<lfloor>rnd x\<rfloor>) = of_int \<lfloor>rnd x\<rfloor>"
begin

lemma rnd_0 [simp]: "rnd 0 = 0" and rnd_1 [simp]: "rnd 1 = 1"
  using rnd_int [of 0] rnd_int [of 1] by simp_all

lemma rnd_nat: "n \<le> 2 ^ 53 \<Longrightarrow> rnd (of_nat n) = of_nat n"
  using rnd_int [of "int n"] by simp

lemma rnd_nonneg: "0 \<le> x \<Longrightarrow> 0 \<le> rnd x"
  using rnd_mono [of 0 x] by simp

lemma rnd_le_1: "x \<le> 1 \<Longrightarrow> rnd x \<le> 1"
  using rnd_mono [of x 1] by simp

text \<open>A rounded quotient of two rounded numbers, the smaller by the larger, is a fraction.\<close>

lemma rnd_fraction:
  assumes "0 \<le> a" and "a \<le> b"
  shows "0 \<le> rnd (a / b)" and "rnd (a / b) \<le> 1"
proof -
  have "a / b \<le> 1" using assms by (cases "b = 0") (auto simp: divide_le_eq)
  then show "rnd (a / b) \<le> 1" by (rule rnd_le_1)
  show "0 \<le> rnd (a / b)" using assms by (intro rnd_nonneg divide_nonneg_nonneg) auto
qed

text \<open>Adding a non-negative number to an exactly representable one does not decrease it.\<close>

lemma rnd_add_ge: "rnd x = x \<Longrightarrow> 0 \<le> w \<Longrightarrow> x \<le> rnd (x + w)"
  using rnd_mono [of x "x + w"] by simp

end

interpretation ieee: rounding dbl
  by unfold_locales (simp_all add: dbl_mono dbl_idem dbl_int dbl_floor)

section \<open>Conversions to and from \<open>uint64_t\<close>\<close>

definition u64_to_double :: "nat \<Rightarrow> rat" where
  "u64_to_double n = dbl (of_nat n)"

text \<open>The conversion truncates towards zero; out of range it is undefined behaviour.\<close>

definition double_to_u64 :: "rat \<Rightarrow> nat res" where
  "double_to_u64 x =
     (if - 1 < x \<and> x < 2 ^ 64 then Inr (nat \<lfloor>x\<rfloor>) else Inl (Undefined ''double to uint64_t''))"

text \<open>\<open>sum += w\<close> for \<open>uint64_t sum\<close> and \<open>double w\<close>.\<close>

definition u64_add_double :: "nat \<Rightarrow> rat \<Rightarrow> nat res" where
  "u64_add_double s w = double_to_u64 (dbl (u64_to_double s + w))"

definition exact_u64 :: "nat \<Rightarrow> bool" where
  "exact_u64 n \<longleftrightarrow> u64_to_double n = of_nat n"

lemma exact_u64_small: "n \<le> 2 ^ 53 \<Longrightarrow> exact_u64 n"
  by (simp add: exact_u64_def u64_to_double_def ieee.rnd_nat)

lemma u64_add_double_exact:
  assumes "u64_add_double s w = Inr t" and "0 \<le> w"
  shows "exact_u64 t"
proof -
  have "0 \<le> u64_to_double s" by (simp add: u64_to_double_def ieee.rnd_nonneg)
  with assms(2) have nn: "0 \<le> u64_to_double s + w" by simp
  from assms(1) have t: "t = nat \<lfloor>dbl (u64_to_double s + w)\<rfloor>"
    by (auto simp: u64_add_double_def double_to_u64_def split: if_splits)
  have "(of_nat t :: rat) = of_int \<lfloor>dbl (u64_to_double s + w)\<rfloor>"
    unfolding t using ieee.rnd_nonneg [OF nn] by simp
  then show ?thesis
    using ieee.rnd_floor [OF nn] by (simp add: exact_u64_def u64_to_double_def)
qed

lemma u64_add_double_ge:
  assumes "u64_add_double s w = Inr t" and "0 \<le> w" and "exact_u64 s"
  shows "s \<le> t"
proof -
  have "(of_nat s :: rat) \<le> dbl (of_nat s + w)"
    using assms by (intro ieee.rnd_add_ge) (simp_all add: exact_u64_def u64_to_double_def)
  then have "int s \<le> \<lfloor>dbl (of_nat s + w)\<rfloor>" by (simp add: le_floor_iff)
  with assms show ?thesis
    by (auto simp: u64_add_double_def double_to_u64_def exact_u64_def split: if_splits)
qed

lemma u64_add_double_mono:
  assumes "u64_add_double s w = Inr t" and "u64_add_double s' w = Inr t'" and "s \<le> s'"
  shows "t \<le> t'"
proof -
  have "u64_to_double s \<le> u64_to_double s'"
    using assms(3) by (simp add: u64_to_double_def dbl_mono)
  then have "dbl (u64_to_double s + w) \<le> dbl (u64_to_double s' + w)"
    by (simp add: dbl_mono)
  with assms(1,2) show ?thesis
    by (auto simp: u64_add_double_def double_to_u64_def nat_mono floor_mono split: if_splits)
qed

text \<open>If the larger sum can be formed, so can the smaller one.\<close>

lemma u64_add_double_defined:
  assumes "u64_add_double s' w = Inr t'" and "s \<le> s'" and "0 \<le> w"
  shows "\<exists>t. u64_add_double s w = Inr t"
proof -
  have "0 \<le> u64_to_double s" "u64_to_double s \<le> u64_to_double s'"
    using assms(2) by (simp_all add: u64_to_double_def dbl_mono ieee.rnd_nonneg)
  then have "0 \<le> dbl (u64_to_double s + w)" "dbl (u64_to_double s + w) \<le> dbl (u64_to_double s' + w)"
    using assms(3) by (simp_all add: dbl_mono ieee.rnd_nonneg)
  with assms(1) show ?thesis
    by (auto simp: u64_add_double_def double_to_u64_def split: if_splits)
qed

text \<open>Small whole weights are added exactly.\<close>

lemma u64_add_double_whole:
  assumes "s + n \<le> 2 ^ 53"
  shows "u64_add_double s (of_nat n) = Inr (s + n)"
proof -
  have "u64_to_double s = of_nat s"
    using exact_u64_small [of s] assms by (simp add: exact_u64_def)
  moreover have "dbl (of_nat s + of_nat n) = of_nat (s + n)"
    using ieee.rnd_nat [OF assms] by simp
  moreover have "(of_nat (s + n) :: rat) < 2 ^ 64"
  proof -
    have "(of_nat (s + n) :: rat) \<le> of_nat (2 ^ 53)" using assms of_nat_le_iff by blast
    then show ?thesis by simp
  qed
  ultimately show ?thesis
    by (simp add: u64_add_double_def double_to_u64_def nat_add_distrib)
qed

text \<open>The rounding is visible: in doubles, 0.1 + 0.2 is not 0.3.\<close>

lemma double_rounds: "dbl (dbl (1 / 10) + dbl (2 / 10)) \<noteq> dbl (3 / 10)"
  by code_simp

end
