(* ===== verification/File_Tree.thy ===== *)
theory File_Tree
  imports Dupa_Prelude Doubles Config Boost_Paths "HOL-Library.List_Lexorder" "HOL-Library.Char_ord"
begin

text \<open>
  The file tree and its equivalence classes (src/src/file_tree.h, src/src/file_tree.cpp). Nodes
  and classes are mutable objects that refer to each other by pointers, so they live in an
  explicit heap; a pointer is an address, a null pointer is \<open>None\<close>. Weights and fractions are
  doubles (theory Doubles). The iteration order of an unordered container of pointers and the order in
  which \<open>std::sort\<close> leaves equal keys are parameters.
\<close>

section \<open>Nodes, classes and the heap\<close>

type_synonym nid = nat  \<comment> \<open>address of a \<open>Node\<close>\<close>
type_synonym cid = nat  \<comment> \<open>address of an \<open>EqClass\<close>\<close>

datatype NodeType = DIR | FILE

record Node =
  nd_name :: string
  nd_type :: NodeType
  nd_size :: int
  nd_parent :: "nid option"
  nd_children :: "nid list"
  nd_eq_class :: "cid option"
  nd_not_evaluated_children :: int
  nd_unique_fraction :: "rat option"  \<comment> \<open>not initialised by the constructor\<close>

record EqClass =
  ec_nodes :: "nid list"
  ec_weight :: rat

record heap =
  h_nodes :: "nid \<rightharpoonup> Node"
  h_classes :: "cid \<rightharpoonup> EqClass"
  h_next_node :: nid
  h_next_class :: cid

definition empty_heap :: heap where
  "empty_heap = \<lparr>h_nodes = Map.empty, h_classes = Map.empty, h_next_node = 0, h_next_class = 0\<rparr>"

definition upd_node :: "nid \<Rightarrow> (Node \<Rightarrow> Node) \<Rightarrow> heap \<Rightarrow> heap" where
  "upd_node n f h = h\<lparr>h_nodes := (h_nodes h)(n := map_option f (h_nodes h n))\<rparr>"

definition upd_class :: "cid \<Rightarrow> (EqClass \<Rightarrow> EqClass) \<Rightarrow> heap \<Rightarrow> heap" where
  "upd_class c f h = h\<lparr>h_classes := (h_classes h)(c := map_option f (h_classes h c))\<rparr>"

text \<open>The configuration, the order in which an unordered container that was filled in a given
  order is iterated (a set of or a map from class pointers, a set of node pointers, the multimap
  from checksums to nodes), and what \<open>std::sort\<close> makes of a vector of pointers under a comparison:
  it is not stable, so the order of elements that compare equal is up to the library.\<close>

record dedup_env =
  env_conf :: GlobalConfig
  env_class_order :: "cid option list \<Rightarrow> cid option list"
  env_node_order :: "nid list \<Rightarrow> nid list"
  env_sum_order :: "(Cksum \<times> nid) list \<Rightarrow> (Cksum \<times> nid) list"
  env_sort :: "(nat \<Rightarrow> nat \<Rightarrow> bool) \<Rightarrow> nat list \<Rightarrow> nat list"

text \<open>Insertion into an unordered set that does not hold the element yet.\<close>

definition set_insert :: "'a \<Rightarrow> 'a list \<Rightarrow> 'a list" where
  "set_insert x xs = (if x \<in> set xs then xs else xs @ [x])"

section \<open>Operations of \<open>Node\<close>\<close>

definition new_Node :: "NodeType \<Rightarrow> string \<Rightarrow> int \<Rightarrow> heap \<Rightarrow> (nid \<times> heap) res" where
  "new_Node type name sz h =
     rassert (name \<noteq> []) ''!name_.empty()''
       (let n = h_next_node h;
            nd = \<lparr>nd_name = name, nd_type = type, nd_size = sz, nd_parent = None,
              nd_children = [], nd_eq_class = None, nd_not_evaluated_children = 0,
              nd_unique_fraction = None\<rparr>
        in Inr (n, h\<lparr>h_nodes := (h_nodes h)(n \<mapsto> nd), h_next_node := Suc n\<rparr>))"

definition IsReadyToEvaluate :: "Node \<Rightarrow> bool" where
  "IsReadyToEvaluate nd \<longleftrightarrow> nd_not_evaluated_children nd = 0"

definition IsEvaluated :: "Node \<Rightarrow> bool" where
  "IsEvaluated nd \<longleftrightarrow> nd_eq_class nd \<noteq> None"

definition GetEqClass :: "Node \<Rightarrow> cid res" where
  "GetEqClass nd = (case nd_eq_class nd of None \<Rightarrow> Inl (Assertion ''eq_class_'') | Some c \<Rightarrow> Inr c)"

definition IsEmptyDir :: "Node \<Rightarrow> bool" where
  "IsEmptyDir nd \<longleftrightarrow> nd_type nd = DIR \<and> nd_children nd = []"

definition AddChild :: "nid \<Rightarrow> nid \<Rightarrow> heap \<Rightarrow> heap res" where
  "AddChild this child h =
     deref (h_nodes h this) (\<lambda>nd.
     deref (h_nodes h child) (\<lambda>cd.
       rassert (\<not> IsEvaluated nd) ''!IsEvaluated()'' (
       rassert (nd_parent cd = None) ''child->parent_ == nullptr'' (
       rassert (\<not> IsEvaluated cd) ''!child->IsEvaluated()'' (
       rassert (nd_type nd = DIR) ''type_ == DIR'' (
         let h1 = upd_node child (\<lambda>x. x\<lparr>nd_parent := Some this\<rparr>) h;
             h2 = upd_node this (\<lambda>x. x\<lparr>nd_children := nd_children x @ [child]\<rparr>) h1;
             h3 = upd_node this (\<lambda>x. x\<lparr>nd_not_evaluated_children := nd_not_evaluated_children x + 1\<rparr>) h2
         in Inr h3))))))"

definition SetEqClass :: "nid \<Rightarrow> cid \<Rightarrow> heap \<Rightarrow> heap res" where
  "SetEqClass this eq_class h =
     deref (h_nodes h this) (\<lambda>nd.
       rassert (IsReadyToEvaluate nd) ''IsReadyToEvaluate()'' (
       rassert (\<not> IsEvaluated nd) ''!IsEvaluated()'' (
         let h1 = upd_node this (\<lambda>x. x\<lparr>nd_eq_class := Some eq_class\<rparr>) h in
         case nd_parent nd of
           None \<Rightarrow> Inr h1
         | Some p \<Rightarrow>
             deref (h_nodes h1 p) (\<lambda>pd.
               rassert (nd_not_evaluated_children pd \<noteq> 0) ''parent_->not_evaluated_children_''
                 (Inr (upd_node p (\<lambda>x. x\<lparr>nd_not_evaluated_children := nd_not_evaluated_children x - 1\<rparr>) h1))))))"

text \<open>The set of the classes of the children, in the order of insertion.\<close>

fun insert_child_classes :: "heap \<Rightarrow> nid list \<Rightarrow> cid option list \<Rightarrow> cid option list res" where
  "insert_child_classes h [] eq_classes = Inr eq_classes"
| "insert_child_classes h (n # ns) eq_classes =
     deref (h_nodes h n) (\<lambda>nd.
       rassert (IsEvaluated nd) ''n->IsEvaluated()''
         (insert_child_classes h ns (set_insert (nd_eq_class nd) eq_classes)))"

text \<open>\<open>weight += eq_class->weight_\<close> over a container of class pointers.\<close>

fun add_weights :: "heap \<Rightarrow> cid option list \<Rightarrow> rat \<Rightarrow> rat res" where
  "add_weights h [] weight = Inr weight"
| "add_weights h (c # cs) weight =
     deref (Option.bind c (h_classes h)) (\<lambda>ec. add_weights h cs (dbl (weight + ec_weight ec)))"

definition GetWeight :: "dedup_env \<Rightarrow> heap \<Rightarrow> nid \<Rightarrow> rat res" where
  "GetWeight env h this =
     deref (h_nodes h this) (\<lambda>nd.
       if IsEvaluated nd then deref (Option.bind (nd_eq_class nd) (h_classes h)) (\<lambda>ec. Inr (ec_weight ec))
       else case nd_type nd of
         FILE \<Rightarrow> if conf_use_size (env_conf env) then Inr (dbl (of_int (nd_size nd))) else Inr 1
       | DIR \<Rightarrow>
           rbind (insert_child_classes h (nd_children nd) [])
             (\<lambda>eq_classes. add_weights h (env_class_order env eq_classes) 0))"

text \<open>\<open>BuildPath\<close> recurses along the parents; the first argument bounds the depth.\<close>

fun BuildPath :: "'p path_api \<Rightarrow> nat \<Rightarrow> heap \<Rightarrow> nid \<Rightarrow> 'p res" where
  "BuildPath P 0 h this = Inl OutOfFuel"
| "BuildPath P (Suc k) h this =
     deref (h_nodes h this) (\<lambda>nd.
       case nd_parent nd of
         Some p \<Rightarrow> rbind (BuildPath P k h p) (\<lambda>path. Inr (p_append P path (p_of P (nd_name nd))))
       | None \<Rightarrow> Inr (p_of P (nd_name nd)))"

text \<open>The two nested loops of \<open>GetPossibleEquivalents\<close>.\<close>

fun insert_equivalents :: "heap \<Rightarrow> nid \<Rightarrow> nid \<Rightarrow> nid list \<Rightarrow> nid list \<Rightarrow> nid list res" where
  "insert_equivalents h this child [] nodes = Inr nodes"
| "insert_equivalents h this child (equivalent # es) nodes =
     deref (h_nodes h equivalent) (\<lambda>ed.
       rassert (IsEvaluated ed) ''equivalent->IsEvaluated()'' (
         if equivalent \<noteq> child then
           case nd_parent ed of
             None \<Rightarrow> insert_equivalents h this child es nodes
           | Some p \<Rightarrow>
               deref (h_nodes h p) (\<lambda>pd.
                 if IsEvaluated pd \<and> p \<noteq> this
                 then insert_equivalents h this child es (set_insert p nodes)
                 else insert_equivalents h this child es nodes)
         else insert_equivalents h this child es nodes))"

definition insert_child_equivalents :: "heap \<Rightarrow> nid \<Rightarrow> nid \<Rightarrow> nid list \<Rightarrow> nid list res" where
  "insert_child_equivalents h this child nodes =
     deref (h_nodes h child) (\<lambda>cd.
       rassert (IsEvaluated cd) ''child->IsEvaluated()'' (
         deref (Option.bind (nd_eq_class cd) (h_classes h)) (\<lambda>ec.
           insert_equivalents h this child (ec_nodes ec) nodes)))"

definition GetPossibleEquivalents :: "dedup_env \<Rightarrow> heap \<Rightarrow> nid \<Rightarrow> nid list res" where
  "GetPossibleEquivalents env h this =
     deref (h_nodes h this) (\<lambda>nd.
       rassert (IsReadyToEvaluate nd) ''IsReadyToEvaluate()'' (
         rbind (foldR (insert_child_equivalents h this) (nd_children nd) [])
           (\<lambda>nodes. Inr (env_node_order env nodes))))"

text \<open>\<open>Traverse\<close>: the children in order, then the node itself; the callback may change the
  heap and an accumulator. The first argument bounds the depth of the recursion.\<close>

fun Traverse :: "nat \<Rightarrow> (nid \<Rightarrow> heap \<times> 'b \<Rightarrow> (heap \<times> 'b) res) \<Rightarrow> nid \<Rightarrow> heap \<times> 'b \<Rightarrow> (heap \<times> 'b) res" where
  "Traverse 0 callback this st = Inl OutOfFuel"
| "Traverse (Suc k) callback this st =
     deref (h_nodes (fst st) this) (\<lambda>nd.
       rbind (foldR (Traverse k callback) (nd_children nd) st) (callback this))"

text \<open>\<open>IsAncestorOf\<close>: the loop along the parents of the argument.\<close>

fun ancestor_loop :: "nat \<Rightarrow> heap \<Rightarrow> nid \<Rightarrow> nid option \<Rightarrow> bool res" where
  "ancestor_loop k h this None = Inr False"
| "ancestor_loop 0 h this (Some n) = Inl OutOfFuel"
| "ancestor_loop (Suc k) h this (Some n) =
     (if n = this then Inr True
      else deref (h_nodes h n) (\<lambda>nd. ancestor_loop k h this (nd_parent nd)))"

definition IsAncestorOf :: "nat \<Rightarrow> heap \<Rightarrow> nid \<Rightarrow> nid \<Rightarrow> bool res" where
  "IsAncestorOf k h this node = ancestor_loop k h this (Some node)"

section \<open>The distance of two nodes\<close>

text \<open>The map \<open>eq_classes1\<close> from class pointers to the flag "also a class of the other node's
  child", in the order of insertion; \<open>insert\<close> does not overwrite.\<close>

definition insert_class1 :: "cid option \<Rightarrow> (cid option \<times> bool) list \<Rightarrow> (cid option \<times> bool) list" where
  "insert_class1 c m = (if c \<in> set (map fst m) then m else m @ [(c, False)])"

fun insert_classes1 ::
  "heap \<Rightarrow> nid list \<Rightarrow> (cid option \<times> bool) list \<Rightarrow> (cid option \<times> bool) list res" where
  "insert_classes1 h [] m = Inr m"
| "insert_classes1 h (n # ns) m =
     deref (h_nodes h n) (\<lambda>nd. insert_classes1 h ns (insert_class1 (nd_eq_class nd) m))"

text \<open>The loop over the children of the second node: mark the class, or note that it is a
  class of the second node only.\<close>

fun insert_classes2 ::
  "heap \<Rightarrow> nid list \<Rightarrow> (cid option \<times> bool) list \<times> cid option list \<Rightarrow>
   ((cid option \<times> bool) list \<times> cid option list) res" where
  "insert_classes2 h [] st = Inr st"
| "insert_classes2 h (n # ns) (m, only_2) =
     deref (h_nodes h n) (\<lambda>nd.
       let c = nd_eq_class nd in
       case map_of m c of
         None \<Rightarrow> insert_classes2 h ns (m, set_insert c only_2)
       | Some _ \<Rightarrow> insert_classes2 h ns (map (\<lambda>(k, b). (k, if k = c then True else b)) m, only_2))"

text \<open>The accumulators \<open>(sum, sym_diff)\<close>, both \<open>uint64_t\<close>.\<close>

fun sum_classes1 ::
  "heap \<Rightarrow> (cid option \<times> bool) list \<Rightarrow> nat \<times> nat \<Rightarrow> (nat \<times> nat) res" where
  "sum_classes1 h [] st = Inr st"
| "sum_classes1 h ((c, intersect) # cs) (tot, sdiff) =
     deref (Option.bind c (h_classes h)) (\<lambda>ec.
       rbind (u64_add_double tot (ec_weight ec)) (\<lambda>tot'.
         if \<not> intersect
         then rbind (u64_add_double sdiff (ec_weight ec)) (\<lambda>sdiff'.
           sum_classes1 h cs (tot', sdiff'))
         else sum_classes1 h cs (tot', sdiff)))"

fun sum_classes2 :: "heap \<Rightarrow> cid option list \<Rightarrow> nat \<times> nat \<Rightarrow> (nat \<times> nat) res" where
  "sum_classes2 h [] st = Inr st"
| "sum_classes2 h (c # cs) (tot, sdiff) =
     deref (Option.bind c (h_classes h)) (\<lambda>ec.
       rbind (u64_add_double tot (ec_weight ec)) (\<lambda>tot'.
         rbind (u64_add_double sdiff (ec_weight ec)) (\<lambda>sdiff'.
           sum_classes2 h cs (tot', sdiff'))))"

text \<open>The entries of a map in the order in which its keys are iterated.\<close>

definition map_entries :: "('k list \<Rightarrow> 'k list) \<Rightarrow> ('k \<times> 'v) list \<Rightarrow> ('k \<times> 'v) list" where
  "map_entries order m = map (\<lambda>k. (k, the (map_of m k))) (order (map fst m))"

definition NodeDistance :: "dedup_env \<Rightarrow> heap \<Rightarrow> nid \<Rightarrow> nid \<Rightarrow> rat res" where
  "NodeDistance env h n1 n2 =
     deref (h_nodes h n1) (\<lambda>nd1.
     deref (h_nodes h n2) (\<lambda>nd2.
       rassert (IsReadyToEvaluate nd1) ''n1.IsReadyToEvaluate()'' (
       rassert (IsReadyToEvaluate nd2) ''n2.IsReadyToEvaluate()'' (
       rassert (nd_type nd1 \<noteq> FILE \<or> nd_type nd2 \<noteq> FILE) ''n1.type_ != Node::FILE || n2.type_ != Node::FILE'' (
         rbind (insert_classes1 h (nd_children nd1) []) (\<lambda>m1.
         rbind (insert_classes2 h (nd_children nd2) (m1, [])) (\<lambda>(eq_classes1, eq_classes_only_2).
         rbind (sum_classes1 h (map_entries (env_class_order env) eq_classes1) (0, 0)) (\<lambda>st.
         rbind (sum_classes2 h (env_class_order env eq_classes_only_2) st) (\<lambda>(tot, sdiff).
           if tot = 0 then Inr 0
           else rassert (sdiff \<le> tot) ''sum >= sdiff''
             (Inr (dbl (u64_to_double sdiff / u64_to_double tot))))))))))))"

section \<open>Operations of \<open>EqClass\<close>\<close>

definition new_EqClass :: "heap \<Rightarrow> cid \<times> heap" where
  "new_EqClass h =
     (h_next_class h,
      h\<lparr>h_classes := (h_classes h)(h_next_class h \<mapsto> \<lparr>ec_nodes = [], ec_weight = 0\<rparr>),
        h_next_class := Suc (h_next_class h)\<rparr>)"

definition ec_IsEmpty :: "EqClass \<Rightarrow> bool" where
  "ec_IsEmpty ec \<longleftrightarrow> ec_nodes ec = []"

definition ec_IsSingle :: "EqClass \<Rightarrow> bool" where
  "ec_IsSingle ec \<longleftrightarrow> length (ec_nodes ec) = 1"

definition ec_GetNumNodes :: "EqClass \<Rightarrow> nat" where
  "ec_GetNumNodes ec = length (ec_nodes ec)"

definition AddNode :: "dedup_env \<Rightarrow> cid \<Rightarrow> nid \<Rightarrow> heap \<Rightarrow> heap res" where
  "AddNode env this node h =
     deref (h_classes h this) (\<lambda>ec.
       rassert (node \<notin> set (ec_nodes ec)) ''find(nodes_, &node) == nodes_.end()'' (
         let nodes' = ec_nodes ec @ [node];
             h1 = upd_class this (\<lambda>x. x\<lparr>ec_nodes := nodes'\<rparr>) h;
             size' = length nodes'
         in rbind (GetWeight env h1 node) (\<lambda>w.
           let weight' = dbl (dbl (dbl (ec_weight ec * dbl (of_nat (size' - 1))) + w) / dbl (of_nat size'));
               h2 = upd_class this (\<lambda>x. x\<lparr>ec_weight := weight'\<rparr>) h1
           in SetEqClass node this h2)))"

section \<open>Printing\<close>

fun mapR :: "('a \<Rightarrow> 'b res) \<Rightarrow> 'a list \<Rightarrow> 'b list res" where
  "mapR f [] = Inr []"
| "mapR f (x # xs) = rbind (f x) (\<lambda>y. rbind (mapR f xs) (\<lambda>ys. Inr (y # ys)))"

definition native_path :: "'p path_api \<Rightarrow> heap \<Rightarrow> nid \<Rightarrow> string res" where
  "native_path P h n = rbind (BuildPath P (Suc (h_next_node h)) h n) (\<lambda>p. Inr (p_native P p))"

fun print_line :: "string list \<Rightarrow> string" where
  "print_line [] = []"
| "print_line [p] = p"
| "print_line (p # ps) = p @ '' '' @ print_line ps"

text \<open>The members of a class are sorted by their paths, and only the paths are printed, so nodes with
  equal paths need not be told apart.\<close>

definition PrintEqClassses :: "'p path_api \<Rightarrow> heap \<Rightarrow> cid list \<Rightarrow> string list res" where
  "PrintEqClassses P h eq_classes =
     rbind (mapR (\<lambda>c. deref (h_classes h c) (\<lambda>ec.
         rbind (mapR (native_path P h) (ec_nodes ec)) (\<lambda>ps. Inr (print_line (sort ps))))) eq_classes)
       (\<lambda>ls. Inr (''*** Classes of similar directories or files:'' # ls))"

text \<open>The condition of the callback of \<open>PrintScatteredDirectories\<close>; reading the uninitialised
  \<open>unique_fraction_\<close> is undefined.\<close>

definition is_scattered :: "dedup_env \<Rightarrow> heap \<Rightarrow> nid \<Rightarrow> bool res" where
  "is_scattered env h n =
     deref (h_nodes h n) (\<lambda>nd.
       if nd_type nd \<noteq> DIR then Inr False
       else case nd_unique_fraction nd of
         None \<Rightarrow> Inl (Undefined ''unique_fraction_ is not initialised'')
       | Some f \<Rightarrow>
           if \<not> dbl (f * 100) < of_int (conf_tolerable_diff_pct (env_conf env)) then Inr False
           else rbind (GetEqClass nd) (\<lambda>c. deref (h_classes h c) (\<lambda>ec. Inr (ec_IsSingle ec))))"

definition collect_scattered ::
  "dedup_env \<Rightarrow> nid \<Rightarrow> heap \<times> nid list \<Rightarrow> (heap \<times> nid list) res" where
  "collect_scattered env n st =
     rbind (is_scattered env (fst st) n)
       (\<lambda>b. Inr (if b then (fst st, snd st @ [n]) else st))"

definition fraction_of :: "heap \<Rightarrow> nid \<Rightarrow> rat" where
  "fraction_of h n = (case h_nodes h n of
     Some nd \<Rightarrow> (case nd_unique_fraction nd of Some f \<Rightarrow> f | None \<Rightarrow> 0) | None \<Rightarrow> 0)"

definition PrintScatteredDirectories ::
  "'p path_api \<Rightarrow> dedup_env \<Rightarrow> heap \<Rightarrow> nid \<Rightarrow> string list res" where
  "PrintScatteredDirectories P env h root_node =
     rbind (Traverse (Suc (h_next_node h)) (collect_scattered env) root_node (h, []))
       (\<lambda>st. rbind (mapR (native_path P h) (env_sort env (\<lambda>n1 n2. fraction_of h n2 < fraction_of h n1) (snd st)))
         (\<lambda>ls. Inr (''*** Directories consisting of mostly duplicates of files scattered elsewhere:'' # ls)))"

end
