(* ===== verification/Tree_Invariant.thy ===== *)
theory Tree_Invariant
  imports File_Tree
begin

text \<open>
  The invariant of the heap of nodes and classes, and the lemmas that every operation of
  \<open>Node\<close> and \<open>EqClass\<close> keeps it and fires none of its assertions. The parts: \<open>tree_ok\<close> (parent
  and child pointers agree, a parent is allocated before its children), \<open>classes_ok\<close> (a node
  points to the class that lists it), \<open>counters_ok\<close> (\<open>not_evaluated_children_\<close> is the number of
  children without a class, and only nodes without such children have one).
\<close>

section \<open>Views of the heap\<close>

definition children_of :: "heap \<Rightarrow> nid \<Rightarrow> nid list" where
  "children_of h n = (case h_nodes h n of None \<Rightarrow> [] | Some nd \<Rightarrow> nd_children nd)"

definition parent_of :: "heap \<Rightarrow> nid \<Rightarrow> nid option" where
  "parent_of h n = Option.bind (h_nodes h n) nd_parent"

definition class_of :: "heap \<Rightarrow> nid \<Rightarrow> cid option" where
  "class_of h n = Option.bind (h_nodes h n) nd_eq_class"

definition members :: "heap \<Rightarrow> cid \<Rightarrow> nid list" where
  "members h c = (case h_classes h c of None \<Rightarrow> [] | Some ec \<Rightarrow> ec_nodes ec)"

definition weight_of :: "heap \<Rightarrow> cid \<Rightarrow> rat" where
  "weight_of h c = (case h_classes h c of None \<Rightarrow> 0 | Some ec \<Rightarrow> ec_weight ec)"

definition pending :: "heap \<Rightarrow> nid \<Rightarrow> int" where
  "pending h n = (case h_nodes h n of None \<Rightarrow> 0 | Some nd \<Rightarrow> nd_not_evaluated_children nd)"

text \<open>The part of a node that never changes once the tree is built.\<close>

definition static_part :: "heap \<Rightarrow> nid \<Rightarrow> (string \<times> NodeType \<times> int \<times> nid option \<times> nid list) option" where
  "static_part h n = map_option
     (\<lambda>nd. (nd_name nd, nd_type nd, nd_size nd, nd_parent nd, nd_children nd)) (h_nodes h n)"

definition same_tree :: "heap \<Rightarrow> heap \<Rightarrow> bool" where
  "same_tree h h' \<longleftrightarrow> static_part h' = static_part h \<and> h_next_node h' = h_next_node h"

lemma same_tree_refl [simp]: "same_tree h h"
  by (simp add: same_tree_def)

lemma same_tree_trans [trans]: "same_tree h h' \<Longrightarrow> same_tree h' h'' \<Longrightarrow> same_tree h h''"
  by (simp add: same_tree_def)

lemma same_treeD:
  assumes "same_tree h h'"
  shows "children_of h' = children_of h" and "parent_of h' = parent_of h"
    and "dom (h_nodes h') = dom (h_nodes h)" and "h_next_node h' = h_next_node h"
proof -
  have s: "static_part h' n = static_part h n" for n
    using assms by (simp add: same_tree_def)
  show "children_of h' = children_of h"
  proof
    fix n show "children_of h' n = children_of h n"
      using s [of n] by (auto simp: static_part_def children_of_def split: option.splits)
  qed
  show "parent_of h' = parent_of h"
  proof
    fix n show "parent_of h' n = parent_of h n"
      using s [of n] by (cases "h_nodes h n"; cases "h_nodes h' n")
        (auto simp: static_part_def parent_of_def)
  qed
  have "h_nodes h' n = None \<longleftrightarrow> h_nodes h n = None" for n
    using s [of n] by (cases "h_nodes h n"; cases "h_nodes h' n") (auto simp: static_part_def)
  then show "dom (h_nodes h') = dom (h_nodes h)" by (auto simp: dom_def)
  show "h_next_node h' = h_next_node h" using assms by (simp add: same_tree_def)
qed

lemma same_tree_node:
  assumes "same_tree h h'" and "h_nodes h n = Some nd"
  shows "\<exists>nd'. h_nodes h' n = Some nd' \<and> nd_name nd' = nd_name nd \<and> nd_type nd' = nd_type nd \<and>
    nd_size nd' = nd_size nd \<and> nd_parent nd' = nd_parent nd \<and> nd_children nd' = nd_children nd"
proof -
  have "static_part h' n = static_part h n"
    using assms(1) by (simp add: same_tree_def)
  with assms(2) show ?thesis by (auto simp: static_part_def)
qed

section \<open>Views after an update\<close>

named_theorems view_simps \<open>views of an updated heap\<close>

lemma nodes_upd_node [view_simps]:
  "h_nodes (upd_node i f h) n = (if n = i then map_option f (h_nodes h n) else h_nodes h n)"
  by (simp add: upd_node_def)

lemma nodes_upd_class [view_simps]: "h_nodes (upd_class c f h) = h_nodes h"
  by (simp add: upd_class_def)

lemma classes_upd_node [view_simps]: "h_classes (upd_node i f h) = h_classes h"
  by (simp add: upd_node_def)

lemma classes_upd_class [view_simps]:
  "h_classes (upd_class c f h) d = (if d = c then map_option f (h_classes h d) else h_classes h d)"
  by (simp add: upd_class_def)

lemma next_upd [view_simps]:
  "h_next_node (upd_node i f h) = h_next_node h" "h_next_class (upd_node i f h) = h_next_class h"
  "h_next_node (upd_class c g h) = h_next_node h" "h_next_class (upd_class c g h) = h_next_class h"
  by (simp_all add: upd_node_def upd_class_def)

lemma dom_upd [view_simps]:
  "dom (h_nodes (upd_node i f h)) = dom (h_nodes h)"
  "dom (h_classes (upd_class c g h)) = dom (h_classes h)"
  by (auto simp: view_simps split: if_splits)

lemma views_upd_class [view_simps]:
  "children_of (upd_class c g h) = children_of h"
  "parent_of (upd_class c g h) = parent_of h"
  "class_of (upd_class c g h) = class_of h"
  "pending (upd_class c g h) = pending h"
  "static_part (upd_class c g h) = static_part h"
  by (simp_all add: fun_eq_iff children_of_def parent_of_def class_of_def static_part_def pending_def view_simps)

lemma views_upd_node [view_simps]:
  "members (upd_node i f h) = members h"
  "weight_of (upd_node i f h) = weight_of h"
  by (simp_all add: fun_eq_iff members_def weight_of_def view_simps)

lemma children_of_upd [view_simps]:
  "(\<And>x. nd_children (f x) = nd_children x) \<Longrightarrow> children_of (upd_node i f h) = children_of h"
  by (auto simp: fun_eq_iff children_of_def view_simps split: option.split)

lemma parent_of_upd [view_simps]:
  "(\<And>x. nd_parent (f x) = nd_parent x) \<Longrightarrow> parent_of (upd_node i f h) = parent_of h"
  by (auto simp: fun_eq_iff parent_of_def view_simps split: option.split bind_split)

lemma class_of_upd [view_simps]:
  "(\<And>x. nd_eq_class (f x) = nd_eq_class x) \<Longrightarrow> class_of (upd_node i f h) = class_of h"
  by (auto simp: fun_eq_iff class_of_def view_simps split: option.split bind_split)

lemma pending_upd [view_simps]:
  "(\<And>x. nd_not_evaluated_children (f x) = nd_not_evaluated_children x) \<Longrightarrow>
    pending (upd_node i f h) = pending h"
  by (auto simp: fun_eq_iff pending_def view_simps split: option.split)

lemma static_part_upd [view_simps]:
  "(\<And>x. nd_name (f x) = nd_name x \<and> nd_type (f x) = nd_type x \<and> nd_size (f x) = nd_size x \<and>
      nd_parent (f x) = nd_parent x \<and> nd_children (f x) = nd_children x) \<Longrightarrow>
    static_part (upd_node i f h) = static_part h"
  by (auto simp: fun_eq_iff static_part_def view_simps option.map_comp comp_def)

section \<open>The invariant\<close>

definition tree_ok :: "heap \<Rightarrow> bool" where
  "tree_ok h \<longleftrightarrow>
     (\<forall>n \<in> dom (h_nodes h). n < h_next_node h) \<and>
     (\<forall>n c. c \<in> set (children_of h n) \<longrightarrow> n < c \<and> c \<in> dom (h_nodes h) \<and> parent_of h c = Some n) \<and>
     (\<forall>n p. parent_of h n = Some p \<longrightarrow> n \<in> set (children_of h p)) \<and>
     (\<forall>n. distinct (children_of h n)) \<and>
     (\<forall>n nd. h_nodes h n = Some nd \<longrightarrow> nd_type nd = FILE \<longrightarrow> nd_children nd = []) \<and>
     (\<forall>n nd. h_nodes h n = Some nd \<longrightarrow> 0 \<le> nd_size nd)"

definition classes_ok :: "heap \<Rightarrow> bool" where
  "classes_ok h \<longleftrightarrow>
     (\<forall>c \<in> dom (h_classes h). c < h_next_class h) \<and>
     (\<forall>n c. class_of h n = Some c \<longleftrightarrow> n \<in> set (members h c)) \<and>
     (\<forall>c. distinct (members h c)) \<and>
     (\<forall>c. 0 \<le> weight_of h c)"

definition counters_ok :: "heap \<Rightarrow> bool" where
  "counters_ok h \<longleftrightarrow>
     (\<forall>n. pending h n = int (length (filter (\<lambda>c. class_of h c = None) (children_of h n)))) \<and>
     (\<forall>n c. class_of h n \<noteq> None \<longrightarrow> c \<in> set (children_of h n) \<longrightarrow> class_of h c \<noteq> None)"

definition heap_ok :: "heap \<Rightarrow> bool" where
  "heap_ok h \<longleftrightarrow> tree_ok h \<and> classes_ok h \<and> counters_ok h"

definition ready :: "heap \<Rightarrow> nid \<Rightarrow> bool" where
  "ready h n \<longleftrightarrow> (\<forall>c \<in> set (children_of h n). class_of h c \<noteq> None)"

lemma heap_okD:
  assumes "heap_ok h"
  shows "tree_ok h" and "classes_ok h" and "counters_ok h"
  using assms by (auto simp: heap_ok_def)

lemma tree_okD:
  assumes "tree_ok h"
  shows "n \<in> dom (h_nodes h) \<Longrightarrow> n < h_next_node h"
    and "c \<in> set (children_of h n) \<Longrightarrow> n < c"
    and "c \<in> set (children_of h n) \<Longrightarrow> c \<in> dom (h_nodes h)"
    and "c \<in> set (children_of h n) \<Longrightarrow> parent_of h c = Some n"
    and "parent_of h n = Some p \<Longrightarrow> n \<in> set (children_of h p)"
    and "distinct (children_of h n)"
    and "h_nodes h n = Some nd \<Longrightarrow> nd_type nd = FILE \<Longrightarrow> nd_children nd = []"
    and "h_nodes h n = Some nd \<Longrightarrow> 0 \<le> nd_size nd"
  using assms unfolding tree_ok_def by blast+

lemma tree_okI:
  assumes "\<And>n. n \<in> dom (h_nodes h) \<Longrightarrow> n < h_next_node h"
    and "\<And>n c. c \<in> set (children_of h n) \<Longrightarrow> n < c \<and> c \<in> dom (h_nodes h) \<and> parent_of h c = Some n"
    and "\<And>n p. parent_of h n = Some p \<Longrightarrow> n \<in> set (children_of h p)"
    and "\<And>n. distinct (children_of h n)"
    and "\<And>n nd. h_nodes h n = Some nd \<Longrightarrow> nd_type nd = FILE \<Longrightarrow> nd_children nd = []"
    and "\<And>n nd. h_nodes h n = Some nd \<Longrightarrow> 0 \<le> nd_size nd"
  shows "tree_ok h"
  using assms unfolding tree_ok_def by blast

lemma classes_okD:
  assumes "classes_ok h"
  shows "c \<in> dom (h_classes h) \<Longrightarrow> c < h_next_class h"
    and "class_of h n = Some c \<longleftrightarrow> n \<in> set (members h c)"
    and "distinct (members h c)"
    and "0 \<le> weight_of h c"
  using assms unfolding classes_ok_def by blast+

lemma children_of_dom: "c \<in> set (children_of h n) \<Longrightarrow> n \<in> dom (h_nodes h)"
  by (cases "h_nodes h n") (auto simp: children_of_def)

lemma children_of_node [simp]: "h_nodes h n = Some nd \<Longrightarrow> children_of h n = nd_children nd"
  by (simp add: children_of_def)

lemma parent_of_node [simp]: "h_nodes h n = Some nd \<Longrightarrow> parent_of h n = nd_parent nd"
  by (simp add: parent_of_def)

lemma class_of_node [simp]: "h_nodes h n = Some nd \<Longrightarrow> class_of h n = nd_eq_class nd"
  by (simp add: class_of_def)

lemma class_of_dom: "class_of h n = Some c \<Longrightarrow> n \<in> dom (h_nodes h)"
  by (cases "h_nodes h n") (auto simp: class_of_def)

lemma members_dom: "n \<in> set (members h c) \<Longrightarrow> c \<in> dom (h_classes h)"
  by (cases "h_classes h c") (auto simp: members_def)

lemma parent_of_dom: "parent_of h n = Some p \<Longrightarrow> n \<in> dom (h_nodes h)"
  by (cases "h_nodes h n") (auto simp: parent_of_def)

text \<open>The counter test of the code is the absence of children without a class.\<close>

lemma IsReadyToEvaluate_iff:
  assumes "counters_ok h" and "h_nodes h n = Some nd"
  shows "IsReadyToEvaluate nd \<longleftrightarrow> ready h n"
proof -
  have "pending h n = nd_not_evaluated_children nd"
    using assms(2) by (simp add: pending_def)
  with assms(1) show ?thesis
    by (auto simp: counters_ok_def IsReadyToEvaluate_def ready_def filter_empty_conv)
qed

lemma IsEvaluated_iff: "h_nodes h n = Some nd \<Longrightarrow> IsEvaluated nd \<longleftrightarrow> class_of h n \<noteq> None"
  by (simp add: IsEvaluated_def)

lemma evaluated_ready: "counters_ok h \<Longrightarrow> class_of h n \<noteq> None \<Longrightarrow> ready h n"
  by (auto simp: counters_ok_def ready_def)

text \<open>A node has at most one parent.\<close>

lemma one_parent:
  "tree_ok h \<Longrightarrow> n \<in> set (children_of h p) \<Longrightarrow> n \<in> set (children_of h q) \<Longrightarrow> p = q"
  using tree_okD(4) [of h n p] tree_okD(4) [of h n q] by simp

lemma empty_heap_ok: "heap_ok empty_heap"
  by (simp add: heap_ok_def tree_ok_def classes_ok_def counters_ok_def empty_heap_def
      children_of_def parent_of_def class_of_def members_def weight_of_def pending_def)

end
