(* ===== verification/Fuzzy_Dedup.thy ===== *)
theory Fuzzy_Dedup
  imports File_Tree Tree_Invariant
begin

text \<open>
  Duplicate detection on one directory tree (src/src/fuzzy_dedup.h, src/src/fuzzy_dedup.cpp):
  classification of files by checksum and of empty directories, the work-list propagation of
  classes towards the root, the sorting of the classes, the uniqueness fractions and the choice
  of the classes to print. Every recursion along the tree takes a bound on its depth.
\<close>

section \<open>Leaves\<close>

definition classify_empty_dir :: "dedup_env \<Rightarrow> cid \<Rightarrow> nid \<Rightarrow> heap \<times> unit \<Rightarrow> (heap \<times> unit) res" where
  "classify_empty_dir env eq_class node st =
     (let h = fst st in
      deref (h_nodes h node) (\<lambda>nd.
        if IsEmptyDir nd then rbind (AddNode env eq_class node h) (\<lambda>h'. Inr (h', ()))
        else Inr st))"

definition ClassifyEmptyDirs :: "dedup_env \<Rightarrow> nat \<Rightarrow> nid \<Rightarrow> heap \<Rightarrow> (cid \<times> heap) res" where
  "ClassifyEmptyDirs env k node h =
     (let (eq_class, h1) = new_EqClass h in
      rbind (Traverse k (classify_empty_dir env eq_class) node (h1, ()))
        (\<lambda>st. Inr (eq_class, fst st)))"

text \<open>\<open>Sum2Node\<close>, an \<open>unordered_multimap\<close>: the list of its entries in iteration order. Entries
  with the same key are adjacent, so \<open>equal_range\<close> of the current key ends where the run of that
  key ends.\<close>

type_synonym sum2node = "(Cksum \<times> nid) list"

function classify_groups ::
  "dedup_env \<Rightarrow> sum2node \<Rightarrow> cid list \<Rightarrow> heap \<Rightarrow> (cid list \<times> heap) res" where
  "classify_groups env [] res h = Inr (res, h)"
| "classify_groups env ((ck, node) # rest) res h =
     (let (eq_class, h1) = new_EqClass h;
          group = (ck, node) # takeWhile (\<lambda>e. fst e = ck) rest
      in rbind (foldR (\<lambda>e. AddNode env eq_class (snd e)) group h1)
           (\<lambda>h2. classify_groups env (dropWhile (\<lambda>e. fst e = ck) rest) (res @ [eq_class]) h2))"
  by pat_completeness auto
termination
  by (relation "measure (\<lambda>(env, es, res, h). length es)")
     (auto simp: le_imp_less_Suc length_dropWhile_le)

definition ClassifyDuplicateFiles ::
  "dedup_env \<Rightarrow> sum2node \<Rightarrow> heap \<Rightarrow> (cid list \<times> heap) res" where
  "ClassifyDuplicateFiles env sum_2_node h = classify_groups env sum_2_node [] h"

section \<open>Propagation\<close>

definition collect_ready :: "nid \<Rightarrow> heap \<times> nid list \<Rightarrow> (heap \<times> nid list) res" where
  "collect_ready node st =
     deref (h_nodes (fst st) node) (\<lambda>nd.
       Inr (if IsReadyToEvaluate nd \<and> \<not> IsEvaluated nd then (fst st, snd st @ [node]) else st))"

definition GetNodesReadyToEval :: "nat \<Rightarrow> nid \<Rightarrow> heap \<Rightarrow> nid list res" where
  "GetNodesReadyToEval k node h =
     rbind (Traverse k collect_ready node (h, [])) (\<lambda>st. Inr (snd st))"

fun closest_loop :: "dedup_env \<Rightarrow> heap \<Rightarrow> nid \<Rightarrow> nid list \<Rightarrow> nid \<times> rat \<Rightarrow> (nid \<times> rat) res" where
  "closest_loop env h ref [] best = Inr best"
| "closest_loop env h ref (it # its) (min_it, min_dist) =
     rassert (it \<noteq> ref) ''*it != &ref'' (
     deref (h_nodes h it) (\<lambda>nd.
     rassert (IsEvaluated nd) ''(*it)->IsEvaluated()'' (
       rbind (NodeDistance env h ref it) (\<lambda>distance.
       rassert (distance < dbl (11 / 10)) ''distance < 1.1'' (
         if distance < min_dist then closest_loop env h ref its (it, distance)
         else closest_loop env h ref its (min_it, min_dist))))))"

text \<open>\<open>candidates.begin()\<close> is dereferenced without a check.\<close>

definition GetClosestNode :: "dedup_env \<Rightarrow> heap \<Rightarrow> nid \<Rightarrow> nid list \<Rightarrow> (nid \<times> rat) res" where
  "GetClosestNode env h ref candidates =
     (case candidates of
        [] \<Rightarrow> Inl (Undefined ''dereference of candidates.end()'')
      | min_it # its \<Rightarrow>
          rbind (NodeDistance env h ref min_it) (\<lambda>min_dist.
            closest_loop env h ref its (min_it, min_dist)))"

definition new_class_with ::
  "dedup_env \<Rightarrow> nid \<Rightarrow> cid list \<Rightarrow> heap \<Rightarrow> (cid list \<times> heap) res" where
  "new_class_with env node eq_classes h =
     (let (c, h1) = new_EqClass h in
      rbind (AddNode env c node h1) (\<lambda>h2. Inr (eq_classes @ [c], h2)))"

text \<open>The classification of one node, the body of the work-list loop up to the last step.\<close>

definition classify_node ::
  "dedup_env \<Rightarrow> nid \<Rightarrow> cid list \<Rightarrow> heap \<Rightarrow> (cid list \<times> heap) res" where
  "classify_node env node eq_classes h =
     rbind (GetPossibleEquivalents env h node) (\<lambda>possible_equivalents.
       if possible_equivalents \<noteq> [] then
         rbind (GetClosestNode env h node possible_equivalents) (\<lambda>(min_elem, dist).
           if dist < dbl (of_int (conf_tolerable_diff_pct (env_conf env)) / 100) then
             deref (h_nodes h min_elem) (\<lambda>md.
             rbind (GetEqClass md) (\<lambda>c.
             rbind (AddNode env c node h) (\<lambda>h'. Inr (eq_classes, h'))))
           else new_class_with env node eq_classes h)
       else new_class_with env node eq_classes h)"

definition parent_ready :: "heap \<Rightarrow> nid option \<Rightarrow> bool res" where
  "parent_ready h p =
     (case p of None \<Rightarrow> Inr False | Some p' \<Rightarrow> deref (h_nodes h p') (\<lambda>pd. Inr (IsReadyToEvaluate pd)))"

fun propagate_loop ::
  "nat \<Rightarrow> dedup_env \<Rightarrow> nid list \<Rightarrow> cid list \<Rightarrow> heap \<Rightarrow> (cid list \<times> heap) res" where
  "propagate_loop k env [] eq_classes h = Inr (eq_classes, h)"
| "propagate_loop 0 env (node # queue) eq_classes h = Inl OutOfFuel"
| "propagate_loop (Suc k) env (node # queue) eq_classes h =
     deref (h_nodes h node) (\<lambda>nd.
     rassert (IsReadyToEvaluate nd) ''node->IsReadyToEvaluate()'' (
     rassert (\<not> IsEvaluated nd) ''!node->IsEvaluated()'' (
     rbind (parent_ready h (nd_parent nd)) (\<lambda>ready.
     rassert (\<not> ready) ''!node->GetParent()->IsReadyToEvaluate()'' (
       rbind (classify_node env node eq_classes h) (\<lambda>(eq_classes', h').
       rbind (parent_ready h' (nd_parent nd)) (\<lambda>ready'.
         propagate_loop k env (if ready' then queue @ [the (nd_parent nd)] else queue)
           eq_classes' h')))))))"

definition PropagateEquivalence ::
  "nat \<Rightarrow> dedup_env \<Rightarrow> nid \<Rightarrow> cid list \<Rightarrow> heap \<Rightarrow> (cid list \<times> heap) res" where
  "PropagateEquivalence k env root_node eq_classes h =
     rbind (GetNodesReadyToEval k root_node h) (\<lambda>ready_to_eval.
     rbind (propagate_loop k env ready_to_eval eq_classes h) (\<lambda>(eq_classes', h').
       deref (h_nodes h' root_node) (\<lambda>nd.
         rassert (IsEvaluated nd) ''root_node.IsEvaluated()'' (Inr (eq_classes', h')))))"

section \<open>Sorting, uniqueness and the interesting classes\<close>

text \<open>\<open>std::sort\<close> by descending weight.\<close>

definition SortEqClasses :: "dedup_env \<Rightarrow> heap \<Rightarrow> cid list \<Rightarrow> cid list" where
  "SortEqClasses env h eq_classes = env_sort env (\<lambda>a b. weight_of h b < weight_of h a) eq_classes"

definition HasDuplicateElsewhere :: "heap \<Rightarrow> nid \<Rightarrow> nid list \<Rightarrow> bool res" where
  "HasDuplicateElsewhere h n not_here =
     deref (h_nodes h n) (\<lambda>nd. rbind (GetEqClass nd) (\<lambda>c. deref (h_classes h c) (\<lambda>ec.
       Inr (\<exists>sibling \<in> set (ec_nodes ec). sibling \<notin> set not_here))))"

text \<open>The loop that adds up \<open>total_weight\<close> and \<open>unique_weight\<close>.\<close>

definition add_uniqueness ::
  "dedup_env \<Rightarrow> heap \<Rightarrow> nid list \<Rightarrow> nid \<Rightarrow> rat \<times> rat \<Rightarrow> (rat \<times> rat) res" where
  "add_uniqueness env h descendant_nodes desc ws =
     rbind (GetWeight env h desc) (\<lambda>w.
     rbind (HasDuplicateElsewhere h desc descendant_nodes) (\<lambda>dup.
       Inr (dbl (fst ws + w), if \<not> dup then dbl (snd ws + w) else snd ws)))"

fun CalculateUniqueness :: "nat \<Rightarrow> dedup_env \<Rightarrow> nid \<Rightarrow> heap \<Rightarrow> (nid list \<times> heap) res" where
  "CalculateUniqueness 0 env node h = Inl OutOfFuel"
| "CalculateUniqueness (Suc k) env node h =
     deref (h_nodes h node) (\<lambda>nd.
     rassert (IsEvaluated nd) ''node.IsEvaluated()'' (
       case nd_type nd of
         FILE \<Rightarrow>
           rbind (GetEqClass nd) (\<lambda>c. deref (h_classes h c) (\<lambda>ec.
             Inr ([node], upd_node node (\<lambda>x. x\<lparr>nd_unique_fraction := Some (if ec_IsSingle ec then 1 else 0)\<rparr>) h)))
       | DIR \<Rightarrow>
           rbind (foldR (\<lambda>child (descendant_nodes, h).
               rbind (CalculateUniqueness k env child h) (\<lambda>(child_nodes, h').
                 Inr (fold set_insert child_nodes descendant_nodes, h'))) (nd_children nd) ([], h))
             (\<lambda>(descendant_nodes, h1).
           rbind (foldR (add_uniqueness env h1 descendant_nodes) (env_node_order env descendant_nodes) (0, 0))
             (\<lambda>(total_weight, unique_weight).
             let f = (if total_weight = 0 then 0 else dbl (unique_weight / total_weight)) in
             Inr (env_node_order env descendant_nodes,
               upd_node node (\<lambda>x. x\<lparr>nd_unique_fraction := Some f\<rparr>) h1)))))"

text \<open>One member in the inner loop of \<open>GetInteresingEqClasses\<close>; the flag is
  \<open>all_parents_are_dups\<close>.\<close>

definition check_parent :: "heap \<Rightarrow> nid \<Rightarrow> bool \<Rightarrow> bool res" where
  "check_parent h node all_dups =
     deref (h_nodes h node) (\<lambda>nd.
       case nd_parent nd of
         None \<Rightarrow> Inr False
       | Some p \<Rightarrow>
           deref (h_nodes h p) (\<lambda>pd. rbind (GetEqClass pd) (\<lambda>c. deref (h_classes h c) (\<lambda>ec.
             Inr (if ec_IsSingle ec then False else all_dups)))))"

fun GetInteresingEqClasses :: "heap \<Rightarrow> cid list \<Rightarrow> cid list res" where
  "GetInteresingEqClasses h [] = Inr []"
| "GetInteresingEqClasses h (eq_class # cs) =
     deref (h_classes h eq_class) (\<lambda>ec.
     rassert (ec_nodes ec \<noteq> []) ''!eq_class->nodes_.empty()'' (
       if length (ec_nodes ec) = 1 then GetInteresingEqClasses h cs
       else rbind (foldR (check_parent h) (ec_nodes ec) True) (\<lambda>all_parents_are_dups.
         if all_parents_are_dups then GetInteresingEqClasses h cs
         else rbind (GetInteresingEqClasses h cs) (\<lambda>res. Inr (eq_class # res)))))"

end
