(* ===== verification/Tree_Operations.thy ===== *)
theory Tree_Operations
  imports Tree_Invariant "HOL-Library.Multiset"
begin

text \<open>
  Every operation of \<open>Node\<close> and \<open>EqClass\<close> on a heap that satisfies the invariant of
  Tree_Invariant: it fires no assertion, dereferences no dangling pointer, has the stated effect
  and keeps the invariant.
\<close>

section \<open>The iteration orders of unordered containers\<close>

text \<open>What C++ promises for the iteration of an \<open>unordered_multimap\<close>: entries with the same
  key are adjacent.\<close>

fun grouped :: "('k \<times> 'v) list \<Rightarrow> bool" where
  "grouped [] = True"
| "grouped (e # es) \<longleftrightarrow> grouped es \<and> (fst e \<in> fst ` set es \<longrightarrow> fst (hd es) = fst e)"

lemma sorted_grouped: "sorted (map fst es) \<Longrightarrow> grouped es"
proof (induction es)
  case (Cons e es)
  then show ?case by (cases es) (auto intro: antisym)
qed simp

text \<open>What \<open>std::sort\<close> requires of a comparison, and a sort that works with every such comparison.\<close>

definition strict_weak :: "('a \<Rightarrow> 'a \<Rightarrow> bool) \<Rightarrow> bool" where
  "strict_weak lt \<longleftrightarrow>
     (\<forall>x y. lt x y \<longrightarrow> \<not> lt y x) \<and> (\<forall>x y z. lt x z \<longrightarrow> lt x y \<or> lt y z)"

lemma strict_weak_key: "strict_weak (\<lambda>x y. (key y :: 'b :: linorder) < key x)"
  by (auto simp: strict_weak_def)

fun insert_by :: "('a \<Rightarrow> 'a \<Rightarrow> bool) \<Rightarrow> 'a \<Rightarrow> 'a list \<Rightarrow> 'a list" where
  "insert_by lt x [] = [x]"
| "insert_by lt x (y # ys) = (if lt y x then y # insert_by lt x ys else x # y # ys)"

definition sort_by :: "('a \<Rightarrow> 'a \<Rightarrow> bool) \<Rightarrow> 'a list \<Rightarrow> 'a list" where
  "sort_by lt xs = foldr (insert_by lt) xs []"

lemma mset_insert_by [simp]: "mset (insert_by lt x xs) = add_mset x (mset xs)"
  by (induction xs) auto

lemma insert_by_sorted:
  assumes "strict_weak lt" and "sorted_wrt (\<lambda>x y. \<not> lt y x) xs"
  shows "sorted_wrt (\<lambda>x y. \<not> lt y x) (insert_by lt x xs)"
  using assms(2)
proof (induction xs)
  case (Cons y ys)
  have set: "set (insert_by lt x ys) = insert x (set ys)"
    by (metis mset_insert_by set_mset_add_mset_insert set_mset_mset)
  show ?case
  proof (cases "lt y x")
    case True
    then have "\<not> lt x y" using assms(1) unfolding strict_weak_def by blast
    with True Cons set show ?thesis by simp
  next
    case False
    then have "\<not> lt z x" if "\<not> lt z y" for z
      using that assms(1) unfolding strict_weak_def by blast
    with False Cons.prems show ?thesis by simp
  qed
qed simp

lemma sort_by_ok: "mset (sort_by lt xs) = mset xs"
    "strict_weak lt \<Longrightarrow> sorted_wrt (\<lambda>x y. \<not> lt y x) (sort_by lt xs)"
  by (induction xs) (simp_all add: sort_by_def insert_by_sorted)

text \<open>All that the code relies on: an unordered container is iterated over its elements, each
  once; a sorted vector has the same elements, and none comes after a greater one.\<close>

locale unordered_env =
  fixes env :: dedup_env
  assumes class_order: "mset (env_class_order env cs) = mset cs"
    and node_order: "mset (env_node_order env ns) = mset ns"
    and sum_order: "mset (env_sum_order env es) = mset es"
    and sum_order_grouped: "grouped (env_sum_order env es)"
    and sort_mset: "strict_weak lt \<Longrightarrow> mset (env_sort env lt xs) = mset xs"
    and sort_sorted: "strict_weak lt \<Longrightarrow> sorted_wrt (\<lambda>x y. \<not> lt y x) (env_sort env lt xs)"
begin

text \<open>Sorting by descending key.\<close>

lemma sort_descending:
  fixes key :: "nat \<Rightarrow> rat" and xs :: "nat list"
  defines "ys \<equiv> env_sort env (\<lambda>a b. key b < key a) xs"
  shows "mset ys = mset xs" and "sorted_wrt (\<lambda>a b. key b \<le> key a) ys" and "set ys = set xs"
    and "distinct ys = distinct xs"
proof -
  show m: "mset ys = mset xs" unfolding ys_def by (rule sort_mset [OF strict_weak_key])
  show "set ys = set xs" using m by (rule mset_eq_setD)
  show "distinct ys = distinct xs" using m by (rule mset_eq_imp_distinct_iff)
  show "sorted_wrt (\<lambda>a b. key b \<le> key a) ys"
    using sort_sorted [OF strict_weak_key, of key xs] unfolding ys_def by (simp add: not_less)
qed

lemma set_class_order [simp]: "set (env_class_order env cs) = set cs"
  using class_order by (metis set_mset_mset)

lemma set_node_order [simp]: "set (env_node_order env ns) = set ns"
  using node_order by (metis set_mset_mset)

lemma distinct_class_order [simp]: "distinct (env_class_order env cs) = distinct cs"
  using class_order by (metis mset_eq_imp_distinct_iff)

lemma distinct_node_order [simp]: "distinct (env_node_order env ns) = distinct ns"
  using node_order by (metis mset_eq_imp_distinct_iff)

end

text \<open>The sets iterated in the order of insertion, the multimap in the order of its keys; an insertion
  sort.\<close>

definition insertion_env :: "GlobalConfig \<Rightarrow> dedup_env" where
  "insertion_env conf = \<lparr>env_conf = conf, env_class_order = \<lambda>cs. cs, env_node_order = \<lambda>ns. ns,
     env_sum_order = sort_key fst, env_sort = sort_by\<rparr>"

interpretation insertion: unordered_env "insertion_env conf"
  by unfold_locales (simp_all add: insertion_env_def sorted_grouped sort_by_ok)

section \<open>Weights\<close>

lemma set_set_insert [simp]: "set (set_insert x xs) = insert x (set xs)"
  by (auto simp: set_insert_def)

lemma distinct_set_insert [simp]: "distinct (set_insert x xs) = distinct xs"
  by (simp add: set_insert_def)

lemma set_fold_insert [simp]: "set (fold set_insert xs acc) = set xs \<union> set acc"
  by (induction xs arbitrary: acc) auto

lemma distinct_fold_insert [simp]: "distinct (fold set_insert xs acc) = distinct acc"
  by (induction xs arbitrary: acc) auto

text \<open>The sum a loop of floating point additions computes.\<close>

definition dbl_sum :: "rat list \<Rightarrow> rat \<Rightarrow> rat" where
  "dbl_sum ws acc = fold (\<lambda>w a. dbl (a + w)) ws acc"

lemma dbl_sum_simps [simp]:
  "dbl_sum [] acc = acc" "dbl_sum (w # ws) acc = dbl_sum ws (dbl (acc + w))"
  by (simp_all add: dbl_sum_def)

lemmas dbl_nonneg = ieee.rnd_nonneg

lemma dbl_sum_nonneg: "(\<forall>w \<in> set ws. 0 \<le> w) \<Longrightarrow> 0 \<le> acc \<Longrightarrow> 0 \<le> dbl_sum ws acc"
  by (induction ws arbitrary: acc) (auto simp: dbl_nonneg)

definition child_classes :: "heap \<Rightarrow> nid \<Rightarrow> cid option list" where
  "child_classes h n = fold set_insert (map (class_of h) (children_of h n)) []"

text \<open>The weight of a node as a function: the weight of its class, or else that of a leaf, or
  else the sum of the weights of the different classes of its children.\<close>

definition node_weight :: "dedup_env \<Rightarrow> heap \<Rightarrow> nid \<Rightarrow> rat" where
  "node_weight env h n =
     (case class_of h n of
        Some c \<Rightarrow> weight_of h c
      | None \<Rightarrow>
          (case h_nodes h n of
             None \<Rightarrow> 0
           | Some nd \<Rightarrow>
               (case nd_type nd of
                  FILE \<Rightarrow> if conf_use_size (env_conf env) then dbl (of_int (nd_size nd)) else 1
                | DIR \<Rightarrow> dbl_sum (map (\<lambda>c. weight_of h (the c))
                    (env_class_order env (child_classes h n))) 0)))"

text \<open>The weaker invariant that also holds between the two halves of \<open>AddNode\<close>.\<close>

definition pointers_ok :: "heap \<Rightarrow> bool" where
  "pointers_ok h \<longleftrightarrow>
     (\<forall>n. set (children_of h n) \<subseteq> dom (h_nodes h)) \<and>
     (\<forall>n c. class_of h n = Some c \<longrightarrow> c \<in> dom (h_classes h))"

lemma pointers_okD:
  assumes "pointers_ok h"
  shows "m \<in> set (children_of h n) \<Longrightarrow> m \<in> dom (h_nodes h)"
    and "class_of h n = Some c \<Longrightarrow> c \<in> dom (h_classes h)"
  using assms unfolding pointers_ok_def by blast+

lemma class_of_valid: "classes_ok h \<Longrightarrow> class_of h n = Some c \<Longrightarrow> c \<in> dom (h_classes h)"
  using classes_okD(2) members_dom by blast

lemma heap_ok_pointers: "heap_ok h \<Longrightarrow> pointers_ok h"
  unfolding pointers_ok_def
  by (blast dest: heap_okD tree_okD(3) class_of_valid)

lemma insert_child_classes_eq:
  "(\<And>n. n \<in> set ns \<Longrightarrow> class_of h n \<noteq> None) \<Longrightarrow>
    insert_child_classes h ns acc = Inr (fold set_insert (map (class_of h) ns) acc)"
proof (induction ns arbitrary: acc)
  case (Cons n ns)
  from Cons.prems [of n] obtain nd where nd: "h_nodes h n = Some nd" "nd_eq_class nd \<noteq> None"
    by (cases "h_nodes h n") (auto simp: class_of_def)
  with Cons show ?case by (simp add: IsEvaluated_def)
qed simp

lemma add_weights_eq:
  "(\<And>c. c \<in> set cs \<Longrightarrow> \<exists>d. c = Some d \<and> d \<in> dom (h_classes h)) \<Longrightarrow>
    add_weights h cs acc = Inr (dbl_sum (map (\<lambda>c. weight_of h (the c)) cs) acc)"
proof (induction cs arbitrary: acc)
  case (Cons c cs)
  from Cons.prems [of c] obtain d ec where "c = Some d" "h_classes h d = Some ec" by auto
  with Cons show ?case by (simp add: weight_of_def)
qed simp

context unordered_env
begin

lemma GetWeight_eq:
  assumes "pointers_ok h" and "n \<in> dom (h_nodes h)" and "ready h n"
  shows "GetWeight env h n = Inr (node_weight env h n)"
proof -
  obtain nd where nd: "h_nodes h n = Some nd" using assms(2) by auto
  show ?thesis
  proof (cases "nd_eq_class nd")
    case (Some c)
    then have "c \<in> dom (h_classes h)" using pointers_okD(2) [OF assms(1), of n] nd by simp
    then show ?thesis
      using nd Some by (auto simp: GetWeight_def node_weight_def IsEvaluated_def weight_of_def)
  next
    case None
    have *: "\<And>m. m \<in> set (nd_children nd) \<Longrightarrow> class_of h m \<noteq> None"
      using assms(3) nd by (auto simp: ready_def)
    have "\<exists>d. c = Some d \<and> d \<in> dom (h_classes h)"
      if "c \<in> set (env_class_order env (child_classes h n))" for c
    proof -
      from that nd obtain m where "m \<in> set (nd_children nd)" "c = class_of h m"
        by (auto simp: child_classes_def)
      with * [of m] pointers_okD(2) [OF assms(1), of m] show ?thesis by (cases "class_of h m") auto
    qed
    then have "add_weights h (env_class_order env (child_classes h n)) 0 =
        Inr (dbl_sum (map (\<lambda>c. weight_of h (the c)) (env_class_order env (child_classes h n))) 0)"
      by (rule add_weights_eq)
    moreover have "insert_child_classes h (nd_children nd) [] = Inr (child_classes h n)"
      using insert_child_classes_eq [OF *] nd by (simp add: child_classes_def)
    ultimately show ?thesis using None nd
      by (simp add: GetWeight_def node_weight_def IsEvaluated_def
          split: NodeType.split)
  qed
qed

lemma node_weight_nonneg:
  assumes "tree_ok h" and "\<And>c. 0 \<le> weight_of h c"
  shows "0 \<le> node_weight env h n"
proof -
  have "h_nodes h n = Some nd \<Longrightarrow> 0 \<le> nd_size nd" for nd
    using assms(1) by (rule tree_okD(8))
  then show ?thesis
    using assms(2)
    by (auto simp: node_weight_def dbl_nonneg intro!: dbl_sum_nonneg
        split: option.split NodeType.split)
qed

end

section \<open>\<open>AddNode\<close> and \<open>SetEqClass\<close>\<close>

text \<open>The heap after a node was put into a class whose new weight is given.\<close>

definition put_node :: "nid \<Rightarrow> cid \<Rightarrow> rat \<Rightarrow> heap \<Rightarrow> heap" where
  "put_node n c w h =
     (let h1 = upd_node n (\<lambda>x. x\<lparr>nd_eq_class := Some c\<rparr>)
        (upd_class c (\<lambda>x. x\<lparr>ec_weight := w\<rparr>) (upd_class c (\<lambda>x. x\<lparr>ec_nodes := ec_nodes x @ [n]\<rparr>) h))
      in case parent_of h n of
           None \<Rightarrow> h1
         | Some p \<Rightarrow> upd_node p (\<lambda>x. x\<lparr>nd_not_evaluated_children := nd_not_evaluated_children x - 1\<rparr>) h1)"

lemma classes_put_node [view_simps]:
  "h_classes (put_node n c w h) d =
     (if d = c then map_option (\<lambda>x. x\<lparr>ec_weight := w, ec_nodes := ec_nodes x @ [n]\<rparr>) (h_classes h c)
      else h_classes h d)"
  by (cases "h_classes h c")
    (simp_all add: put_node_def Let_def view_simps split: option.split)

lemma next_put_node [view_simps]:
  "h_next_node (put_node n c w h) = h_next_node h"
  "h_next_class (put_node n c w h) = h_next_class h"
  by (simp_all add: put_node_def Let_def view_simps split: option.split)

lemma static_put_node [view_simps]: "static_part (put_node n c w h) = static_part h"
  by (simp add: put_node_def Let_def view_simps split: option.split)

lemma same_tree_put_node [simp]: "same_tree h (put_node n c w h)"
  by (simp add: same_tree_def view_simps)

lemma class_of_put_node [view_simps]:
  "n \<in> dom (h_nodes h) \<Longrightarrow> class_of (put_node n c w h) = (class_of h)(n := Some c)"
proof -
  assume n: "n \<in> dom (h_nodes h)"
  have "class_of (upd_node n (\<lambda>x. x\<lparr>nd_eq_class := Some c\<rparr>) g) = (class_of g)(n := Some c)"
    if "n \<in> dom (h_nodes g)" for g
    using that by (auto simp: fun_eq_iff class_of_def view_simps)
  with n show ?thesis
    by (simp add: put_node_def Let_def view_simps split: option.split)
qed

lemma members_put_node [view_simps]:
  "c \<in> dom (h_classes h) \<Longrightarrow> members (put_node n c w h) = (members h)(c := members h c @ [n])"
  by (auto simp: fun_eq_iff members_def view_simps)

lemma weight_of_put_node [view_simps]:
  "c \<in> dom (h_classes h) \<Longrightarrow> weight_of (put_node n c w h) = (weight_of h)(c := w)"
  by (auto simp: fun_eq_iff weight_of_def view_simps)

lemma pending_put_node [view_simps]:
  assumes "\<And>p. parent_of h n = Some p \<Longrightarrow> p \<in> dom (h_nodes h)"
  shows "pending (put_node n c w h) m = pending h m - (if parent_of h n = Some m then 1 else 0)"
proof (cases "parent_of h n")
  case None
  then show ?thesis by (simp add: put_node_def Let_def view_simps)
next
  case (Some p)
  let ?dec = "\<lambda>x. x\<lparr>nd_not_evaluated_children := nd_not_evaluated_children x - 1\<rparr>"
  have "pending (upd_node p ?dec g) m = pending g m - (if p = m then 1 else 0)"
    if "p \<in> dom (h_nodes g)" for g
    using that by (auto simp: pending_def view_simps split: option.split)
  with assms [OF Some] Some show ?thesis
    by (simp add: put_node_def Let_def view_simps)
qed

lemma filter_length_pred:
  "distinct xs \<Longrightarrow> n \<in> set xs \<Longrightarrow> P n \<Longrightarrow>
    length (filter P xs) = Suc (length (filter (\<lambda>x. x \<noteq> n \<and> P x) xs))"
proof (induction xs)
  case (Cons x xs)
  then show ?case by (cases "x = n") (auto intro!: arg_cong [where f = length] filter_cong)
qed simp

lemma counters_put_node:
  assumes "heap_ok h" and "n \<in> dom (h_nodes h)" and "ready h n" and "class_of h n = None"
  shows "counters_ok (put_node n c w h)"
proof -
  have same: "children_of (put_node n c w h) = children_of h"
    by (rule same_treeD(1)) simp
  note tree = tree_okD [OF heap_okD(1) [OF assms(1)]]
  have up: "p \<in> dom (h_nodes h)" if "parent_of h n = Some p" for p
    using tree(5) [OF that] by (rule children_of_dom)
  have count: "pending h m = int (length (filter (\<lambda>c. class_of h c = None) (children_of h m)))" for m
    using heap_okD(3) [OF assms(1)] by (simp add: counters_ok_def)
  have pend: "pending (put_node n c w h) m = pending h m - (if parent_of h n = Some m then 1 else 0)" for m
    by (rule pending_put_node) (rule up)
  have after: "filter (\<lambda>d. class_of (put_node n c w h) d = None) xs =
      filter (\<lambda>x. x \<noteq> n \<and> class_of h x = None) xs" for xs
    using assms(2) by (intro filter_cong) (auto simp: view_simps)
  have "pending (put_node n c w h) m =
      int (length (filter (\<lambda>d. class_of (put_node n c w h) d = None) (children_of h m)))" for m
  proof (cases "parent_of h n = Some m")
    case True
    with tree(5,6) have "n \<in> set (children_of h m)" "distinct (children_of h m)" by auto
    from filter_length_pred [OF this(2,1), of "\<lambda>c. class_of h c = None"] show ?thesis
      using True assms(4) count [of m] by (simp add: pend after)
  next
    case False
    with tree(4) [of n m] have "n \<notin> set (children_of h m)" by auto
    then have "filter (\<lambda>x. x \<noteq> n \<and> class_of h x = None) (children_of h m) =
        filter (\<lambda>d. class_of h d = None) (children_of h m)"
      by (intro filter_cong) auto
    with False show ?thesis
      using count [of m] by (simp add: pend after)
  qed
  then show ?thesis
    using assms(2,3) heap_okD(3) [OF assms(1)]
    by (auto simp: counters_ok_def same view_simps ready_def)
qed

lemma same_tree_sym: "same_tree h h' \<Longrightarrow> same_tree h' h"
  by (simp add: same_tree_def)

lemma tree_ok_same:
  assumes "same_tree h h'" and "tree_ok h"
  shows "tree_ok h'"
proof -
  have old_node: "\<exists>nd. h_nodes h n = Some nd \<and> nd_type nd = nd_type nd' \<and> nd_size nd = nd_size nd' \<and>
      nd_children nd = nd_children nd'" if "h_nodes h' n = Some nd'" for n nd'
    using same_tree_node [OF same_tree_sym [OF assms(1)] that] by blast
  have "nd_children nd' = []" if "h_nodes h' n = Some nd'" "nd_type nd' = FILE" for n nd'
    using old_node [OF that(1)] that(2) tree_okD(7) [OF assms(2)] by metis
  moreover have "0 \<le> nd_size nd'" if "h_nodes h' n = Some nd'" for n nd'
    using old_node [OF that(1)] tree_okD(8) [OF assms(2)] by metis
  ultimately show ?thesis
    using assms(2) unfolding tree_ok_def same_treeD [OF assms(1)] by blast
qed

lemma classes_put_node_ok:
  assumes "heap_ok h" and "n \<in> dom (h_nodes h)" and "class_of h n = None"
    and "c \<in> dom (h_classes h)" and "0 \<le> w"
  shows "classes_ok (put_node n c w h)"
proof -
  note old = classes_okD [OF heap_okD(2) [OF assms(1)]]
  have mem: "members (put_node n c w h) = (members h)(c := members h c @ [n])"
    by (rule members_put_node) (rule assms(4))
  have cls: "class_of (put_node n c w h) = (class_of h)(n := Some c)"
    by (rule class_of_put_node) (rule assms(2))
  have fresh: "n \<notin> set (members h d)" for d
    using old(2) [of n d] assms(3) by simp
  have "d < h_next_class h" if "d \<in> dom (h_classes (put_node n c w h))" for d
    using that old(1) [of d] old(1) [of c] assms(4) by (auto simp: view_simps dom_def split: if_splits)
  moreover have "class_of (put_node n c w h) m = Some d \<longleftrightarrow> m \<in> set (members (put_node n c w h) d)" for m d
    using old(2) [of m d] fresh by (auto simp: cls mem)
  moreover have "distinct (members (put_node n c w h) d)" for d
    using old(3) [of d] fresh by (auto simp: mem)
  moreover have "0 \<le> weight_of (put_node n c w h) d" for d
    using old(4) [of d] assms(4,5) by (simp add: view_simps)
  ultimately show ?thesis
    unfolding classes_ok_def by (simp add: view_simps)
qed

lemma put_node_ok:
  assumes "heap_ok h" and "n \<in> dom (h_nodes h)" and "class_of h n = None" and "ready h n"
    and "c \<in> dom (h_classes h)" and "0 \<le> w"
  shows "heap_ok (put_node n c w h)"
  using classes_put_node_ok counters_put_node tree_ok_same [OF same_tree_put_node] assms
  by (simp add: heap_ok_def)

text \<open>The weight of a class after a node of weight \<open>w\<close> joined it: the rounded average of the
  members' weights.\<close>

definition joined_weight :: "heap \<Rightarrow> cid \<Rightarrow> rat \<Rightarrow> rat" where
  "joined_weight h c w =
     dbl (dbl (dbl (weight_of h c * dbl (of_nat (length (members h c)))) + w)
       / dbl (of_nat (Suc (length (members h c)))))"

lemma joined_weight_nonneg: "0 \<le> weight_of h c \<Longrightarrow> 0 \<le> w \<Longrightarrow> 0 \<le> joined_weight h c w"
  unfolding joined_weight_def
  by (intro dbl_nonneg divide_nonneg_nonneg add_nonneg_nonneg mult_nonneg_nonneg) simp_all

lemma SetEqClass_put:
  assumes "heap_ok h" and "h_nodes h n = Some nd" and "ready h n" and "class_of h n = None"
    and "c \<in> dom (h_classes h)"
  shows "SetEqClass n c (upd_class c (\<lambda>x. x\<lparr>ec_weight := w\<rparr>) (upd_class c (\<lambda>x. x\<lparr>ec_nodes := ec_nodes x @ [n]\<rparr>) h))
    = Inr (put_node n c w h)"
proof -
  have r: "IsReadyToEvaluate nd" "\<not> IsEvaluated nd"
    using IsReadyToEvaluate_iff [OF heap_okD(3) [OF assms(1)] assms(2)] assms(2-4)
    by (simp_all add: IsEvaluated_def)
  show ?thesis
  proof (cases "nd_parent nd")
    case None
    then show ?thesis using r assms(2) by (simp add: SetEqClass_def put_node_def view_simps)
  next
    case (Some p)
    note tree = tree_okD [OF heap_okD(1) [OF assms(1)]]
    from Some assms(2) have p: "n \<in> set (children_of h p)" using tree(5) by simp
    then obtain pd where pd: "h_nodes h p = Some pd" using children_of_dom by blast
    have "p \<noteq> n" using tree(2) [OF p] by simp
    moreover have "nd_not_evaluated_children pd \<noteq> 0"
      using IsReadyToEvaluate_iff [OF heap_okD(3) [OF assms(1)] pd] p assms(4)
      by (auto simp: ready_def IsReadyToEvaluate_def)
    ultimately show ?thesis
      using r assms(2) Some pd by (simp add: SetEqClass_def put_node_def view_simps)
  qed
qed

context unordered_env
begin

lemma node_weight_add_member:
  assumes "class_of h n = None"
  shows "node_weight env (upd_class c (\<lambda>x. x\<lparr>ec_nodes := ec_nodes x @ [n]\<rparr>) h) n = node_weight env h n"
proof -
  have w: "weight_of (upd_class c (\<lambda>x. x\<lparr>ec_nodes := ec_nodes x @ [n]\<rparr>) h) = weight_of h"
    by (auto simp: fun_eq_iff weight_of_def view_simps split: option.split)
  have cc: "child_classes (upd_class c (\<lambda>x. x\<lparr>ec_nodes := ec_nodes x @ [n]\<rparr>) h) n = child_classes h n"
    by (simp add: child_classes_def view_simps)
  show ?thesis
    unfolding node_weight_def w cc views_upd_class nodes_upd_class ..
qed

text \<open>\<open>AddNode\<close> on a node that may be evaluated and has no class yet.\<close>

lemma AddNode_eq:
  assumes "heap_ok h" and "n \<in> dom (h_nodes h)" and "ready h n" and "class_of h n = None"
    and "c \<in> dom (h_classes h)"
  shows "AddNode env c n h = Inr (put_node n c (joined_weight h c (node_weight env h n)) h)"
proof -
  obtain nd ec where nd: "h_nodes h n = Some nd" and ec: "h_classes h c = Some ec"
    using assms(2,5) by auto
  let ?h = "upd_class c (\<lambda>x. x\<lparr>ec_nodes := ec_nodes x @ [n]\<rparr>) h"
  have fresh: "n \<notin> set (ec_nodes ec)"
    using classes_okD(2) [OF heap_okD(2) [OF assms(1)], of n c] assms(4) ec
    by (simp add: members_def)
  have "pointers_ok ?h"
    using heap_ok_pointers [OF assms(1)] unfolding pointers_ok_def
    by (simp add: view_simps)
  moreover have "ready ?h n" "n \<in> dom (h_nodes ?h)"
    using assms(2,3) by (simp_all add: ready_def view_simps)
  ultimately have w: "GetWeight env ?h n = Inr (node_weight env h n)"
    using GetWeight_eq node_weight_add_member [OF assms(4)] by metis
  have eq: "upd_class c (\<lambda>x. x\<lparr>ec_nodes := ec_nodes ec @ [n]\<rparr>) h = ?h"
    by (simp add: upd_class_def ec)
  have jw: "joined_weight h c x =
      dbl (dbl (dbl (ec_weight ec * dbl (of_nat (length (ec_nodes ec @ [n]) - 1))) + x)
        / dbl (of_nat (length (ec_nodes ec @ [n]))))" for x
    by (simp add: joined_weight_def members_def weight_of_def ec)
  show ?thesis
    unfolding AddNode_def Let_def
    by (simp only: ec deref_Some fresh not_False_eq_True rassert_True eq w rbind.simps jw [symmetric])
      (rule SetEqClass_put [OF assms(1) nd assms(3,4,5)])
qed

text \<open>What the callers of \<open>AddNode\<close> use.\<close>

lemma AddNode_ok:
  assumes "heap_ok h" and "n \<in> dom (h_nodes h)" and "ready h n" and "class_of h n = None"
    and "c \<in> dom (h_classes h)"
  shows "\<exists>h'. AddNode env c n h = Inr h' \<and> heap_ok h' \<and> same_tree h h' \<and>
    class_of h' = (class_of h)(n := Some c) \<and>
    members h' = (members h)(c := members h c @ [n]) \<and>
    weight_of h' = (weight_of h)(c := joined_weight h c (node_weight env h n)) \<and>
    dom (h_classes h') = dom (h_classes h) \<and> h_next_class h' = h_next_class h"
proof -
  have "0 \<le> joined_weight h c (node_weight env h n)"
    by (intro joined_weight_nonneg node_weight_nonneg heap_okD
        classes_okD(4) [OF heap_okD(2)] assms(1))
  note keep = put_node_ok [OF assms(1,2,4,3,5) this]
  show ?thesis
    unfolding AddNode_eq [OF assms]
    using keep assms(2,5) by (auto simp: view_simps dom_def)
qed

end

section \<open>New classes and nodes\<close>

lemma new_EqClass_ok:
  assumes "heap_ok h"
  defines "h' \<equiv> snd (new_EqClass h)" and "c \<equiv> fst (new_EqClass h)"
  shows "heap_ok h'" and "same_tree h h'" and "class_of h' = class_of h"
    and "members h' = members h" and "weight_of h' = weight_of h"
    and "c \<in> dom (h_classes h')" and "c \<notin> dom (h_classes h)" and "c = h_next_class h"
    and "dom (h_classes h') = insert c (dom (h_classes h))" and "h_next_class h' = Suc (h_next_class h)"
    and "members h c = []"
proof -
  have fresh: "h_classes h (h_next_class h) = None"
    using classes_okD(1) [OF heap_okD(2) [OF assms(1)], of "h_next_class h"] by auto
  show nodes: "same_tree h h'" "class_of h' = class_of h"
    by (simp_all add: h'_def new_EqClass_def same_tree_def static_part_def class_of_def fun_eq_iff)
  show cls: "members h' = members h" "weight_of h' = weight_of h"
    using fresh by (auto simp: h'_def new_EqClass_def members_def weight_of_def fun_eq_iff)
  show "c \<in> dom (h_classes h')" "c \<notin> dom (h_classes h)" "c = h_next_class h" "members h c = []"
    "dom (h_classes h') = insert c (dom (h_classes h))" "h_next_class h' = Suc (h_next_class h)"
    using fresh by (auto simp: h'_def c_def new_EqClass_def members_def)
  have "tree_ok h'" by (rule tree_ok_same [OF nodes(1) heap_okD(1) [OF assms(1)]])
  moreover have "pending h' = pending h"
    by (simp add: h'_def new_EqClass_def pending_def fun_eq_iff)
  then have "counters_ok h'"
    using heap_okD(3) [OF assms(1)] same_treeD(1) [OF nodes(1)] nodes(2)
    by (simp add: counters_ok_def)
  moreover have "classes_ok h'"
    using heap_okD(2) [OF assms(1)] unfolding classes_ok_def nodes(2) cls
    by (auto simp: h'_def new_EqClass_def less_Suc_eq)
  ultimately show "heap_ok h'" by (simp add: heap_ok_def)
qed

lemma ready_same_tree:
  "same_tree h h' \<Longrightarrow> class_of h' = class_of h \<Longrightarrow> ready h' = ready h"
  by (simp add: ready_def fun_eq_iff same_treeD(1))

lemma new_Node_ok:
  assumes "heap_ok h" and "name \<noteq> []" and "0 \<le> sz"
  shows "\<exists>h'. new_Node type name sz h = Inr (h_next_node h, h') \<and> heap_ok h' \<and>
    h_next_node h \<notin> dom (h_nodes h) \<and> h_next_node h' = Suc (h_next_node h) \<and>
    static_part h' = (static_part h)(h_next_node h \<mapsto> (name, type, sz, None, [])) \<and>
    class_of h' = class_of h \<and> h_classes h' = h_classes h"
proof -
  let ?n = "h_next_node h"
  have fresh: "h_nodes h ?n = None"
    using tree_okD(1) [OF heap_okD(1) [OF assms(1)], of ?n] by auto
  let ?nd = "\<lparr>nd_name = name, nd_type = type, nd_size = sz, nd_parent = None,
    nd_children = [], nd_eq_class = None, nd_not_evaluated_children = 0, nd_unique_fraction = None\<rparr>"
  let ?h = "h\<lparr>h_nodes := (h_nodes h)(?n \<mapsto> ?nd), h_next_node := Suc ?n\<rparr>"
  have views: "children_of ?h = children_of h" "parent_of ?h = parent_of h"
    "class_of ?h = class_of h" "pending ?h = pending h" "members ?h = members h"
    "weight_of ?h = weight_of h"
    using fresh by (auto simp: fun_eq_iff children_of_def parent_of_def class_of_def pending_def
        members_def weight_of_def)
  note tree = tree_okD [OF heap_okD(1) [OF assms(1)]]
  have "tree_ok ?h"
  proof (rule tree_okI, unfold views)
    show "n < h_next_node ?h" if "n \<in> dom (h_nodes ?h)" for n
      using that tree(1) [of n] by (auto simp: less_Suc_eq)
    show "n < c \<and> c \<in> dom (h_nodes ?h) \<and> parent_of h c = Some n" if "c \<in> set (children_of h n)" for n c
      using tree(2-4) [OF that] by simp
    show "nd_children x = []" if "h_nodes ?h n = Some x" "nd_type x = FILE" for n x
      using that tree(7) [of n x] by (auto split: if_splits)
    show "0 \<le> nd_size x" if "h_nodes ?h n = Some x" for n x
      using that tree(8) [of n x] assms(3) by (auto split: if_splits)
  qed (use tree(5,6) in simp_all)
  moreover have "classes_ok ?h" "counters_ok ?h"
    using heap_okD(2,3) [OF assms(1)] unfolding classes_ok_def counters_ok_def views by auto
  moreover have "static_part ?h = (static_part h)(?n \<mapsto> (name, type, sz, None, []))"
    by (simp add: static_part_def fun_eq_iff)
  ultimately have "heap_ok ?h \<and> ?n \<notin> dom (h_nodes h) \<and> h_next_node ?h = Suc ?n \<and>
      static_part ?h = (static_part h)(?n \<mapsto> (name, type, sz, None, [])) \<and>
      class_of ?h = class_of h \<and> h_classes ?h = h_classes h"
    using fresh views(3) by (auto simp: heap_ok_def)
  moreover have "new_Node type name sz h = Inr (?n, ?h)"
    using assms(2) by (simp add: new_Node_def Let_def)
  ultimately show ?thesis by blast
qed

text \<open>The effect of \<open>AddChild\<close>.\<close>

definition link_child :: "nid \<Rightarrow> nid \<Rightarrow> heap \<Rightarrow> heap" where
  "link_child this child h =
     upd_node this (\<lambda>x. x\<lparr>nd_not_evaluated_children := nd_not_evaluated_children x + 1\<rparr>)
       (upd_node this (\<lambda>x. x\<lparr>nd_children := nd_children x @ [child]\<rparr>)
         (upd_node child (\<lambda>x. x\<lparr>nd_parent := Some this\<rparr>) h))"

lemma link_child_views:
  assumes "this \<in> dom (h_nodes h)" and "child \<in> dom (h_nodes h)" and "this \<noteq> child"
  shows "children_of (link_child this child h) = (children_of h)(this := children_of h this @ [child])"
    and "parent_of (link_child this child h) = (parent_of h)(child := Some this)"
    and "class_of (link_child this child h) = class_of h"
    and "pending (link_child this child h) = (pending h)(this := pending h this + 1)"
    and "h_classes (link_child this child h) = h_classes h"
    and "h_next_node (link_child this child h) = h_next_node h"
    and "h_next_class (link_child this child h) = h_next_class h"
    and "dom (h_nodes (link_child this child h)) = dom (h_nodes h)"
    and "members (link_child this child h) = members h"
    and "weight_of (link_child this child h) = weight_of h"
  using assms
  by (auto simp: link_child_def view_simps fun_eq_iff children_of_def parent_of_def class_of_def
      pending_def split: option.split bind_split)

lemma link_child_ok:
  assumes "heap_ok h" and "this \<in> dom (h_nodes h)" and "child \<in> dom (h_nodes h)" and "this < child"
    and "parent_of h child = None" and "class_of h child = None" and "class_of h this = None"
    and "\<And>nd. h_nodes h this = Some nd \<Longrightarrow> nd_type nd = DIR"
  shows "heap_ok (link_child this child h)"
proof -
  have ne: "this \<noteq> child" using assms(4) by simp
  note views = link_child_views [OF assms(2,3) ne]
  note tree = tree_okD [OF heap_okD(1) [OF assms(1)]]
  have fresh: "child \<notin> set (children_of h m)" for m
    using tree(4) [of child m] assms(5) by auto
  have node: "\<exists>nd. h_nodes h n = Some nd \<and> nd_type nd' = nd_type nd \<and> nd_size nd' = nd_size nd \<and>
      (n \<noteq> this \<longrightarrow> nd_children nd' = nd_children nd)"
    if "h_nodes (link_child this child h) n = Some nd'" for n nd'
    using that by (auto simp: link_child_def view_simps split: if_splits)
  have files: "nd_children nd' = []"
    if "h_nodes (link_child this child h) n = Some nd'" "nd_type nd' = FILE" for n nd'
    using node [OF that(1)] that(2) tree(7) [of n] assms(8) by (metis NodeType.distinct(1))
  have sizes: "0 \<le> nd_size nd'" if "h_nodes (link_child this child h) n = Some nd'" for n nd'
    using node [OF that] tree(8) [of n] by metis
  have down: "n < c \<and> c \<in> dom (h_nodes h) \<and> ((parent_of h)(child := Some this)) c = Some n"
    if "c \<in> set (((children_of h)(this := children_of h this @ [child])) n)" for n c
  proof (cases "c = child")
    case True
    with that fresh [of n] have "n = this" by (auto split: if_splits)
    with True assms(3,4) show ?thesis by simp
  next
    case False
    with that have "c \<in> set (children_of h n)" by (auto split: if_splits)
    from tree(2-4) [OF this] False show ?thesis by simp
  qed
  have up: "n \<in> set (((children_of h)(this := children_of h this @ [child])) p)"
    if "((parent_of h)(child := Some this)) n = Some p" for n p
    using that tree(5) [of n p] by (auto split: if_splits)
  have dist: "distinct (((children_of h)(this := children_of h this @ [child])) n)" for n
    using tree(6) [of n] tree(6) [of this] fresh [of this] by simp
  have "tree_ok (link_child this child h)"
    by (rule tree_okI, unfold views)
      (erule tree(1) down up files sizes | rule dist | assumption)+
  moreover have "classes_ok (link_child this child h)"
    using heap_okD(2) [OF assms(1)] unfolding classes_ok_def views .
  moreover have "counters_ok (link_child this child h)"
    using heap_okD(3) [OF assms(1)] assms(6,7) unfolding counters_ok_def views by auto
  ultimately show ?thesis by (simp add: heap_ok_def)
qed

lemma AddChild_eq:
  assumes "this \<in> dom (h_nodes h)" and "child \<in> dom (h_nodes h)"
    and "parent_of h child = None" and "class_of h child = None" and "class_of h this = None"
    and "\<And>nd. h_nodes h this = Some nd \<Longrightarrow> nd_type nd = DIR"
  shows "AddChild this child h = Inr (link_child this child h)"
  using assms by (auto simp: AddChild_def link_child_def IsEvaluated_def Let_def)

end
