(* ===== verification/Tree_Traversal.thy ===== *)
theory Tree_Traversal
  imports Tree_Operations
begin

text \<open>
  The recursions along the tree: \<open>Traverse\<close> is a loop over the nodes of the subtree in
  post-order, each once; \<open>IsAncestorOf\<close> decides reachability along the child pointers;
  \<open>BuildPath\<close> is total. A child is allocated after its parent, so the difference to the next
  free address bounds the depth.
\<close>

section \<open>The nodes below a node\<close>

definition child_rel :: "heap \<Rightarrow> (nid \<times> nid) set" where
  "child_rel h = {(p, c). c \<in> set (children_of h p)}"

fun post_order :: "nat \<Rightarrow> heap \<Rightarrow> nid \<Rightarrow> nid list" where
  "post_order 0 h n = []"
| "post_order (Suc k) h n = concat (map (post_order k h) (children_of h n)) @ [n]"

definition nodes_below :: "heap \<Rightarrow> nid \<Rightarrow> nid list" where
  "nodes_below h n = post_order (h_next_node h - n) h n"

lemma same_tree_below:
  assumes "same_tree h h'"
  shows "child_rel h' = child_rel h" and "nodes_below h' = nodes_below h"
proof -
  have "post_order k h' n = post_order k h n" for k n
    by (induction k arbitrary: n) (simp_all add: same_treeD(1) [OF assms] cong: map_cong)
  then show "nodes_below h' = nodes_below h"
    by (simp add: fun_eq_iff nodes_below_def same_treeD(4) [OF assms])
  show "child_rel h' = child_rel h"
    by (simp add: child_rel_def same_treeD(1) [OF assms])
qed

lemma child_bound:
  assumes "tree_ok h" and "c \<in> set (children_of h n)"
  shows "h_next_node h - c < h_next_node h - n" and "n < c" and "c < h_next_node h"
proof -
  show 1: "n < c" by (rule tree_okD(2) [OF assms])
  show 2: "c < h_next_node h" by (rule tree_okD(1) [OF assms(1) tree_okD(3) [OF assms]])
  show "h_next_node h - c < h_next_node h - n" using 1 2 by simp
qed

lemma post_order_fuel:
  assumes "tree_ok h"
  shows "h_next_node h - n \<le> k \<Longrightarrow> n \<in> dom (h_nodes h) \<Longrightarrow> post_order k h n = nodes_below h n"
proof (induction "h_next_node h - n" arbitrary: n k rule: less_induct)
  case less
  have pos: "n < h_next_node h" using tree_okD(1) [OF assms] less.prems(2) .
  obtain k' where k': "k = Suc k'" using less.prems(1) pos by (cases k) auto
  obtain m where m: "h_next_node h - n = Suc m" using pos by (cases "h_next_node h - n") auto
  have "post_order k' h c = post_order m h c" if c: "c \<in> set (children_of h n)" for c
  proof -
    note b = child_bound [OF assms c] and d = tree_okD(3) [OF assms c]
    have "post_order k' h c = nodes_below h c" "post_order m h c = nodes_below h c"
      using less.hyps [OF b(1) _ d] less.prems(1) b(1) k' m by simp_all
    then show ?thesis by simp
  qed
  then show ?case by (simp add: nodes_below_def k' m cong: map_cong)
qed

lemma nodes_below_rec:
  assumes "tree_ok h" and "n \<in> dom (h_nodes h)"
  shows "nodes_below h n = concat (map (nodes_below h) (children_of h n)) @ [n]"
proof -
  have "n < h_next_node h" using tree_okD(1) [OF assms] .
  then obtain m where m: "h_next_node h - n = Suc m" by (cases "h_next_node h - n") auto
  have "post_order m h c = nodes_below h c" if c: "c \<in> set (children_of h n)" for c
    using post_order_fuel [OF assms(1)] child_bound [OF assms(1) c] tree_okD(3) [OF assms(1) c] m
    by simp
  then show ?thesis by (simp add: nodes_below_def [of h n] m cong: map_cong)
qed

text \<open>Induction over a subtree, children first.\<close>

lemma tree_induct [consumes 2, case_names node]:
  assumes "tree_ok h" and "n \<in> dom (h_nodes h)"
    and "\<And>n. n \<in> dom (h_nodes h) \<Longrightarrow>
      (\<And>c. c \<in> set (children_of h n) \<Longrightarrow> P c) \<Longrightarrow> P n"
  shows "P n"
  using assms(2)
proof (induction "h_next_node h - n" arbitrary: n rule: less_induct)
  case less
  show ?case
  proof (rule assms(3) [OF less.prems])
    fix c assume c: "c \<in> set (children_of h n)"
    show "P c" by (rule less.hyps [OF child_bound(1) [OF assms(1) c] tree_okD(3) [OF assms(1) c]])
  qed
qed

lemma nodes_below_iff:
  assumes "tree_ok h" and "n \<in> dom (h_nodes h)"
  shows "m \<in> set (nodes_below h n) \<longleftrightarrow> (n, m) \<in> (child_rel h)\<^sup>*"
  using assms
proof (induction rule: tree_induct)
  case (node n)
  have "m \<in> set (nodes_below h n) \<longleftrightarrow> (\<exists>c \<in> set (children_of h n). (c, m) \<in> (child_rel h)\<^sup>*) \<or> m = n"
    using nodes_below_rec [OF assms(1) node(1)] node(2) by auto
  also have "\<dots> \<longleftrightarrow> (n, m) \<in> (child_rel h)\<^sup>*"
    by (auto simp: child_rel_def elim: converse_rtranclE intro: converse_rtrancl_into_rtrancl)
  finally show ?case .
qed

lemma below_dom:
  assumes "tree_ok h" and "n \<in> dom (h_nodes h)" and "m \<in> set (nodes_below h n)"
  shows "m \<in> dom (h_nodes h)"
  using assms
proof (induction rule: tree_induct)
  case (node n)
  from node(3) consider "m = n" | c where "c \<in> set (children_of h n)" "m \<in> set (nodes_below h c)"
    unfolding nodes_below_rec [OF assms(1) node(1)] by auto
  then show ?case using node(1,2) by cases blast+
qed

lemma below_le: "(n, m) \<in> (child_rel h)\<^sup>* \<Longrightarrow> tree_ok h \<Longrightarrow> n \<le> m"
proof (induction rule: rtrancl_induct)
  case (step y z)
  then show ?case using tree_okD(2) [of h z y] by (simp add: child_rel_def)
qed simp

lemma parent_below:
  assumes "tree_ok h" and "(a, m) \<in> (child_rel h)\<^sup>*" and "a \<noteq> m" and "m \<in> set (children_of h p)"
  shows "(a, p) \<in> (child_rel h)\<^sup>*"
  using assms(2,3)
proof (cases rule: rtranclE)
  case (step q)
  then have "q = p" using one_parent [OF assms(1) _ assms(4)] by (auto simp: child_rel_def)
  with step show ?thesis by simp
qed simp

lemma siblings_disjoint:
  assumes "tree_ok h" and "c \<in> set (children_of h n)" and "d \<in> set (children_of h n)"
    and "(c, m) \<in> (child_rel h)\<^sup>*" and "(d, m) \<in> (child_rel h)\<^sup>*"
  shows "c = d"
proof (rule ccontr)
  assume ne: "c \<noteq> d"
  have "single_valued ((child_rel h)\<inverse>)"
    using one_parent [OF assms(1)] by (auto simp: single_valued_def child_rel_def)
  from single_valued_confluent [OF this] assms(4,5)
  have "(c, d) \<in> (child_rel h)\<^sup>* \<or> (d, c) \<in> (child_rel h)\<^sup>*"
    by (auto simp: rtrancl_converse)
  then have "(c, n) \<in> (child_rel h)\<^sup>* \<or> (d, n) \<in> (child_rel h)\<^sup>*"
    using parent_below [OF assms(1)] ne assms(2,3) by metis
  then have "c \<le> n \<or> d \<le> n" using below_le assms(1) by blast
  then show False using tree_okD(2) [OF assms(1)] assms(2,3) by fastforce
qed

lemma nodes_below_distinct:
  assumes "tree_ok h" and "n \<in> dom (h_nodes h)"
  shows "distinct (nodes_below h n)"
  using assms
proof (induction rule: tree_induct)
  case (node n)
  let ?cs = "children_of h n"
  have dom: "c \<in> dom (h_nodes h)" if "c \<in> set ?cs" for c
    by (rule tree_okD(3) [OF assms(1) that])
  have disj: "set (nodes_below h c) \<inter> set (nodes_below h d) = {}"
    if "c \<in> set ?cs" "d \<in> set ?cs" "c \<noteq> d" for c d
    using siblings_disjoint [OF assms(1) that(1,2)] that dom by (auto simp: nodes_below_iff [OF assms(1)])
  have "distinct cs \<Longrightarrow> set cs \<subseteq> set ?cs \<Longrightarrow> distinct (concat (map (nodes_below h) cs))" for cs
  proof (induction cs)
    case (Cons c cs)
    then show ?case using node(2) [of c] disj [of c] by fastforce
  qed simp
  moreover have "n \<notin> set (nodes_below h c)" if c: "c \<in> set ?cs" for c
    using below_le [OF _ assms(1), of c n] tree_okD(2) [OF assms(1) c] dom [OF c]
    by (auto simp: nodes_below_iff [OF assms(1)])
  ultimately show ?case
    using nodes_below_rec [OF assms(1) node(1)] tree_okD(6) [OF assms(1)] by auto
qed

section \<open>\<open>Traverse\<close>\<close>

text \<open>A traversal whose callback does not change the tree is a loop over the nodes below.\<close>

lemma Traverse_eq:
  assumes "tree_ok h" and "n \<in> dom (h_nodes h)" and "h_next_node h - n \<le> k"
    and "same_tree h (fst st)"
    and "\<And>m st st'. same_tree h (fst st) \<Longrightarrow> callback m st = Inr st' \<Longrightarrow> same_tree h (fst st')"
  shows "Traverse k callback n st = foldR callback (nodes_below h n) st"
  using assms(1,2,3,4)
proof (induction arbitrary: k st rule: tree_induct)
  case (node n)
  obtain k' where k: "k = Suc k'"
    using node(3) tree_okD(1) [OF assms(1) node(1)] by (cases k) auto
  obtain nd where nd: "h_nodes (fst st) n = Some nd"
    using node(1) same_treeD(3) [OF node(4)] by blast
  have cs: "nd_children nd = children_of h n"
    using same_treeD(1) [OF node(4)] nd by (metis children_of_node)
  have sub: "Traverse k' callback c t = foldR callback (nodes_below h c) t"
    if "c \<in> set (children_of h n)" "same_tree h (fst t)" for c t
    using node(2) [OF that(1) _ that(2)] child_bound(1) [OF assms(1) that(1)] node(3) k by simp
  have keep: "same_tree h (fst t')" if "foldR callback xs t = Inr t'" "same_tree h (fst t)" for xs t t'
    using foldR_invariant [where P = "\<lambda>t. same_tree h (fst t)"] that assms(5) by blast
  have "foldR (Traverse k' callback) (children_of h n) st =
      foldR (\<lambda>c. foldR callback (nodes_below h c)) (children_of h n) st"
    by (rule foldR_cong_invariant [where P = "\<lambda>t. same_tree h (fst t)"])
      (use node(4) sub keep in auto)
  then show ?case
    by (simp add: k nd cs nodes_below_rec [OF assms(1) node(1)] foldR_append foldR_concat)
qed

section \<open>\<open>IsAncestorOf\<close> and \<open>BuildPath\<close>\<close>

lemma ancestor_step:
  assumes "tree_ok h" and "n \<noteq> a" and "parent_of h n = Some p"
  shows "(a, n) \<in> (child_rel h)\<^sup>* \<longleftrightarrow> (a, p) \<in> (child_rel h)\<^sup>*"
proof -
  have p: "n \<in> set (children_of h p)" using tree_okD(5) [OF assms(1,3)] .
  then have "(p, n) \<in> child_rel h" by (simp add: child_rel_def)
  then show ?thesis using parent_below [OF assms(1) _ _ p] assms(2) by (metis rtrancl.rtrancl_into_rtrancl)
qed

lemma no_ancestor:
  assumes "tree_ok h" and "parent_of h n = None"
  shows "(a, n) \<in> (child_rel h)\<^sup>* \<longleftrightarrow> a = n"
  using assms tree_okD(4) [of h n] by (auto simp: child_rel_def elim: rtranclE)

lemma IsAncestorOf_iff:
  assumes "tree_ok h"
  shows "n \<in> dom (h_nodes h) \<Longrightarrow> n < k \<Longrightarrow>
    IsAncestorOf k h a n = Inr ((a, n) \<in> (child_rel h)\<^sup>*)"
proof (induction k arbitrary: n)
  case (Suc k)
  obtain nd where nd: "h_nodes h n = Some nd" using Suc.prems(1) by auto
  show ?case
  proof (cases "nd_parent nd")
    case None
    with nd have "parent_of h n = None" by simp
    from no_ancestor [OF assms this] nd None show ?thesis
      by (auto simp: IsAncestorOf_def)
  next
    case (Some p)
    with nd have p: "parent_of h n = Some p" by simp
    note up = tree_okD(5) [OF assms p]
    have "p \<in> dom (h_nodes h)" using up by (rule children_of_dom)
    moreover have "p < k" using tree_okD(2) [OF assms up] Suc.prems(2) by simp
    ultimately have "ancestor_loop k h a (Some p) = Inr ((a, p) \<in> (child_rel h)\<^sup>*)"
      using Suc.IH [of p] by (simp add: IsAncestorOf_def)
    with ancestor_step [OF assms _ p, of a] nd Some show ?thesis
      by (auto simp: IsAncestorOf_def)
  qed
qed simp

text \<open>The nodes on the way from the root to a node.\<close>

fun lineage :: "nat \<Rightarrow> heap \<Rightarrow> nid \<Rightarrow> nid list" where
  "lineage 0 h n = []"
| "lineage (Suc k) h n = (case parent_of h n of None \<Rightarrow> [n] | Some p \<Rightarrow> lineage k h p @ [n])"

definition name_of :: "heap \<Rightarrow> nid \<Rightarrow> string" where
  "name_of h n = (case h_nodes h n of None \<Rightarrow> [] | Some nd \<Rightarrow> nd_name nd)"

fun join_path :: "'p path_api \<Rightarrow> string list \<Rightarrow> 'p" where
  "join_path P [] = p_of P []"
| "join_path P (x # xs) = fold (\<lambda>y q. p_append P q (p_of P y)) xs (p_of P x)"

lemma join_path_snoc:
  "xs \<noteq> [] \<Longrightarrow> join_path P (xs @ [x]) = p_append P (join_path P xs) (p_of P x)"
  by (cases xs) simp_all

lemma lineage_not_Nil: "lineage (Suc k) h n \<noteq> []"
  by (auto split: option.split)

lemma BuildPath_eq:
  assumes "tree_ok h"
  shows "n \<in> dom (h_nodes h) \<Longrightarrow> n < k \<Longrightarrow>
    BuildPath P k h n = Inr (join_path P (map (name_of h) (lineage k h n)))"
proof (induction k arbitrary: n)
  case (Suc k)
  obtain nd where nd: "h_nodes h n = Some nd" using Suc.prems(1) by auto
  show ?case
  proof (cases "nd_parent nd")
    case None
    with nd show ?thesis by (simp add: name_of_def)
  next
    case (Some p)
    with nd have p: "parent_of h n = Some p" by simp
    have name: "name_of h n = nd_name nd" using nd by (simp add: name_of_def)
    note up = tree_okD(5) [OF assms p]
    have d: "p \<in> dom (h_nodes h)" using up by (rule children_of_dom)
    have lt: "p < k" using tree_okD(2) [OF assms up] Suc.prems(2) by simp
    then obtain j where "k = Suc j" by (cases k) auto
    with lineage_not_Nil have "map (name_of h) (lineage k h p) \<noteq> []" by simp
    from join_path_snoc [OF this, of P "nd_name nd"] Suc.IH [OF d lt] nd Some p name show ?thesis
      by simp
  qed
qed simp

text \<open>The chain is the set of the node's ancestors, itself included.\<close>

lemma lineage_ancestors:
  assumes "tree_ok h"
  shows "n \<in> dom (h_nodes h) \<Longrightarrow> n < k \<Longrightarrow>
    a \<in> set (lineage k h n) \<longleftrightarrow> (a, n) \<in> (child_rel h)\<^sup>*"
proof (induction k arbitrary: n)
  case (Suc k)
  show ?case
  proof (cases "parent_of h n")
    case None
    then show ?thesis by (simp add: no_ancestor [OF assms None])
  next
    case (Some p)
    note up = tree_okD(5) [OF assms Some]
    have "p \<in> dom (h_nodes h)" using up by (rule children_of_dom)
    moreover have "p < k" using tree_okD(2) [OF assms up] Suc.prems(2) by simp
    ultimately show ?thesis
      using Suc.IH [of p] ancestor_step [OF assms _ Some, of a] Some by auto
  qed
qed simp

end
