(* ===== verification/Leaf_Classes.thy ===== *)
theory Leaf_Classes
  imports Fuzzy_Dedup Tree_Traversal
begin

text \<open>
  The classes of the leaves of the tree: \<open>ClassifyDuplicateFiles\<close> puts two files into one class
  exactly when they have the same checksum, \<open>ClassifyEmptyDirs\<close> puts all empty directories
  into one class.
\<close>

section \<open>Several leaves join one class\<close>

definition leaf :: "heap \<Rightarrow> nid \<Rightarrow> bool" where
  "leaf h n \<longleftrightarrow> n \<in> dom (h_nodes h) \<and> children_of h n = []"

lemma leaf_same_tree: "same_tree h h' \<Longrightarrow> leaf h' = leaf h"
  by (simp add: leaf_def fun_eq_iff same_treeD)

lemma leaf_ready: "leaf h n \<Longrightarrow> ready h n"
  by (simp add: leaf_def ready_def)

definition all_evaluated :: "heap \<Rightarrow> bool" where
  "all_evaluated h \<longleftrightarrow> (\<forall>n \<in> dom (h_nodes h). class_of h n \<noteq> None)"

text \<open>What a heap keeps when only the class structure grows.\<close>

definition grows :: "heap \<Rightarrow> heap \<Rightarrow> bool" where
  "grows h h' \<longleftrightarrow> heap_ok h' \<and> same_tree h h' \<and> dom (h_classes h) \<subseteq> dom (h_classes h') \<and>
     (\<forall>n. class_of h n \<noteq> None \<longrightarrow> class_of h' n = class_of h n)"

lemma grows_refl: "heap_ok h \<Longrightarrow> grows h h"
  by (simp add: grows_def)

lemma grows_trans: "grows h h' \<Longrightarrow> grows h' h'' \<Longrightarrow> grows h h''"
  unfolding grows_def by (metis same_tree_trans subset_trans)

lemma growsD:
  assumes "grows h h'"
  shows "heap_ok h'" and "same_tree h h'" and "dom (h_classes h) \<subseteq> dom (h_classes h')"
    and "class_of h n \<noteq> None \<Longrightarrow> class_of h' n = class_of h n"
  using assms by (simp_all add: grows_def)

context unordered_env
begin

lemma AddNodes_ok:
  assumes "heap_ok h" and "c \<in> dom (h_classes h)" and "distinct ns"
    and "\<And>n. n \<in> set ns \<Longrightarrow> leaf h n \<and> class_of h n = None"
  shows "\<exists>h'. foldR (AddNode env c) ns h = Inr h' \<and> grows h h' \<and>
    class_of h' = (\<lambda>n. if n \<in> set ns then Some c else class_of h n) \<and>
    members h' = (members h)(c := members h c @ ns) \<and>
    dom (h_classes h') = dom (h_classes h)"
proof -
  let ?I = "\<lambda>ys h'. heap_ok h' \<and> same_tree h h' \<and>
    class_of h' = (\<lambda>n. if n \<in> set ys then Some c else class_of h n) \<and>
    members h' = (members h)(c := members h c @ ys) \<and> dom (h_classes h') = dom (h_classes h)"
  have "\<exists>h'. foldR (AddNode env c) ns h = Inr h' \<and> ?I ns h'"
  proof (rule foldR_rule)
    fix ys n zs g assume split: "ns = ys @ n # zs" and inv: "?I ys g"
    have n: "leaf h n" "class_of h n = None" "n \<notin> set ys"
      using assms(3,4) split by auto
    have lg: "leaf g n" using n(1) leaf_same_tree inv by metis
    have "n \<in> dom (h_nodes g)" "ready g n" "class_of g n = None" "c \<in> dom (h_classes g)"
      using lg leaf_ready [OF lg] inv n assms(2) by (auto simp: leaf_def)
    with inv obtain g' where g': "AddNode env c n g = Inr g'" "heap_ok g'" "same_tree g g'"
      "class_of g' = (class_of g)(n := Some c)" "members g' = (members g)(c := members g c @ [n])"
      "dom (h_classes g') = dom (h_classes g)"
      using AddNode_ok [of g n c] by blast
    have "same_tree h g'" using inv g'(3) same_tree_trans by blast
    moreover have "class_of g' = (\<lambda>m. if m \<in> set (ys @ [n]) then Some c else class_of h m)"
      using inv g'(4) by (auto simp: fun_eq_iff)
    moreover have "members g' = (members h)(c := members h c @ ys @ [n])"
      using inv g'(5) by simp
    ultimately have "?I (ys @ [n]) g'" using inv g'(2,6) by simp
    with g'(1) show "\<exists>g'. AddNode env c n g = Inr g' \<and> ?I (ys @ [n]) g'" by blast
  qed (use assms(1) in simp)
  then obtain h' where h': "foldR (AddNode env c) ns h = Inr h'" "?I ns h'" by blast
  then have "class_of h' n = class_of h n" if "class_of h n \<noteq> None" for n
    using that assms(4) [of n] by auto
  then have "grows h h'" using h'(2) by (simp add: grows_def)
  with h' show ?thesis by blast
qed

end

section \<open>\<open>ClassifyDuplicateFiles\<close>\<close>

lemma grouped_dropWhile: "grouped es \<Longrightarrow> grouped (dropWhile P es)"
  by (induction es) simp_all

lemma grouped_rest:
  "grouped (e # es) \<Longrightarrow> fst e \<notin> fst ` set (dropWhile (\<lambda>x. fst x = fst e) es)"
proof (induction es)
  case (Cons x es)
  show ?case
  proof (cases "fst x = fst e")
    case True
    with Cons.prems have "grouped (e # es)"
      by (metis grouped.simps(2))
    with Cons.IH True show ?thesis by simp
  next
    case False
    with Cons.prems show ?thesis by auto
  qed
qed simp

text \<open>What the loop has done with a part of the entries.\<close>

definition classified_by_key :: "(Cksum \<times> nid) list \<Rightarrow> cid list \<Rightarrow> heap \<Rightarrow> bool" where
  "classified_by_key es cs h \<longleftrightarrow>
     (\<forall>e \<in> set es. \<exists>c \<in> set cs. class_of h (snd e) = Some c) \<and>
     (\<forall>c \<in> set cs. \<exists>e \<in> set es. class_of h (snd e) = Some c) \<and>
     (\<forall>e \<in> set es. \<forall>e' \<in> set es. class_of h (snd e) = class_of h (snd e') \<longleftrightarrow> fst e = fst e')"

lemma classified_by_key_group:
  assumes "es \<noteq> []" and "\<And>e. e \<in> set es \<Longrightarrow> fst e = k \<and> class_of h (snd e) = Some c"
  shows "classified_by_key es [c] h"
proof -
  have "\<exists>e \<in> set es. class_of h (snd e) = Some c"
    using assms by (metis list.set_sel(1))
  with assms(2) show ?thesis by (simp add: classified_by_key_def)
qed

lemma classified_by_key_append:
  assumes 1: "classified_by_key es cs h" and 2: "classified_by_key es' cs' h"
    and "set cs \<inter> set cs' = {}" and "fst ` set es \<inter> fst ` set es' = {}"
  shows "classified_by_key (es @ es') (cs @ cs') h"
proof -
  have "class_of h (snd e) \<noteq> class_of h (snd e')" "fst e \<noteq> fst e'"
    if e: "e \<in> set es" "e' \<in> set es'" for e e'
  proof -
    obtain c c' where "c \<in> set cs" "class_of h (snd e) = Some c" "c' \<in> set cs'" "class_of h (snd e') = Some c'"
      using e 1 2 unfolding classified_by_key_def by blast
    then show "class_of h (snd e) \<noteq> class_of h (snd e')" using assms(3) by auto
    show "fst e \<noteq> fst e'" using e assms(4) by (metis disjoint_iff imageI)
  qed
  then have "class_of h (snd e) = class_of h (snd e') \<longleftrightarrow> fst e = fst e'"
    if "e \<in> set (es @ es')" "e' \<in> set (es @ es')" for e e'
    using that 1 2 unfolding classified_by_key_def set_append Un_iff by metis
  then show ?thesis
    using 1 2 unfolding classified_by_key_def set_append by blast
qed

lemma classified_by_key_cong:
  assumes "classified_by_key es cs h" and "\<And>e. e \<in> set es \<Longrightarrow> class_of h' (snd e) = class_of h (snd e)"
  shows "classified_by_key es cs h'"
  using assms by (simp add: classified_by_key_def)

text \<open>The effect of the loop on a part of the map.\<close>

definition files_classified :: "(Cksum \<times> nid) list \<Rightarrow> cid list \<Rightarrow> heap \<Rightarrow> heap \<Rightarrow> bool" where
  "files_classified es cs h h' \<longleftrightarrow>
     grows h h' \<and> classified_by_key es cs h' \<and> distinct cs \<and> set cs \<inter> dom (h_classes h) = {} \<and>
     dom (h_classes h') = dom (h_classes h) \<union> set cs \<and>
     (\<forall>n. n \<notin> snd ` set es \<longrightarrow> class_of h' n = class_of h n)"

definition unclassified_leaves :: "(Cksum \<times> nid) list \<Rightarrow> heap \<Rightarrow> bool" where
  "unclassified_leaves es h \<longleftrightarrow> distinct (map snd es) \<and>
     (\<forall>e \<in> set es. leaf h (snd e) \<and> class_of h (snd e) = None)"

lemma unclassified_leaves_part: "unclassified_leaves (xs @ ys) h \<Longrightarrow> unclassified_leaves xs h"
  by (auto simp: unclassified_leaves_def)

lemma unclassified_leaves_rest:
  assumes "unclassified_leaves (xs @ ys) h" and "same_tree h h'"
    and "\<And>n. n \<notin> snd ` set xs \<Longrightarrow> class_of h' n = class_of h n"
  shows "unclassified_leaves ys h'"
proof -
  have "snd e \<notin> snd ` set xs" if "e \<in> set ys" for e
    using assms(1) that unfolding unclassified_leaves_def map_append distinct_append set_map by blast
  then show ?thesis
    using assms unfolding unclassified_leaves_def leaf_same_tree [OF assms(2)] by auto
qed

context unordered_env
begin

text \<open>One round of the outer loop: a new class for the entries of one key.\<close>

lemma classify_group:
  assumes "heap_ok h" and "unclassified_leaves es h" and "es \<noteq> []"
    and "\<And>e. e \<in> set es \<Longrightarrow> fst e = k"
  shows "\<exists>h'. foldR (\<lambda>e. AddNode env (fst (new_EqClass h)) (snd e)) es (snd (new_EqClass h)) = Inr h' \<and>
    files_classified es [fst (new_EqClass h)] h h'"
proof -
  obtain c h1 where new: "new_EqClass h = (c, h1)" by (cases "new_EqClass h")
  note n = new_EqClass_ok [OF assms(1), unfolded new fst_conv snd_conv]
  have "n \<in> set (map snd es) \<Longrightarrow> leaf h1 n \<and> class_of h1 n = None" for n
    using assms(2) n(3) leaf_same_tree [OF n(2)] by (auto simp: unclassified_leaves_def)
  moreover have "distinct (map snd es)" using assms(2) by (simp add: unclassified_leaves_def)
  ultimately obtain h' where h': "foldR (AddNode env c) (map snd es) h1 = Inr h'" "grows h1 h'"
    "class_of h' = (\<lambda>n. if n \<in> set (map snd es) then Some c else class_of h1 n)"
    "dom (h_classes h') = dom (h_classes h1)"
    using AddNodes_ok [OF n(1,6), of "map snd es"] by blast
  have "grows h h1" using n(1,2,3,9) by (auto simp: grows_def)
  then have "grows h h'" using h'(2) by (rule grows_trans)
  moreover have "classified_by_key es [c] h'"
    by (rule classified_by_key_group [OF assms(3), where k = k]) (use assms(4) h'(3) in auto)
  moreover have "class_of h' m = class_of h m" if "m \<notin> snd ` set es" for m
    using that h'(3) n(3) by simp
  moreover have "foldR (\<lambda>e. AddNode env c (snd e)) es h1 = foldR (AddNode env c) (map snd es) h1"
    by (induction es arbitrary: h1) (auto intro: arg_cong [where f = "rbind _"])
  ultimately show ?thesis
    using h' n(7,9) by (simp add: new files_classified_def)
qed

end

lemma files_classifiedD:
  assumes "files_classified es cs h h'"
  shows "grows h h'" and "classified_by_key es cs h'" and "distinct cs"
    and "set cs \<inter> dom (h_classes h) = {}" and "dom (h_classes h') = dom (h_classes h) \<union> set cs"
    and "n \<notin> snd ` set es \<Longrightarrow> class_of h' n = class_of h n"
  using assms unfolding files_classified_def by blast+

lemma files_classified_append:
  assumes 1: "files_classified es cs h h1" and 2: "files_classified es' cs' h1 h2"
    and "fst ` set es \<inter> fst ` set es' = {}"
  shows "files_classified (es @ es') (cs @ cs') h h2"
proof -
  note f1 = files_classifiedD [OF 1] and f2 = files_classifiedD [OF 2]
  have "class_of h2 (snd e) = class_of h1 (snd e)" if "e \<in> set es" for e
  proof (rule growsD(4) [OF f2(1)])
    show "class_of h1 (snd e) \<noteq> None"
      using f1(2) that unfolding classified_by_key_def by (metis option.distinct(1))
  qed
  then have c1: "classified_by_key es cs h2" by (rule classified_by_key_cong [OF f1(2)])
  have sub: "set cs \<subseteq> dom (h_classes h1)" unfolding f1(5) by (rule Un_upper2)
  then have disj: "set cs \<inter> set cs' = {}" using f2(4) by blast
  have out: "set cs' \<inter> dom (h_classes h) = {}" using f2(4) unfolding f1(5) by blast
  show ?thesis
    unfolding files_classified_def
  proof (intro conjI allI impI)
    show "grows h h2" by (rule grows_trans [OF f1(1) f2(1)])
    show "classified_by_key (es @ es') (cs @ cs') h2"
      by (rule classified_by_key_append [OF c1 f2(2) disj assms(3)])
    show "distinct (cs @ cs')" using f1(3) f2(3) disj by (simp only: distinct_append)
    show "set (cs @ cs') \<inter> dom (h_classes h) = {}" using f1(4) out by (simp only: set_append) blast
    show "dom (h_classes h2) = dom (h_classes h) \<union> set (cs @ cs')"
      unfolding f2(5) f1(5) set_append Un_assoc ..
    show "class_of h2 n = class_of h n" if "n \<notin> snd ` set (es @ es')" for n
      using that f1(6) [of n] f2(6) [of n] by (simp add: image_Un)
  qed
qed

context unordered_env
begin

lemma classify_groups_ok:
  assumes "heap_ok h" and "unclassified_leaves es h" and "grouped es"
  shows "\<exists>cs h'. classify_groups env es res h = Inr (res @ cs, h') \<and> files_classified es cs h h'"
  using assms
proof (induction "length es" arbitrary: es res h rule: less_induct)
  case less
  show ?case
  proof (cases es)
    case Nil
    then show ?thesis
      using less.prems(1) by (auto simp: files_classified_def classified_by_key_def grows_refl)
  next
    case (Cons e rest)
    obtain k n where e: "e = (k, n)" by (cases e)
    let ?P = "\<lambda>x. fst x = k"
    let ?grp = "e # takeWhile ?P rest" and ?rest = "dropWhile ?P rest"
    have es: "es = ?grp @ ?rest" using Cons by simp
    have key: "fst x = k" if "x \<in> set ?grp" for x
      using that e by (auto dest: set_takeWhileD)
    have "unclassified_leaves ?grp h"
      by (rule unclassified_leaves_part [where ys = ?rest]) (use less.prems(2) es in simp)
    from classify_group [OF less.prems(1) this _ key] obtain h1 where h1:
      "foldR (\<lambda>e. AddNode env (fst (new_EqClass h)) (snd e)) ?grp (snd (new_EqClass h)) = Inr h1"
      "files_classified ?grp [fst (new_EqClass h)] h h1" by blast
    note g = h1(2) [unfolded files_classified_def]
    have "unclassified_leaves ?rest h1"
      using unclassified_leaves_rest [OF less.prems(2) [unfolded es]] g by (blast dest: growsD(2))
    moreover have "grouped ?rest" using less.prems(3) Cons by (simp add: grouped_dropWhile)
    moreover have "length ?rest < length es" using Cons by (simp add: le_imp_less_Suc length_dropWhile_le)
    moreover have "heap_ok h1" using g by (blast dest: growsD(1))
    ultimately obtain cs h' where h':
      "classify_groups env ?rest (res @ [fst (new_EqClass h)]) h1 = Inr ((res @ [fst (new_EqClass h)]) @ cs, h')"
      "files_classified ?rest cs h1 h'"
      using less.hyps by blast
    have "k \<notin> fst ` set ?rest" using grouped_rest [of e rest] less.prems(3) Cons e by simp
    then have "fst ` set ?grp \<inter> fst ` set ?rest = {}" using key by auto
    from files_classified_append [OF h1(2) h'(2) this]
    have "files_classified es (fst (new_EqClass h) # cs) h h'" unfolding es by simp
    moreover have "classify_groups env es res h = Inr (res @ fst (new_EqClass h) # cs, h')"
      using h1(1) h'(1) by (simp add: Cons e case_prod_unfold Let_def)
    ultimately show ?thesis by blast
  qed
qed

lemma ClassifyDuplicateFiles_ok:
  assumes "heap_ok h" and "unclassified_leaves es h" and "grouped es"
  shows "\<exists>cs h'. ClassifyDuplicateFiles env es h = Inr (cs, h') \<and> files_classified es cs h h'"
  using classify_groups_ok [OF assms, of "[]"] by (simp add: ClassifyDuplicateFiles_def)

end

section \<open>\<open>ClassifyEmptyDirs\<close>\<close>

definition is_empty_dir :: "heap \<Rightarrow> nid \<Rightarrow> bool" where
  "is_empty_dir h n \<longleftrightarrow> (case h_nodes h n of None \<Rightarrow> False | Some nd \<Rightarrow> IsEmptyDir nd)"

lemma is_empty_dir_same:
  assumes "same_tree h h'" shows "is_empty_dir h' n = is_empty_dir h n"
proof (cases "h_nodes h n")
  case None
  then have "h_nodes h' n = None" using same_treeD(3) [OF assms] by blast
  with None show ?thesis by (simp add: is_empty_dir_def)
next
  case (Some nd)
  from same_tree_node [OF assms this] Some show ?thesis
    by (auto simp: is_empty_dir_def IsEmptyDir_def)
qed

lemma is_empty_dir_leaf: "is_empty_dir h n \<Longrightarrow> leaf h n"
  by (auto simp: is_empty_dir_def leaf_def IsEmptyDir_def split: option.splits)

lemma SetEqClass_same_tree: "SetEqClass n c h = Inr h' \<Longrightarrow> same_tree h h'"
  by (auto simp: SetEqClass_def res_simps same_tree_def view_simps Let_def split: option.splits)

lemma AddNode_same_tree: "AddNode env c n h = Inr h' \<Longrightarrow> same_tree h h'"
proof -
  assume "AddNode env c n h = Inr h'"
  then obtain g where "SetEqClass n c g = Inr h'" "same_tree h g"
    by (auto simp: AddNode_def res_simps Let_def same_tree_def view_simps)
  with SetEqClass_same_tree same_tree_trans show ?thesis by blast
qed

lemma classify_empty_dir_same_tree:
  "same_tree h (fst st) \<Longrightarrow> classify_empty_dir env c n st = Inr st' \<Longrightarrow> same_tree h (fst st')"
  by (auto simp: classify_empty_dir_def Let_def res_simps split: if_splits
      dest: same_tree_trans [OF _ AddNode_same_tree])

lemma classify_empty_dirs_eq:
  "set ns \<subseteq> dom (h_nodes h) \<Longrightarrow> same_tree h g \<Longrightarrow>
    foldR (classify_empty_dir env c) ns (g, ()) =
      rbind (foldR (AddNode env c) (filter (is_empty_dir h) ns) g) (\<lambda>g'. Inr (g', ()))"
proof (induction ns arbitrary: g)
  case (Cons n ns)
  obtain nd where nd: "h_nodes g n = Some nd"
    using Cons.prems same_treeD(3) [OF Cons.prems(2)] by auto
  have e: "is_empty_dir h n \<longleftrightarrow> IsEmptyDir nd"
    using is_empty_dir_same [OF Cons.prems(2), of n] nd by (simp add: is_empty_dir_def)
  show ?case
  proof (cases "is_empty_dir h n")
    case True
    show ?thesis
    proof (cases "AddNode env c n g")
      case (Inr g')
      have "same_tree h g'" by (rule same_tree_trans [OF Cons.prems(2) AddNode_same_tree [OF Inr]])
      with Cons Inr True nd e show ?thesis by (simp add: classify_empty_dir_def)
    qed (use True nd e in \<open>simp add: classify_empty_dir_def\<close>)
  next
    case False
    with Cons nd e show ?thesis by (simp add: classify_empty_dir_def)
  qed
qed simp

definition dirs_classified :: "nid list \<Rightarrow> cid \<Rightarrow> heap \<Rightarrow> heap \<Rightarrow> bool" where
  "dirs_classified ns c h h' \<longleftrightarrow>
     grows h h' \<and> c \<notin> dom (h_classes h) \<and> dom (h_classes h') = insert c (dom (h_classes h)) \<and>
     members h' c = filter (is_empty_dir h) ns \<and>
     (\<forall>n. class_of h' n = (if n \<in> set ns \<and> is_empty_dir h n then Some c else class_of h n))"

context unordered_env
begin

lemma ClassifyEmptyDirs_eq:
  assumes "heap_ok h" and "n \<in> dom (h_nodes h)" and "h_next_node h - n \<le> k" and "new_EqClass h = (c, h1)"
  shows "ClassifyEmptyDirs env k n h =
    rbind (foldR (AddNode env c) (filter (is_empty_dir h) (nodes_below h n)) h1) (\<lambda>g. Inr (c, g))"
proof -
  note m = new_EqClass_ok [OF assms(1), unfolded assms(4) fst_conv snd_conv]
  note tree = heap_okD(1) [OF assms(1)]
  have "Traverse k (classify_empty_dir env c) n (h1, ()) =
      foldR (classify_empty_dir env c) (nodes_below h n) (h1, ())"
    by (rule Traverse_eq [OF tree assms(2,3)]) (use m(2) classify_empty_dir_same_tree in auto)
  also have "\<dots> = rbind (foldR (AddNode env c) (filter (is_empty_dir h) (nodes_below h n)) h1) (\<lambda>g. Inr (g, ()))"
    by (rule classify_empty_dirs_eq) (use m(2) below_dom [OF tree assms(2)] in blast)+
  finally have "Traverse k (classify_empty_dir env c) n (h1, ()) =
    rbind (foldR (AddNode env c) (filter (is_empty_dir h) (nodes_below h n)) h1) (\<lambda>g. Inr (g, ()))" .
  then show ?thesis
    by (cases "foldR (AddNode env c) (filter (is_empty_dir h) (nodes_below h n)) h1")
      (simp_all add: ClassifyEmptyDirs_def assms(4))
qed

lemma ClassifyEmptyDirs_ok:
  assumes "heap_ok h" and "n \<in> dom (h_nodes h)" and "h_next_node h - n \<le> k"
    and "\<And>m. m \<in> set (nodes_below h n) \<Longrightarrow> is_empty_dir h m \<Longrightarrow> class_of h m = None"
  shows "\<exists>c h'. ClassifyEmptyDirs env k n h = Inr (c, h') \<and> dirs_classified (nodes_below h n) c h h'"
proof -
  obtain c h1 where new: "new_EqClass h = (c, h1)" by (cases "new_EqClass h")
  note m = new_EqClass_ok [OF assms(1), unfolded new fst_conv snd_conv]
  note tree = heap_okD(1) [OF assms(1)]
  let ?ns = "filter (is_empty_dir h) (nodes_below h n)"
  have leaves: "leaf h1 x \<and> class_of h1 x = None" if "x \<in> set ?ns" for x
    using that assms(4) is_empty_dir_leaf m(3) leaf_same_tree [OF m(2)] by simp
  have dist: "distinct ?ns" using nodes_below_distinct [OF tree assms(2)] by simp
  obtain h' where h': "foldR (AddNode env c) ?ns h1 = Inr h'" "grows h1 h'"
    "class_of h' = (\<lambda>x. if x \<in> set ?ns then Some c else class_of h1 x)"
    "members h' = (members h1)(c := members h1 c @ ?ns)" "dom (h_classes h') = dom (h_classes h1)"
    using AddNodes_ok [OF m(1,6) dist leaves] by blast
  have "grows h h1" using m(1,2,3,9) by (auto simp: grows_def)
  then have "grows h h'" using h'(2) by (rule grows_trans)
  then have "dirs_classified (nodes_below h n) c h h'"
    using h'(3,4,5) m(3,4,7,9,11) by (simp add: dirs_classified_def)
  moreover have "ClassifyEmptyDirs env k n h = Inr (c, h')"
    by (simp add: ClassifyEmptyDirs_eq [OF assms(1-3) new] h'(1))
  ultimately show ?thesis by blast
qed

end

end
