(* ===== verification/Node_Distance.thy ===== *)
theory Node_Distance
  imports Tree_Operations
begin

text \<open>
  \<open>NodeDistance\<close> against its comment in file_tree.h, "0 for identical, 1 for no overlap;
  (symmetrical diffrence) / (union)". The sums are \<open>uint64_t\<close> accumulators to which doubles are
  added, so the general statement is about bounds, and the formula is exact for whole weights
  whose sum stays below 2^53. Also the specification of \<open>GetPossibleEquivalents\<close>.
\<close>

section \<open>The accumulators\<close>

text \<open>One entry per class: its weight and whether it counts for the symmetric difference.\<close>

definition acc_step :: "rat \<times> bool \<Rightarrow> nat \<times> nat \<Rightarrow> (nat \<times> nat) res" where
  "acc_step e st =
     rbind (u64_add_double (fst st) (fst e)) (\<lambda>tot.
       if snd e then rbind (u64_add_double (snd st) (fst e)) (\<lambda>sdiff. Inr (tot, sdiff))
       else Inr (tot, snd st))"

definition acc_ok :: "nat \<times> nat \<Rightarrow> bool" where
  "acc_ok st \<longleftrightarrow> snd st \<le> fst st \<and> exact_u64 (fst st) \<and> exact_u64 (snd st)"

lemma u64_add_double_fault: "u64_add_double s w = Inl e \<Longrightarrow> e = Undefined ''double to uint64_t''"
  by (auto simp: u64_add_double_def double_to_u64_def split: if_splits)

lemma acc_step_ok:
  assumes "acc_ok st" and "0 \<le> fst e"
  shows "(\<exists>st'. acc_step e st = Inr st' \<and> acc_ok st') \<or> acc_step e st = Inl (Undefined ''double to uint64_t'')"
proof (cases "u64_add_double (fst st) (fst e)")
  case (Inl f)
  then show ?thesis using u64_add_double_fault [OF Inl] by (auto simp: acc_step_def)
next
  case (Inr tot)
  have le: "snd st \<le> fst st" and ex: "exact_u64 (fst st)" "exact_u64 (snd st)"
    using assms(1) by (simp_all add: acc_ok_def)
  have tot: "exact_u64 tot" "fst st \<le> tot"
    using u64_add_double_exact [OF Inr assms(2)] u64_add_double_ge [OF Inr assms(2) ex(1)] by auto
  obtain sd where sd: "u64_add_double (snd st) (fst e) = Inr sd"
    using u64_add_double_defined [OF Inr le assms(2)] by blast
  have "exact_u64 sd" "sd \<le> tot"
    using u64_add_double_exact [OF sd assms(2)] u64_add_double_mono [OF sd Inr le] by auto
  with tot le ex Inr sd show ?thesis by (simp add: acc_step_def acc_ok_def)
qed

lemma accumulate_ok:
  assumes "acc_ok st" and "\<forall>e \<in> set es. 0 \<le> fst e"
  shows "(\<exists>st'. foldR acc_step es st = Inr st' \<and> acc_ok st') \<or>
    foldR acc_step es st = Inl (Undefined ''double to uint64_t'')"
  using assms
proof (induction es arbitrary: st)
  case (Cons e es)
  then consider st' where "acc_step e st = Inr st'" "acc_ok st'" | "acc_step e st = Inl (Undefined ''double to uint64_t'')"
    using acc_step_ok [of st e] by auto
  then show ?case using Cons by cases auto
qed simp

text \<open>Nothing, or everything, counts for the symmetric difference.\<close>

lemma accumulate_same:
  "foldR acc_step es st = Inr st' \<Longrightarrow> \<forall>e \<in> set es. \<not> snd e \<Longrightarrow> snd st' = snd st"
proof (induction es arbitrary: st)
  case (Cons e es)
  then obtain t where "acc_step e st = Inr t" "foldR acc_step es t = Inr st'"
    by (auto simp: res_simps)
  with Cons show ?case by (auto simp: acc_step_def res_simps)
qed simp

lemma accumulate_disjoint:
  "foldR acc_step es st = Inr st' \<Longrightarrow> \<forall>e \<in> set es. snd e \<Longrightarrow> snd st = fst st \<Longrightarrow> snd st' = fst st'"
proof (induction es arbitrary: st)
  case (Cons e es)
  then obtain t where t: "acc_step e st = Inr t" "foldR acc_step es t = Inr st'"
    by (auto simp: res_simps)
  with Cons.prems have "snd t = fst t" by (auto simp: acc_step_def res_simps)
  with t Cons show ?case by auto
qed simp

text \<open>Whole weights are added exactly.\<close>

lemma accumulate_whole:
  "fst st + sum_list (map fst es) \<le> 2 ^ 53 \<Longrightarrow> snd st \<le> fst st \<Longrightarrow>
    foldR acc_step (map (\<lambda>(w, b). (of_nat w, b)) es) st =
      Inr (fst st + sum_list (map fst es), snd st + sum_list (map fst (filter snd es)))"
proof (induction es arbitrary: st)
  case (Cons e es)
  obtain w b where e: "e = (w, b)" by (cases e)
  have w: "fst st + w \<le> 2 ^ 53" "snd st + w \<le> 2 ^ 53" using Cons.prems e by auto
  have step: "acc_step (of_nat w, b) st = Inr (fst st + w, if b then snd st + w else snd st)"
    using u64_add_double_whole [OF w(1)] u64_add_double_whole [OF w(2)] by (simp add: acc_step_def)
  have "foldR acc_step (map (\<lambda>(w, b). (of_nat w, b)) es) (fst st + w, if b then snd st + w else snd st) =
      Inr (fst st + w + sum_list (map fst es),
        (if b then snd st + w else snd st) + sum_list (map fst (filter snd es)))"
    using Cons.IH [of "(fst st + w, if b then snd st + w else snd st)"] Cons.prems e by simp
  then show ?case by (simp add: e step add.assoc del: foldR.simps(1))
qed simp

section \<open>The two maps of classes\<close>

lemma insert_classes1_eq:
  "set ns \<subseteq> dom (h_nodes h) \<Longrightarrow> (\<forall>e \<in> set m. \<not> snd e) \<Longrightarrow>
    insert_classes1 h ns m =
      Inr (map (\<lambda>c. (c, False)) (fold set_insert (map (class_of h) ns) (map fst m)))"
proof (induction ns arbitrary: m)
  case Nil
  then have "map (\<lambda>c. (c, False)) (map fst m) = m"
    by (induction m) auto
  then show ?case by simp
next
  case (Cons n ns)
  then obtain nd where nd: "h_nodes h n = Some nd" by auto
  have "map fst (insert_class1 (nd_eq_class nd) m) = set_insert (class_of h n) (map fst m)"
    using nd by (simp add: insert_class1_def set_insert_def)
  moreover have "\<forall>e \<in> set (insert_class1 (nd_eq_class nd) m). \<not> snd e"
    using Cons.prems by (auto simp: insert_class1_def)
  ultimately show ?case using Cons nd by simp
qed

text \<open>After the second loop: a key is marked if a child of the second node has that class.\<close>

lemma insert_classes2_eq:
  "set ns \<subseteq> dom (h_nodes h) \<Longrightarrow>
    insert_classes2 h ns (map (\<lambda>c. (c, f c)) ks, only_2) =
      Inr (map (\<lambda>c. (c, f c \<or> c \<in> class_of h ` set ns)) ks,
        fold set_insert (filter (\<lambda>c. c \<notin> set ks) (map (class_of h) ns)) only_2)"
proof (induction ns arbitrary: f only_2)
  case (Cons n ns)
  then obtain nd where nd: "h_nodes h n = Some nd" by auto
  let ?c = "nd_eq_class nd"
  have look: "map_of (map (\<lambda>c. (c, f c)) ks) ?c = (if ?c \<in> set ks then Some (f ?c) else None)"
    by (simp add: map_of_map_restrict restrict_map_def)
  have mark: "map (\<lambda>(k, b). (k, if k = ?c then True else b)) (map (\<lambda>c. (c, f c)) ks) =
      map (\<lambda>c. (c, c = ?c \<or> f c)) ks"
    by simp
  show ?case
  proof (cases "?c \<in> set ks")
    case True
    then have "insert_classes2 h (n # ns) (map (\<lambda>c. (c, f c)) ks, only_2) =
        insert_classes2 h ns (map (\<lambda>c. (c, c = ?c \<or> f c)) ks, only_2)"
      using nd by (simp add: look mark Let_def del: map_map)
    also have "\<dots> = Inr (map (\<lambda>c. (c, (c = ?c \<or> f c) \<or> c \<in> class_of h ` set ns)) ks,
        fold set_insert (filter (\<lambda>c. c \<notin> set ks) (map (class_of h) ns)) only_2)"
      using Cons by simp
    finally show ?thesis using True nd by (auto simp: image_iff)
  next
    case False
    with Cons nd show ?thesis by (auto simp: look Let_def)
  qed
qed simp

section \<open>The distance as one accumulation\<close>

definition dist_entries :: "dedup_env \<Rightarrow> heap \<Rightarrow> nid \<Rightarrow> nid \<Rightarrow> (cid option \<times> bool) list" where
  "dist_entries env h n1 n2 =
     map (\<lambda>c. (c, c \<notin> set (child_classes h n2))) (env_class_order env (child_classes h n1)) @
     map (\<lambda>c. (c, True)) (env_class_order env
       (fold set_insert (filter (\<lambda>c. c \<notin> set (child_classes h n1)) (map (class_of h) (children_of h n2))) []))"

definition entry_weight :: "heap \<Rightarrow> cid option \<times> bool \<Rightarrow> rat \<times> bool" where
  "entry_weight h e = (weight_of h (the (fst e)), snd e)"

definition fraction_result :: "nat \<times> nat \<Rightarrow> rat res" where
  "fraction_result st =
     (if fst st = 0 then Inr 0
      else rassert (snd st \<le> fst st) ''sum >= sdiff''
        (Inr (dbl (u64_to_double (snd st) / u64_to_double (fst st)))))"

lemma rbind_acc_step:
  "rbind (acc_step (w, b) (tot, sd)) k =
     rbind (u64_add_double tot w) (\<lambda>tot'.
       if b then rbind (u64_add_double sd w) (\<lambda>sd'. k (tot', sd')) else k (tot', sd))"
  by (cases "u64_add_double tot w"; cases "u64_add_double sd w") (simp_all add: acc_step_def)

lemma sum_classes1_eq:
  "(\<And>e. e \<in> set es \<Longrightarrow> \<exists>d. fst e = Some d \<and> d \<in> dom (h_classes h)) \<Longrightarrow>
    sum_classes1 h es st =
      foldR acc_step (map (entry_weight h) (map (\<lambda>e. (fst e, \<not> snd e)) es)) st"
proof (induction es arbitrary: st)
  case (Cons e es)
  obtain c b where e: "e = (c, b)" by (cases e)
  obtain tot sd where st: "st = (tot, sd)" by (cases st)
  from Cons.prems [of e] e obtain d ec where d: "c = Some d" "h_classes h d = Some ec" by auto
  have IH: "sum_classes1 h es = foldR acc_step (map (entry_weight h) (map (\<lambda>e. (fst e, \<not> snd e)) es))"
    using Cons by auto
  have "entry_weight h (c, \<not> b) = (ec_weight ec, \<not> b)"
    using d by (simp add: entry_weight_def weight_of_def)
  then show ?case by (cases b) (simp_all add: e st d IH rbind_acc_step del: map_map)
qed simp

lemma sum_classes2_eq:
  "(\<And>c. c \<in> set cs \<Longrightarrow> \<exists>d. c = Some d \<and> d \<in> dom (h_classes h)) \<Longrightarrow>
    sum_classes2 h cs st = foldR acc_step (map (entry_weight h) (map (\<lambda>c. (c, True)) cs)) st"
proof (induction cs arbitrary: st)
  case (Cons c cs)
  obtain tot sd where st: "st = (tot, sd)" by (cases st)
  from Cons.prems [of c] obtain d ec where d: "c = Some d" "h_classes h d = Some ec" by auto
  have IH: "sum_classes2 h cs = foldR acc_step (map (entry_weight h) (map (\<lambda>c. (c, True)) cs))"
    using Cons by auto
  have "entry_weight h (c, True) = (ec_weight ec, True)"
    using d by (simp add: entry_weight_def weight_of_def)
  then show ?case by (simp add: st d IH rbind_acc_step del: map_map)
qed simp

lemma child_classes_valid:
  assumes "pointers_ok h" and "ready h n" and "c \<in> class_of h ` set (children_of h n)"
  shows "\<exists>d. c = Some d \<and> d \<in> dom (h_classes h)"
proof -
  from assms(3) obtain m where m: "m \<in> set (children_of h n)" "c = class_of h m" by blast
  with assms(2) obtain d where d: "class_of h m = Some d" by (auto simp: ready_def)
  from pointers_okD(2) [OF assms(1) d] d m(2) show ?thesis by simp
qed

lemma set_child_classes [simp]: "set (child_classes h n) = class_of h ` set (children_of h n)"
  by (simp add: child_classes_def)

lemma distinct_child_classes [simp]: "distinct (child_classes h n)"
  by (simp add: child_classes_def)

context unordered_env
begin

lemma set_dist_entries:
  "set (dist_entries env h n1 n2) =
    (\<lambda>c. (c, c \<notin> class_of h ` set (children_of h n2))) ` class_of h ` set (children_of h n1) \<union>
    (\<lambda>c. (c, True)) ` (class_of h ` set (children_of h n2) - class_of h ` set (children_of h n1))"
  by (auto simp: dist_entries_def)

lemma NodeDistance_eq:
  assumes "heap_ok h" and "n1 \<in> dom (h_nodes h)" and "n2 \<in> dom (h_nodes h)"
    and "ready h n1" and "ready h n2"
    and "\<not> (map_option nd_type (h_nodes h n1) = Some FILE \<and> map_option nd_type (h_nodes h n2) = Some FILE)"
  shows "NodeDistance env h n1 n2 =
    rbind (foldR acc_step (map (entry_weight h) (dist_entries env h n1 n2)) (0, 0)) fraction_result"
proof -
  obtain nd1 nd2 where nd: "h_nodes h n1 = Some nd1" "h_nodes h n2 = Some nd2"
    using assms(2,3) by auto
  note ptr = heap_ok_pointers [OF assms(1)]
  have r: "IsReadyToEvaluate nd1" "IsReadyToEvaluate nd2"
    using IsReadyToEvaluate_iff [OF heap_okD(3) [OF assms(1)]] nd assms(4,5) by auto
  have t: "nd_type nd1 \<noteq> FILE \<or> nd_type nd2 \<noteq> FILE" using assms(6) nd by auto
  have sub: "set (nd_children nd1) \<subseteq> dom (h_nodes h)" "set (nd_children nd2) \<subseteq> dom (h_nodes h)"
    using pointers_okD(1) [OF ptr] nd by (metis children_of_node subsetI)+
  let ?C1 = "child_classes h n1"
  let ?O2 = "fold set_insert (filter (\<lambda>c. c \<notin> set ?C1) (map (class_of h) (children_of h n2))) []"
  let ?m = "map (\<lambda>c. (c, c \<in> class_of h ` set (children_of h n2))) ?C1"
  have 1: "insert_classes1 h (nd_children nd1) [] = Inr (map (\<lambda>c. (c, False)) ?C1)"
    using insert_classes1_eq [OF sub(1)] nd by (simp add: child_classes_def)
  have 2: "insert_classes2 h (nd_children nd2) (map (\<lambda>c. (c, False)) ?C1, []) = Inr (?m, ?O2)"
    using insert_classes2_eq [OF sub(2), of "\<lambda>_. False"] nd by simp
  have look: "the (map_of ?m c) = (c \<in> class_of h ` set (children_of h n2))" if "c \<in> set ?C1" for c
    using that by (simp add: map_of_map_restrict restrict_map_def)
  have 3: "map_entries (env_class_order env) ?m =
      map (\<lambda>c. (c, c \<in> class_of h ` set (children_of h n2))) (env_class_order env ?C1)"
  proof -
    have "map fst ?m = ?C1" by (simp add: comp_def)
    moreover have "map (\<lambda>k. (k, the (map_of ?m k))) (env_class_order env ?C1) =
        map (\<lambda>c. (c, c \<in> class_of h ` set (children_of h n2))) (env_class_order env ?C1)"
      using look by (intro map_cong) simp_all
    ultimately show ?thesis by (simp only: map_entries_def)
  qed
  have 4: "sum_classes1 h (map_entries (env_class_order env) ?m) st =
      foldR acc_step (map (entry_weight h) (map (\<lambda>c. (c, c \<notin> set (child_classes h n2)))
        (env_class_order env ?C1))) st" for st
    unfolding 3
    by (subst sum_classes1_eq)
      (use child_classes_valid [OF ptr assms(4)] in \<open>auto simp: comp_def\<close>)
  have 5: "sum_classes2 h (env_class_order env ?O2) st =
      foldR acc_step (map (entry_weight h) (map (\<lambda>c. (c, True)) (env_class_order env ?O2))) st" for st
    by (rule sum_classes2_eq) (use child_classes_valid [OF ptr assms(5)] in auto)
  have fin: "(\<lambda>(tot, sdiff). if tot = 0 then Inr 0 else rassert (sdiff \<le> tot) ''sum >= sdiff''
      (Inr (dbl (u64_to_double sdiff / u64_to_double tot)))) = fraction_result"
    by (simp add: fun_eq_iff fraction_result_def)
  show ?thesis
    unfolding NodeDistance_def dist_entries_def map_append foldR_append fin rbind_assoc
    by (simp only: nd deref_Some r t rassert_True 1 2 rbind.simps case_prod_conv 4 5)
qed

end

section \<open>Bounds, extreme cases and the exact formula\<close>

definition classes_below :: "heap \<Rightarrow> nid \<Rightarrow> cid set" where
  "classes_below h n = {c. \<exists>m \<in> set (children_of h n). class_of h m = Some c}"

lemma Some_classes_below:
  "ready h n \<Longrightarrow> class_of h ` set (children_of h n) = Some ` classes_below h n"
  by (force simp: classes_below_def ready_def image_iff)

lemma finite_classes_below [simp]: "finite (classes_below h n)"
proof -
  have "classes_below h n \<subseteq> the ` class_of h ` set (children_of h n)"
    by (force simp: classes_below_def)
  then show ?thesis by (rule finite_subset) simp
qed

definition not_both_files :: "heap \<Rightarrow> nid \<Rightarrow> nid \<Rightarrow> bool" where
  "not_both_files h n1 n2 \<longleftrightarrow>
     \<not> (map_option nd_type (h_nodes h n1) = Some FILE \<and> map_option nd_type (h_nodes h n2) = Some FILE)"

text \<open>The arguments on which the assertions of \<open>NodeDistance\<close> hold.\<close>

definition comparable :: "heap \<Rightarrow> nid \<Rightarrow> nid \<Rightarrow> bool" where
  "comparable h n1 n2 \<longleftrightarrow> n1 \<in> dom (h_nodes h) \<and> n2 \<in> dom (h_nodes h) \<and>
     ready h n1 \<and> ready h n2 \<and> not_both_files h n1 n2"

text \<open>The fault of a sum of weights that leaves the range of \<open>uint64_t\<close>; every other undefined
  behaviour has another text.\<close>

definition is_overflow :: "'a res \<Rightarrow> bool" where
  "is_overflow r \<longleftrightarrow> r = Inl (Undefined ''double to uint64_t'')"

lemma fraction_result_ok:
  assumes "acc_ok st"
  shows "\<exists>d. fraction_result st = Inr d \<and> 0 \<le> d \<and> d \<le> 1 \<and>
    (snd st = 0 \<longrightarrow> d = 0) \<and> (snd st = fst st \<longrightarrow> d = 0 \<or> d = 1)"
proof (cases "fst st = 0")
  case False
  have le: "0 \<le> u64_to_double (snd st)" "u64_to_double (snd st) \<le> u64_to_double (fst st)"
    using assms by (simp_all add: acc_ok_def u64_to_double_def dbl_mono ieee.rnd_nonneg)
  have "u64_to_double (snd st) / u64_to_double (fst st) \<in> {0, 1}" if "snd st = fst st"
    using that by simp
  then have "snd st = fst st \<longrightarrow> dbl (u64_to_double (snd st) / u64_to_double (fst st)) \<in> {0, 1}"
    by auto
  moreover have "snd st = 0 \<longrightarrow> u64_to_double (snd st) = 0" by (simp add: u64_to_double_def)
  ultimately show ?thesis
    using False ieee.rnd_fraction [OF le] assms by (auto simp: fraction_result_def acc_ok_def)
qed (simp add: fraction_result_def)

context unordered_env
begin

lemma entries_nonneg:
  "classes_ok h \<Longrightarrow> \<forall>e \<in> set (map (entry_weight h) es). 0 \<le> fst e"
  by (auto simp: entry_weight_def classes_okD(4))

text \<open>No assertion fires; the only possible fault is a sum of weights beyond \<open>uint64_t\<close>.\<close>

lemma NodeDistance_range:
  assumes "heap_ok h" and "comparable h n1 n2"
  shows "(\<exists>d. NodeDistance env h n1 n2 = Inr d \<and> 0 \<le> d \<and> d \<le> 1) \<or>
    is_overflow (NodeDistance env h n1 n2)"
proof -
  let ?es = "map (entry_weight h) (dist_entries env h n1 n2)"
  have eq: "NodeDistance env h n1 n2 = rbind (foldR acc_step ?es (0, 0)) fraction_result"
    by (rule NodeDistance_eq [OF assms(1)]) (use assms(2) in \<open>auto simp: comparable_def not_both_files_def\<close>)
  have "acc_ok (0, 0)" by (simp add: acc_ok_def exact_u64_small)
  from accumulate_ok [OF this entries_nonneg [OF heap_okD(2) [OF assms(1)]], of "dist_entries env h n1 n2"]
  show ?thesis
    unfolding eq is_overflow_def by (elim disjE exE conjE; simp) (blast dest: fraction_result_ok)
qed

lemma NodeDistance_Inr:
  assumes "heap_ok h" and "comparable h n1 n2" and "NodeDistance env h n1 n2 = Inr d"
  obtains st where "foldR acc_step (map (entry_weight h) (dist_entries env h n1 n2)) (0, 0) = Inr st"
    and "acc_ok st" and "fraction_result st = Inr d"
proof -
  let ?es = "map (entry_weight h) (dist_entries env h n1 n2)"
  have eq: "NodeDistance env h n1 n2 = rbind (foldR acc_step ?es (0, 0)) fraction_result"
    by (rule NodeDistance_eq [OF assms(1)]) (use assms(2) in \<open>auto simp: comparable_def not_both_files_def\<close>)
  have "rbind (foldR acc_step ?es (0, 0)) fraction_result = Inr d"
    using assms(3) unfolding eq .
  then obtain st where st: "foldR acc_step ?es (0, 0) = Inr st" "fraction_result st = Inr d"
    unfolding rbind_Inr_iff by blast
  have "acc_ok (0, 0)" by (simp add: acc_ok_def exact_u64_small)
  from accumulate_ok [OF this entries_nonneg [OF heap_okD(2) [OF assms(1)]], of "dist_entries env h n1 n2"]
    st that show ?thesis by auto
qed

text \<open>"0 for identical, 1 for no overlap".\<close>

lemma NodeDistance_identical:
  assumes "heap_ok h" and "comparable h n1 n2" and "NodeDistance env h n1 n2 = Inr d"
    and "classes_below h n1 = classes_below h n2"
  shows "d = 0"
proof -
  from NodeDistance_Inr [OF assms(1-3)] obtain st where st:
    "foldR acc_step (map (entry_weight h) (dist_entries env h n1 n2)) (0, 0) = Inr st" "acc_ok st"
    "fraction_result st = Inr d" .
  have r: "ready h n1" "ready h n2" using assms(2) by (simp_all add: comparable_def)
  have "\<forall>e \<in> set (map (entry_weight h) (dist_entries env h n1 n2)). \<not> snd e"
    using assms(4) by (auto simp: entry_weight_def set_dist_entries Some_classes_below r)
  from accumulate_same [OF st(1) this] have "snd st = 0" by simp
  with fraction_result_ok [OF st(2)] st(3) show ?thesis by auto
qed

lemma NodeDistance_disjoint:
  assumes "heap_ok h" and "comparable h n1 n2" and "NodeDistance env h n1 n2 = Inr d"
    and "classes_below h n1 \<inter> classes_below h n2 = {}"
  shows "d = 0 \<or> d = 1"
proof -
  from NodeDistance_Inr [OF assms(1-3)] obtain st where st:
    "foldR acc_step (map (entry_weight h) (dist_entries env h n1 n2)) (0, 0) = Inr st" "acc_ok st"
    "fraction_result st = Inr d" .
  have r: "ready h n1" "ready h n2" using assms(2) by (simp_all add: comparable_def)
  have "\<forall>e \<in> set (map (entry_weight h) (dist_entries env h n1 n2)). snd e"
    using assms(4) by (auto simp: entry_weight_def set_dist_entries Some_classes_below r)
  from accumulate_disjoint [OF st(1) this] have "snd st = fst st" by simp
  with fraction_result_ok [OF st(2)] st(3) show ?thesis by auto
qed

end

text \<open>The weight of a class as a whole number, and what it means that all weights are whole.\<close>

definition whole_weight :: "heap \<Rightarrow> cid \<Rightarrow> nat" where
  "whole_weight h c = nat \<lfloor>weight_of h c\<rfloor>"

definition whole_weights :: "heap \<Rightarrow> bool" where
  "whole_weights h \<longleftrightarrow> (\<forall>c. weight_of h c = of_nat (whole_weight h c))"

definition union_weight :: "heap \<Rightarrow> nid \<Rightarrow> nid \<Rightarrow> nat" where
  "union_weight h n1 n2 = (\<Sum>c \<in> classes_below h n1 \<union> classes_below h n2. whole_weight h c)"

definition sym_diff_weight :: "heap \<Rightarrow> nid \<Rightarrow> nid \<Rightarrow> nat" where
  "sym_diff_weight h n1 n2 =
     (\<Sum>c \<in> (classes_below h n1 - classes_below h n2) \<union> (classes_below h n2 - classes_below h n1).
       whole_weight h c)"

context unordered_env
begin

lemma dist_entries_image:
  assumes "ready h n1" and "ready h n2"
  shows "set (dist_entries env h n1 n2) =
    (\<lambda>c. (Some c, \<not> (c \<in> classes_below h n1 \<and> c \<in> classes_below h n2))) `
      (classes_below h n1 \<union> classes_below h n2)"
  unfolding set_dist_entries Some_classes_below [OF assms(1)] Some_classes_below [OF assms(2)]
  by (auto simp: image_iff)

lemma distinct_dist_entries: "distinct (dist_entries env h n1 n2)"
  by (auto simp: dist_entries_def distinct_map inj_on_def)

lemma sum_dist_entries:
  assumes "ready h n1" and "ready h n2"
  shows "(\<Sum>e\<leftarrow>dist_entries env h n1 n2. whole_weight h (the (fst e))) = union_weight h n1 n2"
    and "(\<Sum>e\<leftarrow>filter snd (dist_entries env h n1 n2). whole_weight h (the (fst e))) = sym_diff_weight h n1 n2"
proof -
  let ?A = "classes_below h n1" and ?B = "classes_below h n2"
  let ?e = "\<lambda>c. (Some c, \<not> (c \<in> ?A \<and> c \<in> ?B))"
  have inj: "inj_on ?e X" for X by (simp add: inj_on_def)
  show "(\<Sum>e\<leftarrow>dist_entries env h n1 n2. whole_weight h (the (fst e))) = union_weight h n1 n2"
    unfolding sum_list_distinct_conv_sum_set [OF distinct_dist_entries] dist_entries_image [OF assms]
    by (simp only: sum.reindex [OF inj] union_weight_def comp_def fst_conv option.sel)
  have "set (filter snd (dist_entries env h n1 n2)) = ?e ` ((?A - ?B) \<union> (?B - ?A))"
    unfolding set_filter dist_entries_image [OF assms] by auto
  moreover have "distinct (filter snd (dist_entries env h n1 n2))"
    using distinct_dist_entries by (rule distinct_filter)
  ultimately show "(\<Sum>e\<leftarrow>filter snd (dist_entries env h n1 n2). whole_weight h (the (fst e))) =
      sym_diff_weight h n1 n2"
    by (simp only: sum_list_distinct_conv_sum_set sum.reindex [OF inj] sym_diff_weight_def)
      (simp add: comp_def)
qed

lemma NodeDistance_whole:
  assumes "heap_ok h" and "comparable h n1 n2" and "whole_weights h"
    and "union_weight h n1 n2 \<le> 2 ^ 53"
  shows "NodeDistance env h n1 n2 =
    Inr (if union_weight h n1 n2 = 0 then 0
      else dbl (of_nat (sym_diff_weight h n1 n2) / of_nat (union_weight h n1 n2)))"
proof -
  let ?es = "dist_entries env h n1 n2"
  let ?ws = "map (\<lambda>e. (whole_weight h (the (fst e)), snd e)) ?es"
  have r: "ready h n1" "ready h n2" using assms(2) by (simp_all add: comparable_def)
  have w: "map (entry_weight h) ?es = map (\<lambda>(w, b). (of_nat w, b)) ?ws"
    using assms(3) by (simp add: entry_weight_def whole_weights_def)
  have fst_ws: "sum_list (map fst ?ws) = union_weight h n1 n2"
    using sum_dist_entries(1) [OF r] by (simp add: comp_def)
  have snd_ws: "sum_list (map fst (filter snd ?ws)) = sym_diff_weight h n1 n2"
    using sum_dist_entries(2) [OF r] by (simp add: comp_def filter_map)
  have le: "sym_diff_weight h n1 n2 \<le> union_weight h n1 n2"
    unfolding sym_diff_weight_def union_weight_def by (rule sum_mono2) auto
  have "foldR acc_step (map (entry_weight h) ?es) (0, 0) =
      Inr (union_weight h n1 n2, sym_diff_weight h n1 n2)"
    using accumulate_whole [of "(0, 0)" ?ws] assms(4) unfolding w fst_ws snd_ws by simp
  moreover have "NodeDistance env h n1 n2 =
      rbind (foldR acc_step (map (entry_weight h) ?es) (0, 0)) fraction_result"
    by (rule NodeDistance_eq [OF assms(1)]) (use assms(2) in \<open>auto simp: comparable_def not_both_files_def\<close>)
  moreover have "u64_to_double (union_weight h n1 n2) = of_nat (union_weight h n1 n2)"
    "u64_to_double (sym_diff_weight h n1 n2) = of_nat (sym_diff_weight h n1 n2)"
    using exact_u64_small [of "union_weight h n1 n2"] exact_u64_small [of "sym_diff_weight h n1 n2"] le assms(4)
    by (simp_all add: exact_u64_def)
  ultimately show ?thesis using le by (simp add: fraction_result_def)
qed

end

section \<open>\<open>GetPossibleEquivalents\<close>\<close>

definition equivalent_parents :: "heap \<Rightarrow> nid \<Rightarrow> nid \<Rightarrow> nid list \<Rightarrow> nid list" where
  "equivalent_parents h this child es =
     concat (map (\<lambda>e. case parent_of h e of
         None \<Rightarrow> []
       | Some p \<Rightarrow> if e \<noteq> child \<and> class_of h p \<noteq> None \<and> p \<noteq> this then [p] else []) es)"

lemma insert_equivalents_eq:
  assumes "tree_ok h"
  shows "\<forall>e \<in> set es. class_of h e \<noteq> None \<Longrightarrow>
    insert_equivalents h this child es acc = Inr (fold set_insert (equivalent_parents h this child es) acc)"
proof (induction es arbitrary: acc)
  case (Cons e es)
  from Cons.prems obtain nd where nd: "h_nodes h e = Some nd" "nd_eq_class nd \<noteq> None"
    by (cases "h_nodes h e") (auto simp: class_of_def)
  show ?case
  proof (cases "nd_parent nd")
    case (Some p)
    with nd have "parent_of h e = Some p" by simp
    from children_of_dom [OF tree_okD(5) [OF assms this]] obtain pd where "h_nodes h p = Some pd" by auto
    with Cons nd Some show ?thesis by (simp add: equivalent_parents_def IsEvaluated_def)
  qed (use Cons nd in \<open>simp add: equivalent_parents_def IsEvaluated_def\<close>)
qed (simp add: equivalent_parents_def)

text \<open>The evaluated nodes, other than the node itself, with a child in the class of one of the
  node's children.\<close>

definition possible_equivalents :: "heap \<Rightarrow> nid \<Rightarrow> nid set" where
  "possible_equivalents h n =
     {p. p \<noteq> n \<and> class_of h p \<noteq> None \<and> classes_below h p \<inter> classes_below h n \<noteq> {}}"

lemma possible_equivalents_iff:
  assumes "heap_ok h"
  shows "p \<in> possible_equivalents h n \<longleftrightarrow>
    (\<exists>c \<in> set (children_of h n). \<exists>k. class_of h c = Some k \<and> p \<in> set (equivalent_parents h n c (members h k)))"
proof -
  note tree = tree_okD [OF heap_okD(1) [OF assms]] and cls = classes_okD(2) [OF heap_okD(2) [OF assms]]
  have *: "parent_of h e = Some p \<longleftrightarrow> e \<in> set (children_of h p)" for e p
    using tree(4,5) by blast
  have uniq: "e \<in> set (children_of h p) \<Longrightarrow> c \<in> set (children_of h n) \<Longrightarrow> p \<noteq> n \<Longrightarrow> e \<noteq> c" for e c
    using one_parent [OF heap_okD(1) [OF assms]] by blast
  have "p \<in> set (case parent_of h e of None \<Rightarrow> []
        | Some p \<Rightarrow> if e \<noteq> c \<and> class_of h p \<noteq> None \<and> p \<noteq> n then [p] else []) \<longleftrightarrow>
      parent_of h e = Some p \<and> e \<noteq> c \<and> class_of h p \<noteq> None \<and> p \<noteq> n" for e c
    by (auto split: option.split)
  then have "p \<in> set (equivalent_parents h n c (members h k)) \<longleftrightarrow>
      (\<exists>e. class_of h e = Some k \<and> e \<in> set (children_of h p) \<and> e \<noteq> c) \<and> class_of h p \<noteq> None \<and> p \<noteq> n" for c k
    unfolding equivalent_parents_def cls * [symmetric] by fastforce
  then show ?thesis
    using uniq by (auto simp: possible_equivalents_def classes_below_def)
qed

lemma set_insert_child_equivalents:
  assumes "heap_ok h" and "class_of h c = Some k" and "distinct acc"
  shows "\<exists>acc'. insert_child_equivalents h n c acc = Inr acc' \<and> distinct acc' \<and>
    set acc' = set acc \<union> set (equivalent_parents h n c (members h k))"
proof -
  obtain cd where cd: "h_nodes h c = Some cd" "nd_eq_class cd = Some k"
    using assms(2) by (cases "h_nodes h c") (auto simp: class_of_def)
  obtain ec where ec: "h_classes h k = Some ec"
    using class_of_valid [OF heap_okD(2) [OF assms(1)] assms(2)] by auto
  have mem: "members h k = ec_nodes ec" using ec by (simp add: members_def)
  have "\<forall>e \<in> set (ec_nodes ec). class_of h e \<noteq> None"
    using classes_okD(2) [OF heap_okD(2) [OF assms(1)], of _ k] mem by auto
  from insert_equivalents_eq [OF heap_okD(1) [OF assms(1)] this] cd ec assms(3) show ?thesis
    by (auto simp: insert_child_equivalents_def IsEvaluated_def mem)
qed

context unordered_env
begin

lemma GetPossibleEquivalents_ok:
  assumes "heap_ok h" and "n \<in> dom (h_nodes h)" and "ready h n"
  shows "\<exists>ns. GetPossibleEquivalents env h n = Inr ns \<and> distinct ns \<and>
    set ns = possible_equivalents h n"
proof -
  obtain nd where nd: "h_nodes h n = Some nd" using assms(2) by auto
  have r: "IsReadyToEvaluate nd"
    using IsReadyToEvaluate_iff [OF heap_okD(3) [OF assms(1)] nd] assms(3) by simp
  let ?I = "\<lambda>cs acc. distinct acc \<and>
    (\<forall>p. p \<in> set acc \<longleftrightarrow> (\<exists>c \<in> set cs. \<exists>k. class_of h c = Some k \<and> p \<in> set (equivalent_parents h n c (members h k))))"
  have "\<exists>acc. foldR (insert_child_equivalents h n) (nd_children nd) [] = Inr acc \<and> ?I (nd_children nd) acc"
  proof (rule foldR_rule)
    fix ys c zs acc assume split: "nd_children nd = ys @ c # zs" and inv: "?I ys acc"
    obtain k where k: "class_of h c = Some k" using assms(3) nd split by (auto simp: ready_def)
    from set_insert_child_equivalents [OF assms(1) k, of acc n] inv
    show "\<exists>acc'. insert_child_equivalents h n c acc = Inr acc' \<and> ?I (ys @ [c]) acc'"
      using k by auto
  qed simp
  then obtain acc where acc: "foldR (insert_child_equivalents h n) (nd_children nd) [] = Inr acc"
    "?I (nd_children nd) acc" by blast
  then have "set acc = possible_equivalents h n"
    using nd possible_equivalents_iff [OF assms(1), of _ n] by auto
  with acc nd r show ?thesis by (simp add: GetPossibleEquivalents_def)
qed

end

end
