(* ===== verification/Propagation.thy ===== *)
theory Propagation
  imports Leaf_Classes Node_Distance
begin

text \<open>
  \<open>PropagateEquivalence\<close>: the work list holds exactly the nodes that may be evaluated, no
  assertion fires, the loop ends after one round per unevaluated node and every node has a class
  then. Every round is a step of \<open>prop_step\<close>, which says what the code promises: a node joins the
  class of a closest equivalent node when that one is within the tolerance, else a new class.
\<close>

section \<open>The closest candidate\<close>

lemma is_overflow_simps [simp]:
  "is_overflow (Inl (Undefined m)) \<longleftrightarrow> m = ''double to uint64_t''" "\<not> is_overflow (Inr x)"
  by (simp_all add: is_overflow_def)

lemma is_overflow_rbind: "is_overflow m \<Longrightarrow> is_overflow (rbind m f)"
  by (auto simp: is_overflow_def)

text \<open>A candidate for a node: what the loop of \<open>GetClosestNode\<close> asserts of it.\<close>

definition candidate :: "heap \<Rightarrow> nid \<Rightarrow> nid \<Rightarrow> bool" where
  "candidate h ref n \<longleftrightarrow> n \<noteq> ref \<and> class_of h n \<noteq> None \<and> comparable h ref n"

definition closest :: "dedup_env \<Rightarrow> heap \<Rightarrow> nid \<Rightarrow> nid set \<Rightarrow> nid \<Rightarrow> rat \<Rightarrow> bool" where
  "closest env h ref ns m d \<longleftrightarrow> m \<in> ns \<and> NodeDistance env h ref m = Inr d \<and>
     (\<forall>n \<in> ns. \<exists>e. NodeDistance env h ref n = Inr e \<and> d \<le> e)"

lemma dbl_1_1: "1 < dbl (11 / 10)"
  by code_simp

context unordered_env
begin

lemma closest_loop_ok:
  assumes "heap_ok h"
  shows "\<forall>n \<in> set its. candidate h ref n \<Longrightarrow> closest env h ref ns m d \<Longrightarrow>
    (\<exists>m' d'. closest_loop env h ref its (m, d) = Inr (m', d') \<and> closest env h ref (ns \<union> set its) m' d') \<or>
    (is_overflow (closest_loop env h ref its (m, d)) \<and> (\<exists>n \<in> set its. is_overflow (NodeDistance env h ref n)))"
proof (induction its arbitrary: ns m d)
  case (Cons n its)
  then have c: "n \<noteq> ref" "class_of h n \<noteq> None" "comparable h ref n"
    by (auto simp: candidate_def)
  obtain nd where nd: "h_nodes h n = Some nd" using c(3) by (auto simp: comparable_def)
  have ev: "IsEvaluated nd" using c(2) nd IsEvaluated_iff by blast
  from NodeDistance_range [OF assms c(3)] show ?case
  proof (elim disjE exE conjE)
    fix e assume e: "NodeDistance env h ref n = Inr e" "0 \<le> e" "e \<le> 1"
    let ?b = "if e < d then (n, e) else (m, d)"
    have "closest env h ref (ns \<union> {n}) (fst ?b) (snd ?b)"
      using Cons.prems(2) e(1) unfolding closest_def by (auto intro: order_trans)
    moreover have "closest_loop env h ref (n # its) (m, d) = closest_loop env h ref its ?b"
      using c nd ev e(1,3) dbl_1_1 by simp
    ultimately show ?thesis using Cons.IH [of "ns \<union> {n}" "fst ?b" "snd ?b"] Cons.prems(1) by auto
  next
    assume "is_overflow (NodeDistance env h ref n)"
    with c nd ev show ?thesis by (auto simp: is_overflow_def)
  qed
qed simp

lemma GetClosestNode_ok:
  assumes "heap_ok h" and "ns \<noteq> []" and "\<forall>n \<in> set ns. candidate h ref n"
  shows "(\<exists>m d. GetClosestNode env h ref ns = Inr (m, d) \<and> closest env h ref (set ns) m d) \<or>
    (is_overflow (GetClosestNode env h ref ns) \<and> (\<exists>n \<in> set ns. is_overflow (NodeDistance env h ref n)))"
proof -
  obtain n its where ns: "ns = n # its" using assms(2) by (cases ns) auto
  then have "comparable h ref n" using assms(3) by (simp add: candidate_def)
  from NodeDistance_range [OF assms(1) this] show ?thesis
  proof (elim disjE exE conjE)
    fix e assume e: "NodeDistance env h ref n = Inr e"
    then have "closest env h ref {n} n e" by (simp add: closest_def)
    from closest_loop_ok [OF assms(1) _ this] assms(3) ns e show ?thesis
      by (auto simp: GetClosestNode_def)
  next
    assume "is_overflow (NodeDistance env h ref n)"
    with ns show ?thesis by (simp add: GetClosestNode_def is_overflow_rbind)
  qed
qed

end

section \<open>One round of the work list\<close>

definition unevaluated :: "heap \<Rightarrow> nid set" where
  "unevaluated h = {n \<in> dom (h_nodes h). class_of h n = None}"

definition tolerance :: "dedup_env \<Rightarrow> rat" where
  "tolerance env = dbl (of_int (conf_tolerable_diff_pct (env_conf env)) / 100)"

text \<open>The promised step on the heap and the list of classes.\<close>

inductive prop_step :: "dedup_env \<Rightarrow> nid \<Rightarrow> heap \<times> cid list \<Rightarrow> heap \<times> cid list \<Rightarrow> bool" for env where
  join: "n \<in> unevaluated h \<Longrightarrow> ready h n \<Longrightarrow>
    closest env h n (possible_equivalents h n) p d \<Longrightarrow> d < tolerance env \<Longrightarrow>
    class_of h p = Some c \<Longrightarrow> AddNode env c n h = Inr h' \<Longrightarrow>
    prop_step env n (h, cs) (h', cs)"
| fresh: "n \<in> unevaluated h \<Longrightarrow> ready h n \<Longrightarrow>
    (\<And>q. q \<in> possible_equivalents h n \<Longrightarrow> \<exists>e. NodeDistance env h n q = Inr e \<and> tolerance env \<le> e) \<Longrightarrow>
    new_EqClass h = (c, h1) \<Longrightarrow> AddNode env c n h1 = Inr h' \<Longrightarrow>
    prop_step env n (h, cs) (h', cs @ [c])"

text \<open>The classes listed are the classes with members, each once.\<close>

definition listed :: "cid list \<Rightarrow> heap \<Rightarrow> bool" where
  "listed cs h \<longleftrightarrow> distinct cs \<and> set cs = {c. members h c \<noteq> []}"

context unordered_env
begin

lemma prop_step_effect:
  assumes "prop_step env n (h, cs) (h', cs')" and "heap_ok h" and "listed cs h"
  shows "grows h h' \<and> listed cs' h' \<and> (\<exists>c. class_of h' = (class_of h)(n := Some c))"
  using assms(1)
proof (cases rule: prop_step.cases)
  case (join p d c)
  have n: "n \<in> dom (h_nodes h)" "class_of h n = None"
    using join(2) unfolding unevaluated_def by blast+
  have c: "c \<in> dom (h_classes h)" by (rule class_of_valid [OF heap_okD(2) [OF assms(2)] join(6)])
  obtain g where g: "AddNode env c n h = Inr g" "heap_ok g" "same_tree h g"
    "class_of g = (class_of h)(n := Some c)" "members g = (members h)(c := members h c @ [n])"
    "dom (h_classes g) = dom (h_classes h)"
    using AddNode_ok [OF assms(2) n(1) join(3) n(2) c] by blast
  have "p \<in> set (members h c)" using classes_okD(2) [OF heap_okD(2) [OF assms(2)]] join(6) by blast
  then have "members h c \<noteq> []" by auto
  then have "listed cs g" using assms(3) g(5) by (auto simp: listed_def)
  moreover have "grows h g" using g n(2) by (simp add: grows_def)
  ultimately show ?thesis using g(1,4) join by auto
next
  case (fresh c h1)
  have n: "n \<in> dom (h_nodes h)" "class_of h n = None"
    using fresh(2) unfolding unevaluated_def by blast+
  note m = new_EqClass_ok [OF assms(2), unfolded fresh(5) fst_conv snd_conv]
  have r: "ready h1 n" using fresh(3) ready_same_tree [OF m(2,3)] by simp
  have d: "n \<in> dom (h_nodes h1)" using n(1) same_treeD(3) [OF m(2)] by blast
  obtain g where g: "AddNode env c n h1 = Inr g" "heap_ok g" "same_tree h1 g"
    "class_of g = (class_of h1)(n := Some c)" "members g = (members h1)(c := members h1 c @ [n])"
    "dom (h_classes g) = dom (h_classes h1)"
    using AddNode_ok [OF m(1) d r _ m(6)] n(2) m(3) by auto
  have "listed (cs @ [c]) g" using assms(3) g(5) m(4,11) by (auto simp: listed_def)
  moreover have "same_tree h g" by (rule same_tree_trans [OF m(2) g(3)])
  then have "grows h g" using g(2,4,6) m(3,9) n(2) by (auto simp: grows_def)
  ultimately show ?thesis using g(1,4) m(3) fresh by auto
qed

end

context unordered_env
begin

lemma possible_equivalents_candidates:
  assumes "heap_ok h" and "n \<in> dom (h_nodes h)" and "ready h n" and "p \<in> possible_equivalents h n"
  shows "candidate h n p"
proof -
  have p: "p \<noteq> n" "class_of h p \<noteq> None" "classes_below h n \<noteq> {}"
    using assms(4) by (auto simp: possible_equivalents_def)
  then obtain c where c: "c \<in> set (children_of h n)" by (auto simp: classes_below_def)
  have "map_option nd_type (h_nodes h n) \<noteq> Some FILE"
    using tree_okD(7) [OF heap_okD(1) [OF assms(1)], of n] c by (auto simp: children_of_def)
  moreover have "p \<in> dom (h_nodes h)" using p(2) class_of_dom by blast
  moreover have "ready h p" using evaluated_ready [OF heap_okD(3) [OF assms(1)] p(2)] .
  ultimately show ?thesis
    using p assms(2,3) by (simp only: candidate_def comparable_def not_both_files_def) blast
qed

lemma new_class_with_ok:
  assumes "heap_ok h" and "n \<in> unevaluated h" and "ready h n"
    and "\<And>q. q \<in> possible_equivalents h n \<Longrightarrow> \<exists>e. NodeDistance env h n q = Inr e \<and> tolerance env \<le> e"
  shows "\<exists>cs' h'. new_class_with env n cs h = Inr (cs', h') \<and> prop_step env n (h, cs) (h', cs')"
proof -
  obtain c h1 where new: "new_EqClass h = (c, h1)" by (cases "new_EqClass h")
  note m = new_EqClass_ok [OF assms(1), unfolded new fst_conv snd_conv]
  have "n \<in> dom (h_nodes h)" "class_of h n = None"
    using assms(2) unfolding unevaluated_def by blast+
  then have "n \<in> dom (h_nodes h1)" "class_of h1 n = None" "ready h1 n"
    using same_treeD(3) [OF m(2)] m(3) ready_same_tree [OF m(2,3)] assms(3) by simp_all
  then obtain h' where h': "AddNode env c n h1 = Inr h'"
    using AddNode_ok [OF m(1) _ _ _ m(6)] by blast
  with prop_step.fresh [OF assms(2,3,4) new h'] show ?thesis
    by (simp add: new_class_with_def new)
qed

text \<open>The body of the loop implements the promised step.\<close>

lemma classify_node_ok:
  assumes "heap_ok h" and "n \<in> unevaluated h" and "ready h n"
  shows "(\<exists>cs' h'. classify_node env n cs h = Inr (cs', h') \<and> prop_step env n (h, cs) (h', cs')) \<or>
    (is_overflow (classify_node env n cs h) \<and> (\<exists>p \<in> possible_equivalents h n. is_overflow (NodeDistance env h n p)))"
proof -
  have n: "n \<in> dom (h_nodes h)" "class_of h n = None"
    using assms(2) unfolding unevaluated_def by blast+
  obtain ns where ns: "GetPossibleEquivalents env h n = Inr ns" "set ns = possible_equivalents h n"
    using GetPossibleEquivalents_ok [OF assms(1) n(1) assms(3)] by blast
  show ?thesis
  proof (cases "ns = []")
    case True
    with ns new_class_with_ok [OF assms, of cs] show ?thesis by (auto simp: classify_node_def)
  next
    case False
    have "\<forall>p \<in> set ns. candidate h n p"
      using possible_equivalents_candidates [OF assms(1) n(1) assms(3)] ns(2) by blast
    from GetClosestNode_ok [OF assms(1) False this] show ?thesis
    proof (elim disjE exE conjE)
      fix p d assume g: "GetClosestNode env h n ns = Inr (p, d)" and cl: "closest env h n (set ns) p d"
      show ?thesis
      proof (cases "d < tolerance env")
        case True
        have p: "p \<in> possible_equivalents h n" using cl ns(2) by (simp add: closest_def)
        then obtain c where c: "class_of h p = Some c" by (auto simp: possible_equivalents_def)
        then obtain pd where pd: "h_nodes h p = Some pd" "nd_eq_class pd = Some c"
          by (cases "h_nodes h p") (auto simp: class_of_def)
        have "c \<in> dom (h_classes h)" by (rule class_of_valid [OF heap_okD(2) [OF assms(1)] c])
        then obtain h' where h': "AddNode env c n h = Inr h'"
          using AddNode_ok [OF assms(1) n(1) assms(3) n(2)] by blast
        have "classify_node env n cs h = Inr (cs, h')"
          using False ns(1) g True pd h'
          by (simp add: classify_node_def tolerance_def [symmetric] GetEqClass_def)
        with prop_step.join [OF assms(2,3) _ True c h'] cl ns(2) show ?thesis by auto
      next
        case False': False
        have "\<exists>e. NodeDistance env h n q = Inr e \<and> tolerance env \<le> e"
          if "q \<in> possible_equivalents h n" for q
          using cl that False' unfolding closest_def ns(2) by force
        from new_class_with_ok [OF assms this, of cs] False ns(1) g False' show ?thesis
          by (auto simp: classify_node_def tolerance_def)
      qed
    next
      assume "is_overflow (GetClosestNode env h n ns)" "\<exists>p \<in> set ns. is_overflow (NodeDistance env h n p)"
      with False ns show ?thesis by (simp add: classify_node_def is_overflow_rbind)
    qed
  qed
qed

end

section \<open>The work list\<close>

definition ready_queue :: "nid list \<Rightarrow> heap \<Rightarrow> bool" where
  "ready_queue q h \<longleftrightarrow> distinct q \<and> set q = {n \<in> unevaluated h. ready h n}"

definition run :: "dedup_env \<Rightarrow> heap \<times> cid list \<Rightarrow> heap \<times> cid list \<Rightarrow> bool" where
  "run env = (\<lambda>s s'. \<exists>n. prop_step env n s s')\<^sup>*\<^sup>*"

text \<open>After a step, the parent of the node is the only node that may have become ready.\<close>

lemma ready_nodes_step:
  assumes "heap_ok h" and "ready_queue (n # q) h" and "same_tree h h'"
    and "class_of h' = (class_of h)(n := Some c)"
  shows "{m \<in> unevaluated h'. ready h' m} = set q \<union> {p. parent_of h n = Some p \<and> ready h' p}"
    and "parent_of h n = Some p \<Longrightarrow> p \<notin> set q"
proof -
  note tree = tree_okD [OF heap_okD(1) [OF assms(1)]]
  have q: "n \<notin> set q" "n \<in> unevaluated h" "insert n (set q) = {m \<in> unevaluated h. ready h m}"
    using assms(2) by (auto simp: ready_queue_def)
  have un: "m \<in> unevaluated h' \<longleftrightarrow> m \<in> unevaluated h \<and> m \<noteq> n" for m
    unfolding unevaluated_def assms(4) same_treeD(3) [OF assms(3)] by auto
  have same: "ready h' m \<longleftrightarrow> ready h m" if "parent_of h n \<noteq> Some m" for m
  proof -
    have "n \<notin> set (children_of h m)" using tree(4) that by blast
    then show ?thesis
      unfolding ready_def same_treeD(1) [OF assms(3)] assms(4) by (metis fun_upd_apply)
  qed
  have p: "p \<in> unevaluated h" "\<not> ready h p" "p \<noteq> n" if "parent_of h n = Some p" for p
  proof -
    have c: "n \<in> set (children_of h p)" by (rule tree(5) [OF that])
    have nc: "class_of h n = None" using q(2) by (simp add: unevaluated_def)
    show r: "\<not> ready h p" using c nc unfolding ready_def by blast
    have "class_of h p = None" using evaluated_ready [OF heap_okD(3) [OF assms(1)]] r by blast
    then show "p \<in> unevaluated h" using children_of_dom [OF c] by (simp add: unevaluated_def domIff)
    show "p \<noteq> n" using tree(2) [OF c] by simp
  qed
  have q': "m \<in> set q \<longleftrightarrow> m \<in> unevaluated h \<and> ready h m \<and> m \<noteq> n" for m using q(1,3) by blast
  show "p \<notin> set q" if "parent_of h n = Some p" using p(2) [OF that] q' by blast
  have "m \<in> unevaluated h' \<and> ready h' m \<longleftrightarrow> m \<in> set q \<or> parent_of h n = Some m \<and> ready h' m" for m
  proof (cases "parent_of h n = Some m")
    case True
    show ?thesis using p [OF True] True un [of m] q' [of m] by blast
  next
    case False
    show ?thesis using same [OF False] False un [of m] q' [of m] by blast
  qed
  then show "{m \<in> unevaluated h'. ready h' m} = set q \<union> {p. parent_of h n = Some p \<and> ready h' p}" by blast
qed

lemma ready_queue_step:
  assumes "heap_ok h" and "ready_queue (n # q) h" and "same_tree h h'"
    and "class_of h' = (class_of h)(n := Some c)"
  shows "ready_queue (if \<exists>p. parent_of h n = Some p \<and> ready h' p then q @ [the (parent_of h n)] else q) h'"
proof (cases "\<exists>p. parent_of h n = Some p \<and> ready h' p")
  case True
  then show ?thesis
    using ready_nodes_step [OF assms] assms(2) by (auto simp: ready_queue_def)
next
  case False
  then have "{m \<in> unevaluated h'. ready h' m} = set q" unfolding ready_nodes_step(1) [OF assms] by blast
  then show ?thesis
    unfolding if_not_P [OF False] using assms(2) by (simp add: ready_queue_def)
qed

section \<open>The loop\<close>

lemma finite_unevaluated: "tree_ok h \<Longrightarrow> finite (unevaluated h)"
  by (rule finite_subset [of _ "{..<h_next_node h}"]) (auto simp: unevaluated_def dest: tree_okD(1))

lemma parent_ready_eq:
  assumes "heap_ok h" and "h_nodes h n = Some nd"
  shows "parent_ready h (nd_parent nd) = Inr (\<exists>p. parent_of h n = Some p \<and> ready h p)"
proof (cases "nd_parent nd")
  case (Some p)
  then have par: "parent_of h n = Some p" using assms(2) by simp
  then obtain pd where pd: "h_nodes h p = Some pd"
    using children_of_dom [OF tree_okD(5) [OF heap_okD(1) [OF assms(1)]]] by blast
  with Some par IsReadyToEvaluate_iff [OF heap_okD(3) [OF assms(1)] pd] show ?thesis
    by (simp add: parent_ready_def)
qed (use assms(2) in \<open>simp add: parent_ready_def\<close>)

lemma run_refl: "run env s s"
  by (simp add: run_def)

lemma run_step: "prop_step env n s t \<Longrightarrow> run env t u \<Longrightarrow> run env s u"
  unfolding run_def by (rule converse_rtranclp_into_rtranclp) auto

text \<open>A run that reaches a node at which a sum of weights overflows.\<close>

definition overflow_reached :: "dedup_env \<Rightarrow> heap \<times> cid list \<Rightarrow> bool" where
  "overflow_reached env s \<longleftrightarrow>
     (\<exists>n h cs. run env s (h, cs) \<and> n \<in> unevaluated h \<and> ready h n \<and>
        (\<exists>p \<in> possible_equivalents h n. is_overflow (NodeDistance env h n p)))"

lemma overflow_reached_now:
  "n \<in> unevaluated h \<Longrightarrow> ready h n \<Longrightarrow> \<exists>p \<in> possible_equivalents h n. is_overflow (NodeDistance env h n p) \<Longrightarrow>
    overflow_reached env (h, cs)"
  unfolding overflow_reached_def using run_refl by blast

lemma overflow_reached_step: "prop_step env n s t \<Longrightarrow> overflow_reached env t \<Longrightarrow> overflow_reached env s"
  unfolding overflow_reached_def using run_step by blast

lemma card_unevaluated_step:
  assumes "tree_ok h" and "n \<in> unevaluated h" and "same_tree h h'"
    and "class_of h' = (class_of h)(n := Some c)"
  shows "card (unevaluated h) = Suc (card (unevaluated h'))"
proof -
  have "unevaluated h' = unevaluated h - {n}"
    unfolding unevaluated_def assms(4) same_treeD(3) [OF assms(3)] by auto
  then show ?thesis using card.remove [OF finite_unevaluated [OF assms(1)] assms(2)] by simp
qed

context unordered_env
begin

text \<open>One round: the assertions at its beginning hold.\<close>

lemma propagate_loop_round:
  assumes "heap_ok h" and "n \<in> unevaluated h" and "ready h n"
  shows "propagate_loop (Suc k) env (n # q) cs h =
    rbind (classify_node env n cs h) (\<lambda>(cs', h'). rbind (parent_ready h' (parent_of h n)) (\<lambda>ready'.
      propagate_loop k env (if ready' then q @ [the (parent_of h n)] else q) cs' h'))"
proof -
  have nd': "n \<in> dom (h_nodes h)" and nc: "class_of h n = None"
    using assms(2) unfolding unevaluated_def by blast+
  obtain nd where nd: "h_nodes h n = Some nd" using nd' by blast
  have asserts: "IsReadyToEvaluate nd" "\<not> IsEvaluated nd"
    using IsReadyToEvaluate_iff [OF heap_okD(3) [OF assms(1)] nd] assms(3) nc nd
    by (simp_all add: IsEvaluated_def)
  have no_parent: "\<not> (\<exists>p. parent_of h n = Some p \<and> ready h p)"
    using tree_okD(5) [OF heap_okD(1) [OF assms(1)]] nc by (auto simp: ready_def)
  note no_parent' = no_parent [unfolded parent_of_node [OF nd]]
  show ?thesis
    by (simp only: propagate_loop.simps nd deref_Some asserts rassert_True parent_of_node [OF nd]
        parent_ready_eq [OF assms(1) nd] no_parent' rbind.simps not_False_eq_True)
qed

text \<open>What every step keeps holds after a run.\<close>

lemma run_invariant:
  assumes "run env s s'" and "heap_ok (fst s)" and "listed (snd s) (fst s)" and "I (fst s)"
    and "\<And>n h cs h' cs'. prop_step env n (h, cs) (h', cs') \<Longrightarrow> heap_ok h \<Longrightarrow> listed cs h \<Longrightarrow> I h \<Longrightarrow> I h'"
  shows "heap_ok (fst s') \<and> listed (snd s') (fst s') \<and> I (fst s')"
  using assms(1) unfolding run_def
proof (induction rule: rtranclp_induct)
  case base
  then show ?case using assms(2-4) by blast
next
  case (step t u)
  obtain h cs h' cs' where t: "t = (h, cs)" "u = (h', cs')" by (cases t; cases u)
  from step(2) t obtain n where st: "prop_step env n (h, cs) (h', cs')" by blast
  have IH: "heap_ok h" "listed cs h" "I h" using step.IH t by simp_all
  from prop_step_effect [OF st IH(1,2)] assms(5) [OF st IH] t show ?case by (auto dest: growsD(1))
qed

lemma propagate_loop_ok:
  assumes "heap_ok h" and "listed cs h" and "ready_queue q h" and "card (unevaluated h) \<le> k"
  shows "(\<exists>cs' h'. propagate_loop k env q cs h = Inr (cs', h') \<and> run env (h, cs) (h', cs') \<and>
      grows h h' \<and> listed cs' h' \<and> ready_queue [] h') \<or>
    is_overflow (propagate_loop k env q cs h) \<and> overflow_reached env (h, cs)"
  using assms
proof (induction k arbitrary: q cs h)
  case 0
  have "unevaluated h = {}"
    using 0(4) finite_unevaluated [OF heap_okD(1) [OF 0(1)]] by simp
  with 0(3) have "q = []" by (simp add: ready_queue_def)
  with 0 show ?case by (auto simp: run_refl grows_refl)
next
  case (Suc k)
  show ?case
  proof (cases q)
    case Nil
    with Suc.prems show ?thesis by (auto simp: run_refl grows_refl)
  next
    case (Cons n q')
    note ok = Suc.prems(1) and tree = heap_okD(1) [OF Suc.prems(1)]
    have n: "n \<in> unevaluated h" "ready h n"
      using Suc.prems(3) Cons by (auto simp: ready_queue_def)
    note body = propagate_loop_round [OF ok n, where k = k and q = q' and cs = cs, folded Cons]
    from classify_node_ok [OF ok n, of cs] show ?thesis
    proof (elim disjE exE conjE)
      fix cs1 h1 assume c: "classify_node env n cs h = Inr (cs1, h1)"
        and st: "prop_step env n (h, cs) (h1, cs1)"
      from prop_step_effect [OF st ok Suc.prems(2)] obtain d where g: "grows h h1" "listed cs1 h1"
        "class_of h1 = (class_of h)(n := Some d)" by blast
      note same = growsD(2) [OF g(1)]
      have "n \<in> dom (h_nodes h1)" using n(1) same_treeD(3) [OF same] unfolding unevaluated_def by blast
      then obtain nd1 where nd1: "h_nodes h1 n = Some nd1" by blast
      let ?r = "\<exists>p. parent_of h n = Some p \<and> ready h1 p"
      let ?q = "if ?r then q' @ [the (parent_of h n)] else q'"
      have queue: "ready_queue ?q h1"
        by (rule ready_queue_step [OF ok _ same g(3)]) (use Suc.prems(3) Cons in simp)
      have fuel: "card (unevaluated h1) \<le> k"
        using card_unevaluated_step [OF tree n(1) same g(3)] Suc.prems(4) by simp
      have pr: "parent_ready h1 (parent_of h n) = Inr ?r"
        using parent_ready_eq [OF growsD(1) [OF g(1)] nd1] parent_of_node [OF nd1] unfolding same_treeD(2) [OF same] by simp
      have next_iter: "propagate_loop (Suc k) env q cs h = propagate_loop k env ?q cs1 h1"
        unfolding body c pr rbind.simps case_prod_conv ..
      from Suc.IH [OF growsD(1) [OF g(1)] g(2) queue fuel] show ?thesis
        unfolding next_iter using run_step [OF st] overflow_reached_step [OF st] grows_trans [OF g(1)] by blast
    next
      assume "is_overflow (classify_node env n cs h)"
        "\<exists>p \<in> possible_equivalents h n. is_overflow (NodeDistance env h n p)"
      then show ?thesis unfolding body using overflow_reached_now [OF n] by (simp add: is_overflow_rbind)
    qed
  qed
qed

end

section \<open>\<open>PropagateEquivalence\<close>\<close>

text \<open>The whole heap is the tree of the given root.\<close>

definition spans :: "heap \<Rightarrow> nid \<Rightarrow> bool" where
  "spans h r \<longleftrightarrow> r \<in> dom (h_nodes h) \<and> dom (h_nodes h) = set (nodes_below h r)"

lemma all_evaluatedI:
  assumes "tree_ok h" and "ready_queue [] h"
  shows "all_evaluated h"
  unfolding all_evaluated_def
proof
  fix n assume "n \<in> dom (h_nodes h)"
  with assms(1) show "class_of h n \<noteq> None"
  proof (induction rule: tree_induct)
    case (node n)
    then have "ready h n" unfolding ready_def by blast
    with node(1) assms(2) show ?case by (auto simp: ready_queue_def unevaluated_def)
  qed
qed

lemma GetNodesReadyToEval_eq:
  assumes "heap_ok h" and "r \<in> dom (h_nodes h)" and "h_next_node h - r \<le> k"
  shows "GetNodesReadyToEval k r h =
    Inr (filter (\<lambda>n. ready h n \<and> class_of h n = None) (nodes_below h r))"
proof -
  let ?P = "\<lambda>n. ready h n \<and> class_of h n = None"
  have "Traverse k collect_ready r (h, []) = foldR collect_ready (nodes_below h r) (h, [])"
    by (rule Traverse_eq [OF heap_okD(1) [OF assms(1)] assms(2,3)])
      (auto simp: collect_ready_def res_simps split: if_splits)
  moreover have "foldR collect_ready ns (h, acc) = Inr (h, acc @ filter ?P ns)"
    if "set ns \<subseteq> dom (h_nodes h)" for ns acc
    using that
  proof (induction ns arbitrary: acc)
    case (Cons n ns)
    then obtain nd where nd: "h_nodes h n = Some nd" by auto
    have "IsReadyToEvaluate nd \<and> \<not> IsEvaluated nd \<longleftrightarrow> ?P n"
      using IsReadyToEvaluate_iff [OF heap_okD(3) [OF assms(1)] nd] IsEvaluated_iff [OF nd] by blast
    then have "collect_ready n (h, acc) = Inr (h, if ?P n then acc @ [n] else acc)"
      by (simp add: collect_ready_def nd)
    with Cons show ?case by simp
  qed simp
  ultimately show ?thesis
    using below_dom [OF heap_okD(1) [OF assms(1)] assms(2)]
    by (simp add: GetNodesReadyToEval_def subset_eq)
qed

context unordered_env
begin

lemma PropagateEquivalence_ok:
  assumes "heap_ok h" and "listed cs h" and "spans h r" and "h_next_node h \<le> k"
  shows "(\<exists>cs' h'. PropagateEquivalence k env r cs h = Inr (cs', h') \<and> run env (h, cs) (h', cs') \<and>
      grows h h' \<and> listed cs' h' \<and> all_evaluated h') \<or>
    is_overflow (PropagateEquivalence k env r cs h) \<and> overflow_reached env (h, cs)"
proof -
  note tree = heap_okD(1) [OF assms(1)]
  have r: "r \<in> dom (h_nodes h)" and sp: "dom (h_nodes h) = set (nodes_below h r)"
    using assms(3) unfolding spans_def by blast+
  let ?q = "filter (\<lambda>n. ready h n \<and> class_of h n = None) (nodes_below h r)"
  have q: "GetNodesReadyToEval k r h = Inr ?q"
    by (rule GetNodesReadyToEval_eq [OF assms(1) r]) (use assms(4) in simp)
  have "set ?q = {n \<in> unevaluated h. ready h n}"
    unfolding unevaluated_def sp by auto
  then have queue: "ready_queue ?q h"
    using nodes_below_distinct [OF tree r] by (simp add: ready_queue_def)
  have "unevaluated h \<subseteq> {..<h_next_node h}" using tree_okD(1) [OF tree] by (auto simp: unevaluated_def)
  then have "card (unevaluated h) \<le> k"
    using card_mono [of "{..<h_next_node h}" "unevaluated h"] assms(4) by simp
  from propagate_loop_ok [OF assms(1,2) queue this] show ?thesis
  proof (elim disjE exE conjE)
    fix cs' h' assume loop: "propagate_loop k env ?q cs h = Inr (cs', h')" "run env (h, cs) (h', cs')"
      "grows h h'" "listed cs' h'" "ready_queue [] h'"
    have ev: "all_evaluated h'"
      by (rule all_evaluatedI [OF heap_okD(1) [OF growsD(1) [OF loop(3)]] loop(5)])
    have r': "r \<in> dom (h_nodes h')" using r same_treeD(3) [OF growsD(2) [OF loop(3)]] by blast
    then obtain nd where nd: "h_nodes h' r = Some nd" by blast
    moreover have "class_of h' r \<noteq> None" using ev r' unfolding all_evaluated_def by blast
    ultimately have nd: "h_nodes h' r = Some nd" "nd_eq_class nd \<noteq> None" by simp_all
    have "PropagateEquivalence k env r cs h = Inr (cs', h')"
      using nd by (simp add: PropagateEquivalence_def q loop(1) IsEvaluated_def)
    with loop ev show ?thesis by blast
  next
    assume "is_overflow (propagate_loop k env ?q cs h)" "overflow_reached env (h, cs)"
    then show ?thesis by (simp add: PropagateEquivalence_def q is_overflow_rbind)
  qed
qed

end

end
