(* ===== verification/Uniqueness.thy ===== *)
theory Uniqueness
  imports Leaf_Classes
begin

text \<open>
  \<open>CalculateUniqueness\<close>, \<open>SortEqClasses\<close> and \<open>GetInteresingEqClasses\<close>: the uniqueness of a
  directory is the weight of the files below it whose duplicates all lie below it, divided by the
  weight of all files below it; it is a fraction in spite of rounding. The classes to print are
  those with several members of which at least one is not explained by a duplicated parent.
\<close>

section \<open>Heaps that differ in the fractions only\<close>

definition node_core :: "heap \<Rightarrow> nid \<Rightarrow> Node option" where
  "node_core h n = map_option (\<lambda>x. x\<lparr>nd_unique_fraction := None\<rparr>) (h_nodes h n)"

definition same_core :: "heap \<Rightarrow> heap \<Rightarrow> bool" where
  "same_core h h' \<longleftrightarrow> node_core h' = node_core h \<and> h_classes h' = h_classes h \<and>
     h_next_node h' = h_next_node h \<and> h_next_class h' = h_next_class h"

definition frac_of :: "heap \<Rightarrow> nid \<Rightarrow> rat option" where
  "frac_of h n = Option.bind (h_nodes h n) nd_unique_fraction"

lemma same_core_refl [simp]: "same_core h h"
  by (simp add: same_core_def)

lemma same_core_trans: "same_core h h' \<Longrightarrow> same_core h' h'' \<Longrightarrow> same_core h h''"
  by (simp add: same_core_def)

lemma node_core_eq:
  assumes "node_core h' n = node_core h n" and "h_nodes h n = Some nd"
  shows "\<exists>nd'. h_nodes h' n = Some nd' \<and>
    nd'\<lparr>nd_unique_fraction := None\<rparr> = nd\<lparr>nd_unique_fraction := None\<rparr>"
  using assms by (auto simp: node_core_def)

lemma core_fields:
  assumes "nd'\<lparr>nd_unique_fraction := None\<rparr> = nd\<lparr>nd_unique_fraction := None\<rparr>"
  shows "nd_name nd' = nd_name nd \<and> nd_type nd' = nd_type nd \<and> nd_size nd' = nd_size nd \<and>
    nd_parent nd' = nd_parent nd \<and> nd_children nd' = nd_children nd \<and>
    nd_eq_class nd' = nd_eq_class nd \<and> nd_not_evaluated_children nd' = nd_not_evaluated_children nd"
  using assms by (cases nd; cases nd') simp

lemma same_core_node:
  assumes "same_core h h'" and "h_nodes h n = Some nd"
  shows "\<exists>nd'. h_nodes h' n = Some nd' \<and> nd_type nd' = nd_type nd \<and>
    nd_children nd' = nd_children nd \<and> nd_eq_class nd' = nd_eq_class nd"
proof -
  have "node_core h' n = node_core h n" using assms(1) by (simp add: same_core_def)
  from node_core_eq [OF this assms(2)] core_fields show ?thesis by metis
qed

lemma same_core_views:
  assumes "same_core h h'"
  shows "same_tree h h'" and "class_of h' = class_of h" and "members h' = members h"
    and "weight_of h' = weight_of h" and "pending h' = pending h"
proof -
  have c: "node_core h' n = node_core h n" for n using assms by (simp add: same_core_def)
  have *: "static_part h' n = static_part h n \<and> class_of h' n = class_of h n \<and> pending h' n = pending h n" for n
  proof (cases "h_nodes h n")
    case None
    with c [of n] have "h_nodes h' n = None" by (simp add: node_core_def)
    with None show ?thesis by (simp add: static_part_def class_of_def pending_def)
  next
    case (Some nd)
    from node_core_eq [OF c this] obtain nd' where "h_nodes h' n = Some nd'"
      "nd'\<lparr>nd_unique_fraction := None\<rparr> = nd\<lparr>nd_unique_fraction := None\<rparr>" by blast
    with core_fields [OF this(2)] Some show ?thesis
      by (simp add: static_part_def class_of_def pending_def)
  qed
  then show "same_tree h h'" "class_of h' = class_of h" "pending h' = pending h"
    using assms by (auto simp: same_tree_def same_core_def)
  show "members h' = members h" "weight_of h' = weight_of h"
    using assms by (simp_all add: same_core_def members_def weight_of_def fun_eq_iff)
qed

lemma heap_ok_same_core:
  assumes "same_core h h'" and "heap_ok h"
  shows "heap_ok h'"
proof -
  note v = same_core_views [OF assms(1)]
  have "counters_ok h'"
    using heap_okD(3) [OF assms(2)] unfolding counters_ok_def v same_treeD(1) [OF v(1)] .
  moreover have "classes_ok h'"
    using heap_okD(2) [OF assms(2)] assms(1) unfolding classes_ok_def v same_core_def by metis
  ultimately show ?thesis
    using tree_ok_same [OF v(1) heap_okD(1) [OF assms(2)]] by (simp add: heap_ok_def)
qed

lemma same_core_frac:
  "same_core h (upd_node n (\<lambda>x. x\<lparr>nd_unique_fraction := f\<rparr>) h)"
  by (simp add: same_core_def view_simps fun_eq_iff node_core_def option.map_comp comp_def)

lemma frac_of_upd:
  "n \<in> dom (h_nodes h) \<Longrightarrow>
    frac_of (upd_node n (\<lambda>x. x\<lparr>nd_unique_fraction := Some f\<rparr>) h) = (frac_of h)(n := Some f)"
  by (auto simp: frac_of_def view_simps fun_eq_iff)

section \<open>The fraction of a directory\<close>

text \<open>All duplicates of a file are among the given files.\<close>

definition unique_among :: "heap \<Rightarrow> nid set \<Rightarrow> nid \<Rightarrow> bool" where
  "unique_among h ds d \<longleftrightarrow> set (members h (the (class_of h d))) \<subseteq> ds"

definition class_weight :: "heap \<Rightarrow> nid \<Rightarrow> rat" where
  "class_weight h d = weight_of h (the (class_of h d))"

definition dir_fraction :: "heap \<Rightarrow> nid list \<Rightarrow> rat" where
  "dir_fraction h ds =
     (let total = dbl_sum (map (class_weight h) ds) 0;
          unique = dbl_sum (map (class_weight h) (filter (unique_among h (set ds)) ds)) 0
      in if total = 0 then 0 else dbl (unique / total))"

lemma dbl_sum_filter_le:
  "\<forall>x \<in> set xs. 0 \<le> w x \<Longrightarrow> b \<le> a \<Longrightarrow> dbl a = a \<Longrightarrow>
    dbl_sum (map w (filter P xs)) b \<le> dbl_sum (map w xs) a"
proof (induction xs arbitrary: a b)
  case (Cons x xs)
  have "dbl (b + w x) \<le> dbl (a + w x)" using Cons.prems(2) by (simp add: dbl_mono)
  moreover have "b \<le> dbl (a + w x)"
    using ieee.rnd_add_ge [OF Cons.prems(3), of "w x"] Cons.prems(1,2) by simp
  ultimately show ?case using Cons by (simp add: dbl_idem)
qed simp

lemma dir_fraction_range:
  assumes "classes_ok h"
  shows "0 \<le> dir_fraction h ds" and "dir_fraction h ds \<le> 1"
proof -
  have w: "\<forall>x \<in> set ds. 0 \<le> class_weight h x"
    using classes_okD(4) [OF assms] by (simp add: class_weight_def)
  then have "0 \<le> dbl_sum (map (class_weight h) (filter P ds)) 0" for P
    by (intro dbl_sum_nonneg) auto
  moreover have "dbl_sum (map (class_weight h) (filter P ds)) 0 \<le> dbl_sum (map (class_weight h) ds) 0" for P
    by (rule dbl_sum_filter_le [OF w]) (simp_all add: dbl_def)
  ultimately show "0 \<le> dir_fraction h ds" "dir_fraction h ds \<le> 1"
    by (auto simp: dir_fraction_def Let_def intro: ieee.rnd_fraction)
qed

text \<open>Nothing below is duplicated elsewhere, or everything is.\<close>

lemma dir_fraction_unique:
  "(\<forall>d \<in> set ds. unique_among h (set ds) d) \<Longrightarrow> dir_fraction h ds \<in> {0, 1}"
  using ieee.rnd_1 by (auto simp: dir_fraction_def Let_def filter_id_conv [THEN iffD2])

lemma dir_fraction_duplicated:
  assumes "\<forall>d \<in> set ds. \<not> unique_among h (set ds) d"
  shows "dir_fraction h ds = 0"
proof -
  have "filter (unique_among h (set ds)) ds = []" using assms by (simp add: filter_empty_conv)
  then show ?thesis by (simp add: dir_fraction_def Let_def)
qed

context unordered_env
begin

lemma add_uniqueness_eq:
  assumes "heap_ok h" and "class_of h d = Some c"
  shows "add_uniqueness env h ds d (t, u) =
    Inr (dbl (t + class_weight h d), if unique_among h (set ds) d then dbl (u + class_weight h d) else u)"
proof -
  have c: "c \<in> dom (h_classes h)" by (rule class_of_valid [OF heap_okD(2) [OF assms(1)] assms(2)])
  obtain nd ec where nd: "h_nodes h d = Some nd" "nd_eq_class nd = Some c" and ec: "h_classes h c = Some ec"
    using assms(2) c by (cases "h_nodes h d") (auto simp: class_of_def)
  have "GetWeight env h d = Inr (class_weight h d)"
    using nd ec by (simp add: GetWeight_def IsEvaluated_def class_weight_def weight_of_def)
  moreover have "HasDuplicateElsewhere h d ds = Inr (\<not> unique_among h (set ds) d)"
    using nd ec assms(2)
    by (auto simp: HasDuplicateElsewhere_def GetEqClass_def unique_among_def members_def)
  ultimately show ?thesis by (simp add: add_uniqueness_def)
qed

lemma add_uniqueness_loop:
  assumes "heap_ok h"
  shows "\<forall>d \<in> set xs. class_of h d \<noteq> None \<Longrightarrow>
    foldR (add_uniqueness env h ds) xs (t, u) =
      Inr (dbl_sum (map (class_weight h) xs) t,
        dbl_sum (map (class_weight h) (filter (unique_among h (set ds)) xs)) u)"
proof (induction xs arbitrary: t u)
  case (Cons x xs)
  then obtain c where "class_of h x = Some c" by auto
  from add_uniqueness_eq [OF assms this] Cons show ?case by simp
qed simp

end

section \<open>\<open>CalculateUniqueness\<close>\<close>

definition is_file :: "heap \<Rightarrow> nid \<Rightarrow> bool" where
  "is_file h n \<longleftrightarrow> map_option nd_type (h_nodes h n) = Some FILE"

definition files_below :: "heap \<Rightarrow> nid \<Rightarrow> nid set" where
  "files_below h n = {m \<in> set (nodes_below h n). is_file h m}"

text \<open>The fraction of a node: 1 for a file without duplicates, 0 for another file, the ratio
  above for a directory.\<close>

definition fraction_spec :: "heap \<Rightarrow> nid \<Rightarrow> rat \<Rightarrow> bool" where
  "fraction_spec h n f \<longleftrightarrow>
     (if is_file h n then f = (if length (members h (the (class_of h n))) = 1 then 1 else 0)
      else \<exists>ds. distinct ds \<and> set ds = files_below h n \<and> f = dir_fraction h ds)"

lemma same_core_specs:
  assumes "same_core h h'"
  shows "is_file h' = is_file h" and "files_below h' = files_below h"
    and "dir_fraction h' = dir_fraction h" and "all_evaluated h' = all_evaluated h"
    and "fraction_spec h' = fraction_spec h"
proof -
  note v = same_core_views [OF assms]
  have "map_option nd_type (h_nodes h' n) = map_option nd_type (h_nodes h n)" for n
  proof (cases "h_nodes h n")
    case None
    then have "h_nodes h' n = None" using same_treeD(3) [OF v(1)] by blast
    with None show ?thesis by simp
  qed (use same_core_node [OF assms] in fastforce)
  then show f: "is_file h' = is_file h" by (simp add: is_file_def fun_eq_iff)
  then show b: "files_below h' = files_below h"
    by (simp add: files_below_def same_tree_below(2) [OF v(1)] fun_eq_iff)
  have u: "unique_among h' = unique_among h" "class_weight h' = class_weight h"
    by (simp_all add: unique_among_def class_weight_def v fun_eq_iff)
  then show d: "dir_fraction h' = dir_fraction h" by (intro ext) (simp only: dir_fraction_def u)
  show "all_evaluated h' = all_evaluated h" by (simp add: all_evaluated_def v same_treeD(3) [OF v(1)])
  show "fraction_spec h' = fraction_spec h"
    by (simp add: fraction_spec_def f b d v fun_eq_iff)
qed

text \<open>What a (partial) run has established for some nodes.\<close>

definition fractions_set :: "heap \<Rightarrow> heap \<Rightarrow> nid set \<Rightarrow> bool" where
  "fractions_set h h' ns \<longleftrightarrow> same_core h h' \<and>
     (\<forall>m \<in> ns. \<exists>f. frac_of h' m = Some f \<and> fraction_spec h m f) \<and>
     (\<forall>m. m \<notin> ns \<longrightarrow> frac_of h' m = frac_of h m)"

lemma fractions_set_trans:
  assumes "fractions_set h h1 A" and "fractions_set h1 h2 B"
  shows "fractions_set h h2 (A \<union> B)"
proof -
  have c: "same_core h h1" "same_core h1 h2" using assms by (simp_all add: fractions_set_def)
  have "\<exists>f. frac_of h2 m = Some f \<and> fraction_spec h m f" if "m \<in> A \<union> B" for m
    using that assms same_core_specs(5) [OF c(1)] by (cases "m \<in> B") (auto simp: fractions_set_def)
  with c assms show ?thesis by (auto simp: fractions_set_def intro: same_core_trans)
qed

lemma fractions_set_upd:
  assumes "n \<in> dom (h_nodes h)" and "fraction_spec h n f"
  shows "fractions_set h (upd_node n (\<lambda>x. x\<lparr>nd_unique_fraction := Some f\<rparr>) h) {n}"
  using assms by (auto simp: fractions_set_def same_core_frac frac_of_upd)

lemma files_below_rec:
  assumes "tree_ok h" and "n \<in> dom (h_nodes h)"
  shows "files_below h n =
    (\<Union>c \<in> set (children_of h n). files_below h c) \<union> (if is_file h n then {n} else {})"
  unfolding files_below_def nodes_below_rec [OF assms] by auto

context unordered_env
begin

text \<open>What the recursive calls for a list of nodes have collected and changed.\<close>

definition collected :: "heap \<Rightarrow> heap \<Rightarrow> nid list \<Rightarrow> nid list \<times> heap \<Rightarrow> bool" where
  "collected h0 h ys st \<longleftrightarrow> distinct (fst st) \<and> set (fst st) = (\<Union>c \<in> set ys. files_below h0 c) \<and>
     fractions_set h (snd st) (\<Union>c \<in> set ys. set (nodes_below h0 c))"

definition uniqueness_result :: "heap \<Rightarrow> heap \<Rightarrow> nid \<Rightarrow> (nid list \<times> heap) res \<Rightarrow> bool" where
  "uniqueness_result h0 h n r \<longleftrightarrow> (\<exists>ds h'. r = Inr (ds, h') \<and> distinct ds \<and> set ds = files_below h0 n \<and>
     fractions_set h h' (set (nodes_below h0 n)))"

lemma uniqueness_children:
  assumes tree: "tree_ok h0" and core: "same_core h0 h" and bound: "h_next_node h0 - n \<le> Suc k"
    and IH: "\<And>c g. c \<in> set (children_of h0 n) \<Longrightarrow> same_core h0 g \<Longrightarrow> h_next_node h0 - c \<le> k \<Longrightarrow>
      uniqueness_result h0 g c (CalculateUniqueness k env c g)"
  shows "\<exists>st. foldR (\<lambda>child (descendant_nodes, h).
      rbind (CalculateUniqueness k env child h) (\<lambda>(child_nodes, h').
        Inr (fold set_insert child_nodes descendant_nodes, h'))) (children_of h0 n) ([], h) = Inr st \<and>
    collected h0 h (children_of h0 n) st"
proof (rule foldR_rule)
  show "collected h0 h [] ([], h)" by (simp add: collected_def fractions_set_def)
  fix ys child zs st assume split: "children_of h0 n = ys @ child # zs" and inv: "collected h0 h ys st"
  let ?body = "\<lambda>child (descendant_nodes, h).
    rbind (CalculateUniqueness k env child h) (\<lambda>(child_nodes, h'). Inr (fold set_insert child_nodes descendant_nodes, h'))"
  have ch: "child \<in> set (children_of h0 n)" using split by simp
  obtain acc g where st: "st = (acc, g)" by (cases st)
  have "same_core h0 g" using inv st same_core_trans [OF core] by (simp add: collected_def fractions_set_def)
  moreover have "h_next_node h0 - child \<le> k" using child_bound(1) [OF tree ch] bound by simp
  ultimately obtain ds g' where g': "CalculateUniqueness k env child g = Inr (ds, g')"
    "set ds = files_below h0 child" "fractions_set g g' (set (nodes_below h0 child))"
    using IH [OF ch] unfolding uniqueness_result_def by blast
  have "fractions_set h g' ((\<Union>c \<in> set ys. set (nodes_below h0 c)) \<union> set (nodes_below h0 child))"
    by (rule fractions_set_trans [OF _ g'(3)]) (use inv st in \<open>simp add: collected_def\<close>)
  then have "collected h0 h (ys @ [child]) (fold set_insert ds acc, g')"
    using inv st g'(2) by (simp add: Un_commute collected_def)
  then show "\<exists>st'. ?body child st = Inr st' \<and> collected h0 h (ys @ [child]) st'"
    using g'(1) st by auto
qed

lemma uniqueness_file:
  assumes "heap_ok h0" and "n \<in> dom (h_nodes h0)" and "same_core h0 h" and nd: "h_nodes h n = Some nd" "nd_type nd = FILE"
    and c: "nd_eq_class nd = Some c" "h_classes h c = Some ec"
  shows "uniqueness_result h0 h n (CalculateUniqueness (Suc k) env n h)"
proof -
  note v = same_core_views [OF assms(3)] and s = same_core_specs [OF assms(3)]
  have "is_file h n" using nd by (simp add: is_file_def)
  then have isf: "is_file h0 n" unfolding s(1) .
  have "children_of h0 n = []"
    using tree_okD(7) [OF heap_okD(1) [OF heap_ok_same_core [OF assms(3,1)]] nd] nd(1) same_treeD(1) [OF v(1)]
    by (metis children_of_node)
  then have below: "nodes_below h0 n = [n]" using nodes_below_rec [OF heap_okD(1) [OF assms(1)] assms(2)] by simp
  then have fb: "files_below h0 n = {n}" using isf by (auto simp: files_below_def)
  let ?f = "if ec_IsSingle ec then 1 else 0"
  have "fraction_spec h n ?f" using isf s(1) nd c by (simp add: fraction_spec_def ec_IsSingle_def members_def)
  moreover have "n \<in> dom (h_nodes h)" using nd(1) by blast
  ultimately show ?thesis
    using fractions_set_upd [of n h ?f] nd c by (simp add: uniqueness_result_def below fb IsEvaluated_def GetEqClass_def)
qed

lemma uniqueness_dir:
  assumes "heap_ok h0" and "all_evaluated h0" and "n \<in> dom (h_nodes h0)" and "same_core h0 h"
    and nd: "h_nodes h n = Some nd" "nd_type nd = DIR" "IsEvaluated nd"
    and loop: "foldR (\<lambda>child (descendant_nodes, h).
      rbind (CalculateUniqueness k env child h) (\<lambda>(child_nodes, h').
        Inr (fold set_insert child_nodes descendant_nodes, h'))) (children_of h0 n) ([], h) = Inr (acc, g)"
    and inv: "collected h0 h (children_of h0 n) (acc, g)"
  shows "uniqueness_result h0 h n (CalculateUniqueness (Suc k) env n h)"
proof -
  note tree = heap_okD(1) [OF assms(1)]
  note v = same_core_views [OF assms(4)] and s = same_core_specs [OF assms(4)]
  have g: "same_core h g" using inv by (simp add: collected_def fractions_set_def)
  note okg = heap_ok_same_core [OF g heap_ok_same_core [OF assms(4,1)]]
  note sg = same_core_specs [OF g] and vg = same_core_views [OF g]
  have "\<not> is_file h n" using nd by (simp add: is_file_def)
  then have notfile: "\<not> is_file h0 n" unfolding s(1) .
  have cs: "nd_children nd = children_of h0 n" using nd(1) same_treeD(1) [OF v(1)] by (metis children_of_node)
  let ?ds = "env_node_order env acc"
  have ds: "distinct ?ds" "set ?ds = files_below h0 n" "set ?ds = set acc"
    using inv notfile files_below_rec [OF tree assms(3)] by (auto simp: collected_def)
  have "\<forall>d \<in> set ?ds. class_of g d \<noteq> None"
    using assms(2) below_dom [OF tree assms(3)]
    unfolding ds all_evaluated_def files_below_def vg v by blast
  then have sums: "foldR (add_uniqueness env g acc) ?ds (0, 0) =
      Inr (dbl_sum (map (class_weight g) ?ds) 0,
        dbl_sum (map (class_weight g) (filter (unique_among g (set acc)) ?ds)) 0)"
    by (rule add_uniqueness_loop [OF okg])
  let ?h = "upd_node n (\<lambda>x. x\<lparr>nd_unique_fraction := Some (dir_fraction g ?ds)\<rparr>) g"
  have run: "CalculateUniqueness (Suc k) env n h = Inr (?ds, ?h)"
    using nd by (simp add: cs loop sums dir_fraction_def [of g ?ds] ds(3) Let_def)
  have "\<exists>xs. distinct xs \<and> set xs = files_below h0 n \<and> dir_fraction h0 ?ds = dir_fraction h0 xs"
    using ds(1,2) by blast
  then have "fraction_spec h0 n (dir_fraction h0 ?ds)"
    unfolding fraction_spec_def using notfile by (simp only: if_False)
  then have "fraction_spec g n (dir_fraction g ?ds)" unfolding sg s .
  moreover have "n \<in> dom (h_nodes g)" using nd(1) same_treeD(3) [OF vg(1)] by blast
  ultimately have "fractions_set g ?h {n}" by (rule fractions_set_upd [rotated])
  from fractions_set_trans [OF _ this] inv
  have "fractions_set h ?h ((\<Union>c \<in> set (children_of h0 n). set (nodes_below h0 c)) \<union> {n})"
    by (simp add: collected_def)
  moreover have "(\<Union>c \<in> set (children_of h0 n). set (nodes_below h0 c)) \<union> {n} = set (nodes_below h0 n)"
    using nodes_below_rec [OF tree assms(3)] by auto
  ultimately show ?thesis unfolding uniqueness_result_def using run ds by auto
qed

lemma CalculateUniqueness_result:
  assumes "heap_ok h0" and "all_evaluated h0" and "n \<in> dom (h_nodes h0)" and "same_core h0 h"
    and "h_next_node h0 - n \<le> k"
  shows "uniqueness_result h0 h n (CalculateUniqueness k env n h)"
  using heap_okD(1) [OF assms(1)] assms(3,4,5)
proof (induction arbitrary: k h rule: tree_induct)
  case (node n)
  note tree = heap_okD(1) [OF assms(1)]
  obtain k' where k: "k = Suc k'"
    using node(4) tree_okD(1) [OF tree node(1)] by (cases k) auto
  note v = same_core_views [OF node(3)]
  obtain nd where nd: "h_nodes h n = Some nd" using node(1) same_treeD(3) [OF v(1)] by blast
  have "class_of h n \<noteq> None" using assms(2) node(1) unfolding all_evaluated_def v by blast
  then obtain c where c: "nd_eq_class nd = Some c" using nd by auto
  obtain ec where ec: "h_classes h c = Some ec"
    using class_of_valid [OF heap_okD(2) [OF heap_ok_same_core [OF node(3) assms(1)]], of n c] nd c by auto
  show ?case
  proof (cases "nd_type nd")
    case FILE
    show ?thesis unfolding k by (rule uniqueness_file [OF assms(1) node(1,3) nd FILE c ec])
  next
    case DIR
    from uniqueness_children [OF tree node(3) node(4) [unfolded k] node(2)] obtain acc g where
      "foldR (\<lambda>child (descendant_nodes, h).
        rbind (CalculateUniqueness k' env child h) (\<lambda>(child_nodes, h').
          Inr (fold set_insert child_nodes descendant_nodes, h'))) (children_of h0 n) ([], h) = Inr (acc, g)"
      "collected h0 h (children_of h0 n) (acc, g)" by auto
    moreover have "IsEvaluated nd" using c by (simp add: IsEvaluated_def)
    ultimately show ?thesis
      unfolding k using uniqueness_dir [OF assms(1,2) node(1,3) nd DIR] by blast
  qed
qed

lemma CalculateUniqueness_ok:
  assumes "heap_ok h0" and "all_evaluated h0" and "n \<in> dom (h_nodes h0)" and "same_core h0 h"
    and "h_next_node h0 - n \<le> k"
  shows "\<exists>ds h'. CalculateUniqueness k env n h = Inr (ds, h') \<and> distinct ds \<and>
    set ds = files_below h0 n \<and> fractions_set h h' (set (nodes_below h0 n))"
  using CalculateUniqueness_result [OF assms] unfolding uniqueness_result_def .

end

section \<open>\<open>SortEqClasses\<close>\<close>

context unordered_env
begin

lemma SortEqClasses_sorted:
  "set (SortEqClasses env h cs) = set cs" "distinct (SortEqClasses env h cs) = distinct cs"
  "sorted_wrt (\<lambda>c d. weight_of h d \<le> weight_of h c) (SortEqClasses env h cs)"
  unfolding SortEqClasses_def by (rule sort_descending)+

end

section \<open>\<open>GetInteresingEqClasses\<close>\<close>

definition single :: "heap \<Rightarrow> cid \<Rightarrow> bool" where
  "single h c \<longleftrightarrow> length (members h c) = 1"

text \<open>A member whose parent is missing or has no duplicate.\<close>

definition unexplained :: "heap \<Rightarrow> nid \<Rightarrow> bool" where
  "unexplained h n \<longleftrightarrow>
     (case parent_of h n of None \<Rightarrow> True | Some p \<Rightarrow> single h (the (class_of h p)))"

definition interesting :: "heap \<Rightarrow> cid \<Rightarrow> bool" where
  "interesting h c \<longleftrightarrow> \<not> single h c \<and> (\<exists>n \<in> set (members h c). unexplained h n)"

lemma check_parent_eq:
  assumes "heap_ok h" and "all_evaluated h" and "n \<in> dom (h_nodes h)"
  shows "check_parent h n b = Inr (b \<and> \<not> unexplained h n)"
proof -
  obtain nd where nd: "h_nodes h n = Some nd" using assms(3) by blast
  show ?thesis
  proof (cases "nd_parent nd")
    case (Some p)
    then have par: "parent_of h n = Some p" using nd by simp
    have p: "p \<in> dom (h_nodes h)"
      by (rule children_of_dom [OF tree_okD(5) [OF heap_okD(1) [OF assms(1)] par]])
    then obtain pd where pd: "h_nodes h p = Some pd" by blast
    have "class_of h p \<noteq> None" using assms(2) p unfolding all_evaluated_def by blast
    then obtain c where c: "nd_eq_class pd = Some c" "class_of h p = Some c" using pd by auto
    obtain ec where "h_classes h c = Some ec"
      using class_of_valid [OF heap_okD(2) [OF assms(1)] c(2)] by blast
    with nd Some pd par c show ?thesis
      by (simp add: check_parent_def GetEqClass_def unexplained_def single_def members_def ec_IsSingle_def)
  qed (use nd in \<open>simp add: check_parent_def unexplained_def\<close>)
qed

lemma GetInteresingEqClasses_eq:
  assumes "heap_ok h" and "all_evaluated h"
  shows "\<forall>c \<in> set cs. members h c \<noteq> [] \<Longrightarrow>
    GetInteresingEqClasses h cs = Inr (filter (interesting h) cs)"
proof (induction cs)
  case (Cons c cs)
  have m: "members h c \<noteq> []" using Cons.prems by simp
  then obtain ec where ec: "h_classes h c = Some ec" by (cases "h_classes h c") (auto simp: members_def)
  have mem: "members h c = ec_nodes ec" using ec by (simp add: members_def)
  have dom: "n \<in> dom (h_nodes h)" if "n \<in> set (ec_nodes ec)" for n
    using classes_okD(2) [OF heap_okD(2) [OF assms(1)], of n c] that class_of_dom by (simp add: mem)
  have loop: "set ns \<subseteq> set (ec_nodes ec) \<Longrightarrow>
      foldR (check_parent h) ns b = Inr (b \<and> (\<forall>n \<in> set ns. \<not> unexplained h n))" for ns b
  proof (induction ns arbitrary: b)
    case (Cons n ns)
    then show ?case using check_parent_eq [OF assms dom] by simp
  qed simp
  have "interesting h c \<longleftrightarrow> length (ec_nodes ec) \<noteq> 1 \<and> (\<exists>n \<in> set (ec_nodes ec). unexplained h n)"
    by (simp add: interesting_def single_def mem)
  with loop [of "ec_nodes ec" True] Cons m ec mem show ?case by simp
qed simp

end
