(* ===== verification/Tree_Scan.thy ===== *)
theory Tree_Scan
  imports Fuzzy_Dedup Tree_Traversal Leaf_Classes Compare_Directories
begin

text \<open>
  The processor that builds the tree of nodes from a scan (\<open>TreeCtorProcessor\<close> and
  \<open>detail::ScanDirectory\<close> in src/src/fuzzy_dedup.cpp) and its contract: after any scan the heap
  satisfies the invariant, is one tree, has one FILE node per file at the path of that file and one
  DIR node per directory at the path of that directory, and
  the multimap relates checksums to these nodes.
\<close>

section \<open>\<open>TreeCtorProcessor\<close>\<close>

record tree_ctor =
  tc_sum2node :: sum2node      \<comment> \<open>in the order of insertion\<close>
  tc_root :: "nid option"
  tc_heap :: heap

definition empty_tree_ctor :: tree_ctor where
  "empty_tree_ctor = \<lparr>tc_sum2node = [], tc_root = None, tc_heap = empty_heap\<rparr>"

definition TreeCtorProcessor :: "'p path_api \<Rightarrow> ('p, nid, tree_ctor) ScanProcessor" where
  "TreeCtorProcessor P =
     \<lparr>sp_File = \<lambda>path parent f_info s.
        rbind (new_Node FILE (p_native P (p_filename P path)) (fi_size f_info) (tc_heap s)) (\<lambda>(node, h1).
        rbind (AddChild parent node h1) (\<lambda>h2.
          Inr (s\<lparr>tc_heap := h2, tc_sum2node := tc_sum2node s @ [(fi_sum f_info, node)]\<rparr>))),
      sp_RootDir = \<lambda>path s.
        rbind (new_Node DIR (p_native P path) 0 (tc_heap s)) (\<lambda>(node, h1).
          Inr (node, s\<lparr>tc_heap := h1, tc_root := Some node\<rparr>)),
      sp_Dir = \<lambda>path parent s.
        rbind (new_Node DIR (p_native P (p_filename P path)) 0 (tc_heap s)) (\<lambda>(node, h1).
        rbind (AddChild parent node h1) (\<lambda>h2. Inr (node, s\<lparr>tc_heap := h2\<rparr>)))\<rparr>"

section \<open>Attaching a new node\<close>

definition info :: "heap \<Rightarrow> nid \<Rightarrow> (string \<times> NodeType \<times> int) option" where
  "info h n = map_option (\<lambda>nd. (nd_name nd, nd_type nd, nd_size nd)) (h_nodes h n)"

lemma info_static: "info h n = map_option (\<lambda>(nm, t, sz, p, cs). (nm, t, sz)) (static_part h n)"
  by (simp add: info_def static_part_def option.map_comp comp_def)

lemma parent_of_static: "parent_of h n = Option.bind (static_part h n) (\<lambda>(nm, t, sz, p, cs). p)"
  by (cases "h_nodes h n") (simp_all add: parent_of_def static_part_def)

lemma info_dom: "n \<in> dom (h_nodes h) \<longleftrightarrow> info h n \<noteq> None"
  by (simp add: info_def domIff)

lemma info_link_child [simp]: "info (link_child this child h) n = info h n"
  by (cases "h_nodes h n") (auto simp: info_def link_child_def view_simps)

lemma attach_node:
  assumes "heap_ok h" and "name \<noteq> []" and "0 \<le> sz" and "info h p = Some (nm, DIR, s)"
    and "class_of h = (\<lambda>_. None)"
  shows "\<exists>h1 h2. new_Node t name sz h = Inr (h_next_node h, h1) \<and>
    AddChild p (h_next_node h) h1 = Inr h2 \<and> heap_ok h2 \<and> h_next_node h \<notin> dom (h_nodes h) \<and>
    info h2 = (info h)(h_next_node h \<mapsto> (name, t, sz)) \<and>
    parent_of h2 = (parent_of h)(h_next_node h \<mapsto> p) \<and>
    class_of h2 = (\<lambda>_. None) \<and> h_classes h2 = h_classes h \<and> h_next_node h2 = Suc (h_next_node h)"
proof -
  let ?n = "h_next_node h"
  from new_Node_ok [OF assms(1-3), of t] obtain h1 where h1: "new_Node t name sz h = Inr (?n, h1)"
    "heap_ok h1" "?n \<notin> dom (h_nodes h)" "static_part h1 = (static_part h)(?n \<mapsto> (name, t, sz, None, []))"
    "class_of h1 = class_of h" "h_classes h1 = h_classes h" "h_next_node h1 = Suc (h_next_node h)" by blast
  have i1: "info h1 = (info h)(?n \<mapsto> (name, t, sz))"
    by (simp add: fun_eq_iff info_static h1(4))
  have p1: "parent_of h1 = (parent_of h)(?n := None)"
    by (simp add: fun_eq_iff parent_of_static h1(4))
  have ne: "p \<noteq> ?n" using h1(3) assms(4) by (auto simp: info_dom)
  have p: "p \<in> dom (h_nodes h1)" using assms(4) ne by (simp add: info_dom i1)
  have n: "?n \<in> dom (h_nodes h1)" by (simp add: info_dom i1)
  have lt: "p < ?n" using tree_okD(1) [OF heap_okD(1) [OF assms(1)]] assms(4) by (simp add: info_dom)
  have dir: "nd_type nd = DIR" if "h_nodes h1 p = Some nd" for nd
  proof -
    have "info h1 p = Some (nm, DIR, s)" using assms(4) ne by (simp add: i1)
    with that show ?thesis by (simp add: info_def)
  qed
  have none: "parent_of h1 ?n = None" "class_of h1 ?n = None" "class_of h1 p = None"
    by (simp_all add: p1 h1(5) assms(5))
  note ok = link_child_ok [OF h1(2) p n lt none dir]
  note views = link_child_views [OF p n ne]
  have "AddChild p ?n h1 = Inr (link_child p ?n h1)"
    by (rule AddChild_eq [OF p n none dir])
  moreover have "info (link_child p ?n h1) = (info h)(?n \<mapsto> (name, t, sz))"
    by (simp add: fun_eq_iff i1)
  moreover have "parent_of (link_child p ?n h1) = (parent_of h)(?n \<mapsto> p)"
    by (simp add: views(2) p1)
  ultimately show ?thesis
    using h1(1,3,5,6,7) ok views(3,5,6) assms(5) by auto
qed

section \<open>Paths in the tree\<close>

text \<open>The names on the way from the root (without its own) to a node.\<close>

inductive at_path :: "heap \<Rightarrow> nid \<Rightarrow> nid \<Rightarrow> string list \<Rightarrow> bool" for h r where
  at_root: "at_path h r r []"
| at_child: "at_path h r p xs \<Longrightarrow> parent_of h n = Some p \<Longrightarrow> info h n = Some (nm, t, sz) \<Longrightarrow>
    at_path h r n (xs @ [nm])"

lemma at_path_extend:
  assumes "at_path h r n xs" and "\<And>m. m \<in> dom (h_nodes h) \<Longrightarrow> info h' m = info h m"
    and "\<And>m. m \<in> dom (h_nodes h) \<Longrightarrow> parent_of h' m = parent_of h m"
  shows "at_path h' r n xs"
  using assms(1)
proof induction
  case at_root
  show ?case by (rule at_path.at_root)
next
  case (at_child p xs n nm t sz)
  have "n \<in> dom (h_nodes h)" using at_child(3) by (simp add: info_dom)
  from assms(2,3) [OF this] at_child(2,3) have "parent_of h' n = Some p" "info h' n = Some (nm, t, sz)"
    by simp_all
  with at_child(4) show ?case by (rule at_path.at_child)
qed

section \<open>The contract\<close>

definition file_node :: "heap \<Rightarrow> nid \<Rightarrow> Cksum \<times> nid \<Rightarrow> string list \<times> FileInfo \<Rightarrow> bool" where
  "file_node h r e f \<longleftrightarrow> fst e = fi_sum (snd f) \<and> at_path h r (snd e) (fst f) \<and>
     (\<exists>nm. info h (snd e) = Some (nm, FILE, fi_size (snd f)))"

definition one_tree :: "heap \<Rightarrow> nid \<Rightarrow> bool" where
  "one_tree h r \<longleftrightarrow> r \<in> dom (h_nodes h) \<and> parent_of h r = None \<and>
     (\<forall>n \<in> dom (h_nodes h). n \<noteq> r \<longrightarrow> parent_of h n \<noteq> None)"

definition native_file :: "'p path_api \<Rightarrow> 'p list \<times> FileInfo \<Rightarrow> string list \<times> FileInfo" where
  "native_file P f = (map (p_native P) (fst f), snd f)"

definition tree_rep ::
  "'p path_api \<Rightarrow> tree_ctor \<Rightarrow> (nid \<rightharpoonup> 'p list) \<Rightarrow> ('p list \<times> FileInfo) list \<Rightarrow> bool" where
  "tree_rep P s A fs \<longleftrightarrow>
     (\<exists>r. tc_root s = Some r \<and> one_tree (tc_heap s) r \<and> heap_ok (tc_heap s) \<and>
        class_of (tc_heap s) = (\<lambda>_. None) \<and> h_classes (tc_heap s) = Map.empty \<and>
        (\<forall>n d. A n = Some d \<longrightarrow> at_path (tc_heap s) r n (map (p_native P) d) \<and>
           (\<exists>nm sz. info (tc_heap s) n = Some (nm, DIR, sz))) \<and>
        list_all2 (file_node (tc_heap s) r) (tc_sum2node s) (map (native_file P) fs) \<and>
        distinct (map snd (tc_sum2node s)) \<and>
        (\<forall>n nm sz. info (tc_heap s) n = Some (nm, FILE, sz) \<longrightarrow> n \<in> snd ` set (tc_sum2node s)))"

lemma list_all2_left: "list_all2 R xs ys \<Longrightarrow> x \<in> set xs \<Longrightarrow> \<exists>y \<in> set ys. R x y"
  by (induction rule: list_all2_induct) auto

text \<open>The directories of the tree: one DIR node for each of the given paths, and no other DIR nodes.
  Identifiers are used for nothing else than these nodes and the nodes of the files.\<close>

definition dir_nodes :: "'p path_api \<Rightarrow> heap \<Rightarrow> nid \<Rightarrow> 'p list list \<Rightarrow> bool" where
  "dir_nodes P h r ds \<longleftrightarrow>
     (\<exists>ns. distinct ns \<and> set ns = {n. \<exists>nm sz. info h n = Some (nm, DIR, sz)} \<and>
        list_all2 (\<lambda>n d. at_path h r n (map (p_native P) d)) ns ds)"

definition tree_with_dirs ::
  "'p path_api \<Rightarrow> tree_ctor \<Rightarrow> (nid \<rightharpoonup> 'p list) \<Rightarrow> 'p list list \<Rightarrow> ('p list \<times> FileInfo) list \<Rightarrow> bool" where
  "tree_with_dirs P s A ds fs \<longleftrightarrow> tree_rep P s A fs \<and> dir_nodes P (tc_heap s) (the (tc_root s)) ds \<and>
     h_next_node (tc_heap s) = length ds + length fs"

lemma dir_nodes_attach:
  assumes "dir_nodes P h r ds" and "\<And>m xs. at_path h r m xs \<Longrightarrow> at_path h2 r m xs"
    and "\<And>m. m \<noteq> n \<Longrightarrow> info h2 m = info h m" and "info h n = None"
  shows "info h2 n = Some (nm, FILE, sz) \<Longrightarrow> dir_nodes P h2 r ds"
    and "info h2 n = Some (nm, DIR, sz) \<Longrightarrow> at_path h2 r n (map (p_native P) d) \<Longrightarrow> dir_nodes P h2 r (ds @ [d])"
proof -
  obtain ns where ns: "distinct ns" "set ns = {n. \<exists>nm sz. info h n = Some (nm, DIR, sz)}"
    "list_all2 (\<lambda>n d. at_path h r n (map (p_native P) d)) ns ds"
    using assms(1) unfolding dir_nodes_def by blast
  have paths: "list_all2 (\<lambda>n d. at_path h2 r n (map (p_native P) d)) ns ds"
    by (rule list_all2_mono [OF ns(3)]) (rule assms(2))
  have old: "(\<exists>nm sz. info h2 m = Some (nm, DIR, sz)) \<longleftrightarrow> m \<in> set ns" if "m \<noteq> n" for m
    using assms(3) [OF that] ns(2) by simp
  have new: "n \<notin> set ns" using ns(2) assms(4) by auto
  show "dir_nodes P h2 r ds" if "info h2 n = Some (nm, FILE, sz)"
  proof -
    have "(\<exists>nm sz. info h2 m = Some (nm, DIR, sz)) \<longleftrightarrow> m \<in> set ns" for m
      using old new that by (cases "m = n") auto
    then show ?thesis unfolding dir_nodes_def using ns(1) paths by blast
  qed
  show "dir_nodes P h2 r (ds @ [d])" if "info h2 n = Some (nm, DIR, sz)" "at_path h2 r n (map (p_native P) d)"
  proof -
    have "(\<exists>nm sz. info h2 m = Some (nm, DIR, sz)) \<longleftrightarrow> m \<in> set (ns @ [n])" for m
      using old that by (cases "m = n") auto
    then have "set (ns @ [n]) = {n. \<exists>nm sz. info h2 n = Some (nm, DIR, sz)}" by blast
    moreover have "list_all2 (\<lambda>n d. at_path h2 r n (map (p_native P) d)) (ns @ [n]) (ds @ [d])"
      using paths that(2) by (simp add: list_all2_appendI)
    moreover have "distinct (ns @ [n])" using ns(1) new by simp
    ultimately show ?thesis unfolding dir_nodes_def by blast
  qed
qed

text \<open>What a new child keeps of the parts of \<open>tree_rep\<close>.\<close>

lemma one_tree_attach:
  assumes "one_tree h r" and "info h2 = (info h)(n \<mapsto> x)" and "parent_of h2 = (parent_of h)(n \<mapsto> p)"
    and "n \<notin> dom (h_nodes h)"
  shows "one_tree h2 r"
proof -
  have dom: "m \<in> dom (h_nodes h2) \<longleftrightarrow> m = n \<or> m \<in> dom (h_nodes h)" for m
    unfolding info_dom assms(2) by (cases x) auto
  have r: "r \<in> dom (h_nodes h)" "r \<noteq> n" using assms(1,4) unfolding one_tree_def by blast+
  have "parent_of h2 m \<noteq> None" if m: "m \<in> dom (h_nodes h2)" "m \<noteq> r" for m
  proof (cases "m = n")
    case False
    with m dom have "m \<in> dom (h_nodes h)" by blast
    with m(2) assms(1,3) False show ?thesis unfolding one_tree_def by simp
  qed (simp add: assms(3))
  moreover have "parent_of h2 r = None" using assms(1,3) r(2) unfolding one_tree_def by simp
  moreover have "r \<in> dom (h_nodes h2)" using r(1) dom by blast
  ultimately show ?thesis unfolding one_tree_def by blast
qed

lemma at_path_attach:
  assumes "at_path h r m xs" and "info h2 = (info h)(n \<mapsto> x)" and "parent_of h2 = (parent_of h)(n \<mapsto> p)"
    and "n \<notin> dom (h_nodes h)"
  shows "at_path h2 r m xs"
  by (rule at_path_extend [OF assms(1)]) (use assms(2-4) in auto)

lemma file_node_attach:
  assumes "file_node h r e f" and "info h2 = (info h)(n \<mapsto> x)" and "parent_of h2 = (parent_of h)(n \<mapsto> p)"
    and "n \<notin> dom (h_nodes h)"
  shows "file_node h2 r e f"
proof -
  obtain nm where i: "info h (snd e) = Some (nm, FILE, fi_size (snd f))"
    using assms(1) unfolding file_node_def by blast
  then have "snd e \<noteq> n" using assms(4) by (auto simp: info_dom)
  then have "info h2 (snd e) = Some (nm, FILE, fi_size (snd f))" using i assms(2) by simp
  with assms(1) at_path_attach [OF _ assms(2-4)] show ?thesis unfolding file_node_def by blast
qed

text \<open>The state after a directory, or a file, was attached.\<close>

lemma tree_rep_attach:
  assumes "tree_rep P s A fs" and "A h = Some d" and "nm \<noteq> []" and "0 \<le> sz"
  shows "\<exists>n h1 h2 r. new_Node t nm sz (tc_heap s) = Inr (n, h1) \<and> AddChild h n h1 = Inr h2 \<and>
    tc_root s = Some r \<and> one_tree h2 r \<and> heap_ok h2 \<and> class_of h2 = (\<lambda>_. None) \<and> h_classes h2 = Map.empty \<and>
    (\<forall>n d. A n = Some d \<longrightarrow> at_path h2 r n (map (p_native P) d) \<and> (\<exists>nm sz. info h2 n = Some (nm, DIR, sz))) \<and>
    list_all2 (file_node h2 r) (tc_sum2node s) (map (native_file P) fs) \<and>
    at_path h2 r n (map (p_native P) d @ [nm]) \<and> info h2 n = Some (nm, t, sz) \<and> A n = None \<and>
    n \<notin> snd ` set (tc_sum2node s) \<and>
    (\<forall>m. m \<noteq> n \<longrightarrow> info h2 m = info (tc_heap s) m) \<and> info (tc_heap s) n = None \<and>
    (\<forall>m xs. at_path (tc_heap s) r m xs \<longrightarrow> at_path h2 r m xs) \<and> h_next_node h2 = Suc (h_next_node (tc_heap s))"
proof -
  obtain r where rep: "tc_root s = Some r" "one_tree (tc_heap s) r" "heap_ok (tc_heap s)"
    "class_of (tc_heap s) = (\<lambda>_. None)" "h_classes (tc_heap s) = Map.empty"
    and dirs: "\<And>n d. A n = Some d \<Longrightarrow> at_path (tc_heap s) r n (map (p_native P) d) \<and>
       (\<exists>nm sz. info (tc_heap s) n = Some (nm, DIR, sz))"
    and files: "list_all2 (file_node (tc_heap s) r) (tc_sum2node s) (map (native_file P) fs)"
    using assms(1) unfolding tree_rep_def by blast
  obtain pn ps where p: "info (tc_heap s) h = Some (pn, DIR, ps)" using dirs [OF assms(2)] by blast
  let ?n = "h_next_node (tc_heap s)"
  from attach_node [OF rep(3) assms(3,4) p rep(4), of t] obtain h1 h2 where
    new: "new_Node t nm sz (tc_heap s) = Inr (?n, h1)" "AddChild h ?n h1 = Inr h2" "heap_ok h2"
    and v: "info h2 = (info (tc_heap s))(?n \<mapsto> (nm, t, sz))"
      "parent_of h2 = (parent_of (tc_heap s))(?n \<mapsto> h)" "?n \<notin> dom (h_nodes (tc_heap s))"
    and c: "class_of h2 = (\<lambda>_. None)" "h_classes h2 = h_classes (tc_heap s)"
      "h_next_node h2 = Suc (h_next_node (tc_heap s))" by blast
  have fresh: "A ?n = None"
    using dirs [of ?n] v(3) by (cases "A ?n") (auto simp: info_dom)
  have old: "info h2 m = info (tc_heap s) m" if "m \<noteq> ?n" for m using v(1) that by simp
  have none: "info (tc_heap s) ?n = None" using v(3) info_dom by blast
  have "at_path h2 r m (map (p_native P) e) \<and> (\<exists>nm sz. info h2 m = Some (nm, DIR, sz))"
    if m: "A m = Some e" for m e
  proof -
    have "m \<noteq> ?n" using m fresh by auto
    with dirs [OF m] at_path_attach [OF _ v] old show ?thesis by simp
  qed
  moreover have "list_all2 (file_node h2 r) (tc_sum2node s) (map (native_file P) fs)"
    by (rule list_all2_mono [OF files]) (rule file_node_attach [OF _ v])
  moreover have "at_path h2 r ?n (map (p_native P) d @ [nm])"
  proof (rule at_path.at_child)
    show "at_path h2 r h (map (p_native P) d)" using at_path_attach [OF _ v] dirs [OF assms(2)] by blast
    show "parent_of h2 ?n = Some h" "info h2 ?n = Some (nm, t, sz)" by (simp_all add: v)
  qed
  moreover have "?n \<notin> snd ` set (tc_sum2node s)"
  proof
    assume "?n \<in> snd ` set (tc_sum2node s)"
    then obtain e where e: "e \<in> set (tc_sum2node s)" "snd e = ?n" by auto
    from list_all2_left [OF files e(1)] obtain f where "file_node (tc_heap s) r e f" "snd e = ?n"
      using e(2) by blast
    with v(3) show False by (auto simp: file_node_def info_dom)
  qed
  ultimately show ?thesis
    using new rep(1,5) c fresh old one_tree_attach [OF rep(2) v] v(1) at_path_attach [OF _ v] none
    by - (rule exI [of _ ?n], rule exI [of _ h1], rule exI [of _ h2], rule exI [of _ r], simp)
qed

sublocale path_laws \<subseteq> tree_ctor: scan_processor P "TreeCtorProcessor P" "\<lambda>s. s = empty_tree_ctor"
    "\<lambda>p. p_native P p \<noteq> []" "tree_with_dirs P"
proof unfold_locales
  fix s A ds fs h d p fi
  show "\<exists>h s'. sp_RootDir (TreeCtorProcessor P) p s = Inr (h, s') \<and> tree_with_dirs P s' [h \<mapsto> []] [[]] []"
    if s: "s = empty_tree_ctor" and p: "p_native P p \<noteq> []"
  proof -
    have z: "(0 :: int) \<le> 0" by simp
    from new_Node_ok [OF empty_heap_ok p z, of DIR] obtain h1 where h1:
      "new_Node DIR (p_native P p) 0 empty_heap = Inr (0, h1)" "heap_ok h1"
      "static_part h1 = (static_part empty_heap)(0 \<mapsto> (p_native P p, DIR, 0, None, []))"
      "class_of h1 = class_of empty_heap" "h_classes h1 = h_classes empty_heap" "h_next_node h1 = 1"
      by (auto simp: empty_heap_def)
    have i: "info h1 = [0 \<mapsto> (p_native P p, DIR, 0)]"
      by (auto simp: fun_eq_iff info_static h1(3) static_part_def empty_heap_def)
    have par: "parent_of h1 m = None" for m
      by (simp add: parent_of_static h1(3) static_part_def empty_heap_def)
    have "one_tree h1 0"
      unfolding one_tree_def Ball_def info_dom i using par by simp
    moreover have "class_of h1 = (\<lambda>_. None)" "h_classes h1 = Map.empty"
      by (simp_all add: h1(4,5) class_of_def empty_heap_def fun_eq_iff)
    ultimately have "tree_rep P (s\<lparr>tc_heap := h1, tc_root := Some 0\<rparr>) [0 \<mapsto> []] []"
      using h1(2) i s at_path.at_root by (simp add: tree_rep_def empty_tree_ctor_def)
    moreover have "dir_nodes P h1 0 [[]]"
      unfolding dir_nodes_def i using at_path.at_root by (intro exI [of _ "[0]"]) auto
    ultimately have "tree_with_dirs P (s\<lparr>tc_heap := h1, tc_root := Some 0\<rparr>) [0 \<mapsto> []] [[]] []"
      using h1(6) by (simp add: tree_with_dirs_def)
    with h1(1) s show ?thesis
      by (auto simp: TreeCtorProcessor_def empty_tree_ctor_def)
  qed
  show "\<exists>h' s'. sp_Dir (TreeCtorProcessor P) p h s = Inr (h', s') \<and>
      tree_with_dirs P s' (A(h' \<mapsto> d @ [p])) (ds @ [d @ [p]]) fs \<and> A h' \<in> {None, Some (d @ [p])}"
    if all: "tree_with_dirs P s A ds fs" and h: "A h = Some d" and nm: "path_name P d p"
  proof -
    note nm = path_nameD [OF nm]
    have rep: "tree_rep P s A fs" using all by (simp add: tree_with_dirs_def)
    from tree_rep_attach [OF rep h nm(2) order_refl, of DIR] obtain n h1 h2 r where
      a: "new_Node DIR (p_native P p) 0 (tc_heap s) = Inr (n, h1)" "AddChild h n h1 = Inr h2"
      "tc_root s = Some r" "one_tree h2 r" "heap_ok h2" "class_of h2 = (\<lambda>_. None)" "h_classes h2 = Map.empty"
      "\<forall>n d. A n = Some d \<longrightarrow> at_path h2 r n (map (p_native P) d) \<and> (\<exists>nm sz. info h2 n = Some (nm, DIR, sz))"
      "list_all2 (file_node h2 r) (tc_sum2node s) (map (native_file P) fs)"
      "at_path h2 r n (map (p_native P) d @ [p_native P p])" "info h2 n = Some (p_native P p, DIR, 0)"
      "A n = None" "\<forall>m. m \<noteq> n \<longrightarrow> info h2 m = info (tc_heap s) m" "info (tc_heap s) n = None"
      "\<forall>m xs. at_path (tc_heap s) r m xs \<longrightarrow> at_path h2 r m xs" "h_next_node h2 = Suc (h_next_node (tc_heap s))" by blast
    have dn: "dir_nodes P (tc_heap s) r ds" and n: "h_next_node (tc_heap s) = length ds + length fs"
      using all a(3) by (simp_all add: tree_with_dirs_def)
    from dir_nodes_attach(2) [OF dn _ _ a(14) a(11), where d = "d @ [p]"] a(10,13,15)
    have dirs: "dir_nodes P h2 r (ds @ [d @ [p]])" by simp
    have dist: "distinct (map snd (tc_sum2node s))" using rep unfolding tree_rep_def by blast
    have files: "m \<in> snd ` set (tc_sum2node s)" if "info h2 m = Some (x, FILE, y)" for m x y
    proof -
      have "m \<noteq> n" using that a(11) by auto
      then have "info (tc_heap s) m = Some (x, FILE, y)" using that a(13) by simp
      with rep show ?thesis unfolding tree_rep_def by blast
    qed
    have "tree_rep P (s\<lparr>tc_heap := h2\<rparr>) (A(n \<mapsto> d @ [p])) fs"
      unfolding tree_rep_def using a(3-11) dist files by (intro exI [of _ r]) auto
    with a(1,2,3,12,16) n nm(3) dirs show ?thesis by (simp add: TreeCtorProcessor_def tree_with_dirs_def)
  qed
  show "\<exists>s'. sp_File (TreeCtorProcessor P) p h fi s = Inr s' \<and>
      tree_with_dirs P s' A ds (fs @ [(d @ [p], fi)])"
    if all: "tree_with_dirs P s A ds fs" and h: "A h = Some d" and nm: "path_name P d p" and sz: "0 \<le> fi_size fi"
  proof -
    note nm = path_nameD [OF nm]
    have rep: "tree_rep P s A fs" using all by (simp add: tree_with_dirs_def)
    from tree_rep_attach [OF rep h nm(2) sz, of FILE] obtain n h1 h2 r where
      a: "new_Node FILE (p_native P p) (fi_size fi) (tc_heap s) = Inr (n, h1)" "AddChild h n h1 = Inr h2"
      "tc_root s = Some r" "one_tree h2 r" "heap_ok h2" "class_of h2 = (\<lambda>_. None)" "h_classes h2 = Map.empty"
      "\<forall>n d. A n = Some d \<longrightarrow> at_path h2 r n (map (p_native P) d) \<and> (\<exists>nm sz. info h2 n = Some (nm, DIR, sz))"
      "list_all2 (file_node h2 r) (tc_sum2node s) (map (native_file P) fs)"
      "at_path h2 r n (map (p_native P) d @ [p_native P p])" "info h2 n = Some (p_native P p, FILE, fi_size fi)"
      "n \<notin> snd ` set (tc_sum2node s)" "\<forall>m. m \<noteq> n \<longrightarrow> info h2 m = info (tc_heap s) m"
      "info (tc_heap s) n = None" "\<forall>m xs. at_path (tc_heap s) r m xs \<longrightarrow> at_path h2 r m xs"
      "h_next_node h2 = Suc (h_next_node (tc_heap s))" by blast
    have dn: "dir_nodes P (tc_heap s) r ds" and n: "h_next_node (tc_heap s) = length ds + length fs"
      using all a(3) by (simp_all add: tree_with_dirs_def)
    from dir_nodes_attach(1) [OF dn _ _ a(14) a(11)] a(13,15) have dirs: "dir_nodes P h2 r ds" by simp
    let ?s = "s\<lparr>tc_heap := h2, tc_sum2node := tc_sum2node s @ [(fi_sum fi, n)]\<rparr>"
    have dist: "distinct (map snd (tc_sum2node s @ [(fi_sum fi, n)]))"
      using rep a(12) unfolding tree_rep_def by auto
    have files: "m \<in> snd ` set (tc_sum2node s @ [(fi_sum fi, n)])" if "info h2 m = Some (x, FILE, y)" for m x y
    proof (cases "m = n")
      case False
      then have "info (tc_heap s) m = Some (x, FILE, y)" using that a(13) by simp
      with rep have "m \<in> snd ` set (tc_sum2node s)" unfolding tree_rep_def by blast
      then show ?thesis by simp
    qed simp
    have "file_node h2 r (fi_sum fi, n) (native_file P (d @ [p], fi))"
      using a(10,11) by (simp add: file_node_def native_file_def)
    then have l2: "list_all2 (file_node h2 r) (tc_sum2node s @ [(fi_sum fi, n)])
        (map (native_file P) (fs @ [(d @ [p], fi)]))"
      using a(9) by (simp add: list_all2_appendI)
    have "tree_rep P ?s A (fs @ [(d @ [p], fi)])"
      unfolding tree_rep_def using a(3-8) dist files l2 by (intro exI [of _ r]) simp
    with a(1,2,3,16) n nm(3) dirs show ?thesis by (simp add: TreeCtorProcessor_def tree_with_dirs_def)
  qed
qed

end
