(* ===== verification/Dedup_Run.thy ===== *)
theory Dedup_Run
  imports Propagation Uniqueness Tree_Scan
begin

text \<open>
  \<open>FuzzyDedup\<close> as a whole (src/src/fuzzy_dedup.cpp): scan, classification of the leaves,
  propagation, sorting and uniqueness, and what the result means.
\<close>

section \<open>\<open>FuzzyDedup\<close>\<close>

text \<open>The destructor of a class no node points to.\<close>

definition delete_class :: "cid \<Rightarrow> heap \<Rightarrow> heap" where
  "delete_class c h = h\<lparr>h_classes := (h_classes h)(c := None)\<rparr>"

text \<open>\<open>detail::ScanDirectory\<close>.\<close>

definition ScanDirectory_tree :: "'p world \<Rightarrow> string \<Rightarrow> tree_ctor res set" where
  "ScanDirectory_tree W dir = scan_path W (TreeCtorProcessor (w_paths W)) empty_tree_ctor dir"

text \<open>The part after the scan; \<open>None\<close> stands for the result without a root. The class of the empty
  directories is kept only if it is not empty.\<close>

definition dedup_tree ::
  "dedup_env \<Rightarrow> tree_ctor \<Rightarrow> (nid \<times> cid list \<times> heap) option res" where
  "dedup_tree env s =
     (case tc_root s of
        None \<Rightarrow> Inr None
      | Some root_node \<Rightarrow>
          let k = h_next_node (tc_heap s) in
          rbind (ClassifyDuplicateFiles env (env_sum_order env (tc_sum2node s)) (tc_heap s)) (\<lambda>(eq_classes, h1).
          rbind (ClassifyEmptyDirs env k root_node h1) (\<lambda>(empty_dirs_class, h2).
          deref (h_classes h2 empty_dirs_class) (\<lambda>ec.
          let (eq_classes', h3) = (if \<not> ec_IsEmpty ec then (eq_classes @ [empty_dirs_class], h2)
                else (eq_classes, delete_class empty_dirs_class h2)) in
          rbind (PropagateEquivalence k env root_node eq_classes' h3) (\<lambda>(eq_classes'', h4).
          let sorted_classes = SortEqClasses env h4 eq_classes'' in
          rbind (CalculateUniqueness k env root_node h4) (\<lambda>(descendants, h5).
            Inr (Some (root_node, sorted_classes, h5))))))))"

text \<open>Its first half, up to the propagation.\<close>

definition classify_leaves :: "dedup_env \<Rightarrow> tree_ctor \<Rightarrow> nid \<Rightarrow> (cid list \<times> heap) res" where
  "classify_leaves env s r =
     rbind (ClassifyDuplicateFiles env (env_sum_order env (tc_sum2node s)) (tc_heap s)) (\<lambda>(eq_classes, h1).
     rbind (ClassifyEmptyDirs env (h_next_node (tc_heap s)) r h1) (\<lambda>(empty_dirs_class, h2).
     deref (h_classes h2 empty_dirs_class) (\<lambda>ec.
       Inr (if \<not> ec_IsEmpty ec then (eq_classes @ [empty_dirs_class], h2)
         else (eq_classes, delete_class empty_dirs_class h2)))))"

lemma dedup_tree_phases:
  assumes "tc_root s = Some r"
  shows "dedup_tree env s =
    rbind (classify_leaves env s r) (\<lambda>(cs, h).
    rbind (PropagateEquivalence (h_next_node (tc_heap s)) env r cs h) (\<lambda>(cs', h').
    rbind (CalculateUniqueness (h_next_node (tc_heap s)) env r h') (\<lambda>(ds, h'').
      Inr (Some (r, SortEqClasses env h' cs', h'')))))"
proof -
  have "rbind (deref x f) g = deref x (\<lambda>v. rbind (f v) g)" for x :: "EqClass option" and f :: "EqClass \<Rightarrow> (cid list \<times> heap) res" and g :: "_ \<Rightarrow> (nid \<times> cid list \<times> heap) option res"
    by (cases x) simp_all
  then show ?thesis by (simp add: dedup_tree_def classify_leaves_def assms rbind_assoc Let_def case_prod_unfold)
qed

definition FuzzyDedup ::
  "'p world \<Rightarrow> dedup_env \<Rightarrow> string \<Rightarrow> (nid \<times> cid list \<times> heap) option res set" where
  "FuzzyDedup W env dir =
     (\<lambda>r. rbind r (dedup_tree (env\<lparr>env_conf := w_conf W\<rparr>))) ` ScanDirectory_tree W dir"

section \<open>One tree\<close>

lemma one_tree_spans:
  assumes "tree_ok h" and "one_tree h r"
  shows "spans h r"
proof -
  have r: "r \<in> dom (h_nodes h)" using assms(2) by (simp add: one_tree_def)
  have "n \<in> dom (h_nodes h) \<Longrightarrow> (r, n) \<in> (child_rel h)\<^sup>*" for n
  proof (induction n rule: less_induct)
    case (less n)
    show ?case
    proof (cases "n = r")
      case False
      with less.prems assms(2) obtain p where p: "parent_of h n = Some p"
        by (auto simp: one_tree_def)
      note c = tree_okD(5) [OF assms(1) p]
      have "(r, p) \<in> (child_rel h)\<^sup>*"
        by (rule less.IH [OF tree_okD(2) [OF assms(1) c] children_of_dom [OF c]])
      moreover have "(p, n) \<in> child_rel h" using c by (simp add: child_rel_def)
      ultimately show ?thesis by (rule rtrancl_into_rtrancl)
    qed simp
  qed
  then have "dom (h_nodes h) \<subseteq> set (nodes_below h r)"
    using nodes_below_iff [OF assms(1) r] by blast
  moreover have "set (nodes_below h r) \<subseteq> dom (h_nodes h)"
    using below_dom [OF assms(1) r] by blast
  ultimately show ?thesis using r by (simp add: spans_def)
qed

lemma spans_same_tree: "same_tree h h' \<Longrightarrow> spans h r \<Longrightarrow> spans h' r"
  unfolding spans_def by (metis same_treeD(3) same_tree_below(2))

section \<open>Deleting the unused class\<close>

lemma delete_class_ok:
  assumes "heap_ok h" and "members h c = []"
  shows "heap_ok (delete_class c h)" and "same_tree h (delete_class c h)"
    and "class_of (delete_class c h) = class_of h" and "members (delete_class c h) = members h"
proof -
  let ?h = "delete_class c h"
  show tree: "same_tree h ?h" by (simp add: same_tree_def static_part_def delete_class_def fun_eq_iff)
  show cls: "class_of ?h = class_of h" by (simp add: class_of_def delete_class_def fun_eq_iff)
  show mem: "members ?h = members h"
    using assms(2) by (auto simp: members_def delete_class_def fun_eq_iff)
  have "pending ?h = pending h" by (simp add: pending_def delete_class_def fun_eq_iff)
  then have "counters_ok ?h"
    using heap_okD(3) [OF assms(1)] by (simp add: counters_ok_def cls same_treeD(1) [OF tree])
  moreover have "0 \<le> weight_of ?h d" for d
    using classes_okD(4) [OF heap_okD(2) [OF assms(1)], of d] by (simp add: weight_of_def delete_class_def)
  then have "classes_ok ?h"
    using heap_okD(2) [OF assms(1)] unfolding classes_ok_def cls mem
    by (auto simp: delete_class_def)
  ultimately show "heap_ok ?h"
    using tree_ok_same [OF tree heap_okD(1) [OF assms(1)]] by (simp add: heap_ok_def)
qed

section \<open>Leaves and inner nodes do not mix\<close>

definition leafy :: "heap \<Rightarrow> bool" where
  "leafy h \<longleftrightarrow> (\<forall>n m. class_of h n \<noteq> None \<longrightarrow> class_of h n = class_of h m \<longrightarrow> children_of h n = [] \<longrightarrow>
     children_of h m = [])"

definition leaves_evaluated :: "heap \<Rightarrow> bool" where
  "leaves_evaluated h \<longleftrightarrow> (\<forall>n. leaf h n \<longrightarrow> class_of h n \<noteq> None)"

lemma leafy_step:
  assumes "class_of h' = (class_of h)(n \<mapsto> c)" and "children_of h' = children_of h" and "leafy h"
    and "class_of h n = None" and "children_of h n \<noteq> []"
    and "\<And>m. class_of h m = Some c \<Longrightarrow> \<exists>p. class_of h p = Some c \<and> children_of h p \<noteq> []"
  shows "leafy h'"
proof -
  have inner: "children_of h m \<noteq> []" if m: "class_of h m = Some c" for m
  proof
    assume l: "children_of h m = []"
    obtain p where "class_of h p = Some c" "children_of h p \<noteq> []" using assms(6) [OF m] by blast
    with m l assms(3) show False unfolding leafy_def by (metis option.distinct(1))
  qed
  show ?thesis
    unfolding leafy_def assms(2)
  proof (intro allI impI)
    fix x y assume x: "class_of h' x \<noteq> None" "class_of h' x = class_of h' y" "children_of h x = []"
    have xn: "x \<noteq> n" using x(3) assms(5) by blast
    show "children_of h y = []"
    proof (cases "y = n")
      case True
      with x(2) xn assms(1) have "class_of h x = Some c" by simp
      with inner x(3) show ?thesis by blast
    next
      case False
      with x xn assms(1) have "class_of h x \<noteq> None" "class_of h x = class_of h y" by simp_all
      with x(3) assms(3) show ?thesis unfolding leafy_def by blast
    qed
  qed
qed

context unordered_env
begin

lemma prop_step_leafy:
  assumes "prop_step env n (h, cs) (h', cs')" and "heap_ok h" and "listed cs h"
    and "leafy h" and "leaves_evaluated h"
  shows "leafy h' \<and> leaves_evaluated h'"
proof -
  from prop_step_effect [OF assms(1-3)] obtain c where g: "grows h h'" "class_of h' = (class_of h)(n := Some c)"
    by blast
  note same = growsD(2) [OF g(1)]
  have n: "n \<in> dom (h_nodes h)" "class_of h n = None"
    using assms(1) by (cases rule: prop_step.cases; simp add: unevaluated_def)+
  have inner: "children_of h n \<noteq> []"
    using assms(5) n unfolding leaves_evaluated_def leaf_def by blast
  have "\<exists>p. class_of h p = Some c \<and> children_of h p \<noteq> []" if m: "class_of h m = Some c" for m
    using assms(1)
  proof (cases rule: prop_step.cases)
    case (join p d c0)
    have "class_of h' n = Some c0"
      using AddNode_ok [OF assms(2) n(1) join(3) n(2) class_of_valid [OF heap_okD(2) [OF assms(2)] join(6)]]
        join(7) by auto
    then have "c0 = c" using g(2) by simp
    moreover have "p \<in> possible_equivalents h n" using join(4) by (simp add: closest_def)
    then have "children_of h p \<noteq> []" by (auto simp: possible_equivalents_def classes_below_def)
    ultimately show ?thesis using join(6) by blast
  next
    case (fresh c0 h1)
    note new = new_EqClass_ok [OF assms(2), unfolded fresh(5) fst_conv snd_conv]
    have "n \<in> dom (h_nodes h1)" "ready h1 n" "class_of h1 n = None"
      using n same_treeD(3) [OF new(2)] ready_same_tree [OF new(2,3)] new(3) fresh(3) by simp_all
    from AddNode_ok [OF new(1) this new(6)] fresh(6) g(2) have "c0 = c"
      by (auto dest: fun_cong [where x = n])
    with m new(7) class_of_valid [OF heap_okD(2) [OF assms(2)]] show ?thesis by blast
  qed
  then have "leafy h'"
    by (rule leafy_step [OF g(2) same_treeD(1) [OF same] assms(4) n(2) inner])
  moreover have "leaves_evaluated h'"
    using assms(5) g(2) unfolding leaves_evaluated_def leaf_same_tree [OF same] by simp
  ultimately show ?thesis ..
qed

lemma run_leafy:
  assumes "run env s s'" and "heap_ok (fst s)" and "listed (snd s) (fst s)"
    and "leafy (fst s)" and "leaves_evaluated (fst s)"
  shows "heap_ok (fst s') \<and> listed (snd s') (fst s') \<and> leafy (fst s') \<and> leaves_evaluated (fst s')"
  by (rule run_invariant [OF assms(1-3), where I = "\<lambda>h. leafy h \<and> leaves_evaluated h"])
    (use assms(4,5) prop_step_leafy in blast)+

end

section \<open>The leaves\<close>

text \<open>Two nodes with the same checksum, or two empty directories.\<close>

definition same_leaf :: "tree_ctor \<Rightarrow> heap \<Rightarrow> nid \<Rightarrow> nid \<Rightarrow> bool" where
  "same_leaf s h n m \<longleftrightarrow>
     (\<exists>ck. (ck, n) \<in> set (tc_sum2node s) \<and> (ck, m) \<in> set (tc_sum2node s)) \<or>
     (is_empty_dir h n \<and> is_empty_dir h m)"

lemma listedI:
  assumes "classes_ok h" and "distinct cs" and "\<And>c. c \<in> set cs \<longleftrightarrow> (\<exists>n. class_of h n = Some c)"
  shows "listed cs h"
proof -
  have "members h c \<noteq> [] \<longleftrightarrow> (\<exists>n. class_of h n = Some c)" for c
    using classes_okD(2) [OF assms(1), of _ c] by (cases "members h c") auto
  with assms(2,3) show ?thesis by (auto simp: listed_def)
qed

lemma tree_rep_files:
  assumes "tree_rep P s A fs"
  shows "n \<in> snd ` set (tc_sum2node s) \<longleftrightarrow> is_file (tc_heap s) n"
proof -
  obtain r where files: "list_all2 (file_node (tc_heap s) r) (tc_sum2node s) (map (native_file P) fs)"
    and all: "\<And>n nm sz. info (tc_heap s) n = Some (nm, FILE, sz) \<Longrightarrow> n \<in> snd ` set (tc_sum2node s)"
    using assms unfolding tree_rep_def by blast
  have f: "is_file (tc_heap s) m \<longleftrightarrow> (\<exists>nm sz. info (tc_heap s) m = Some (nm, FILE, sz))" for m
    by (cases "h_nodes (tc_heap s) m") (auto simp: is_file_def info_def)
  have "is_file (tc_heap s) (snd e)" if "e \<in> set (tc_sum2node s)" for e
    using list_all2_left [OF files that] unfolding f file_node_def by blast
  then show ?thesis using all f by auto
qed

lemma file_leaf: "tree_ok h \<Longrightarrow> is_file h n \<Longrightarrow> leaf h n"
  using tree_okD(7) [of h n] by (auto simp: is_file_def leaf_def)

lemma leaf_kind: "tree_ok h \<Longrightarrow> leaf h n \<longleftrightarrow> is_file h n \<or> is_empty_dir h n"
proof -
  assume t: "tree_ok h"
  have "is_file h n \<or> is_empty_dir h n" if l: "leaf h n"
  proof -
    obtain nd where "h_nodes h n = Some nd" "nd_children nd = []"
      using l by (auto simp: leaf_def)
    then show ?thesis by (cases "nd_type nd") (auto simp: is_file_def is_empty_dir_def IsEmptyDir_def)
  qed
  then show ?thesis using file_leaf [OF t] is_empty_dir_leaf by blast
qed

lemma is_file_same: "same_tree h h' \<Longrightarrow> is_file h' n = is_file h n"
proof -
  assume s: "same_tree h h'"
  have "is_file g n \<longleftrightarrow> (\<exists>x. static_part g n = Some x \<and> fst (snd x) = FILE)" for g
    by (cases "h_nodes g n") (auto simp: is_file_def static_part_def)
  then show ?thesis using s by (simp add: same_tree_def)
qed

lemma distinct_snd_unique: "distinct (map snd xs) \<Longrightarrow> (a, x) \<in> set xs \<Longrightarrow> (b, x) \<in> set xs \<Longrightarrow> a = b"
  by (induction xs) force+

lemma file_not_empty_dir: "is_file h n \<Longrightarrow> \<not> is_empty_dir h n"
  by (auto simp: is_file_def is_empty_dir_def IsEmptyDir_def)

text \<open>After the files: exactly they have classes, all of them listed.\<close>

lemma classified_files:
  assumes rep: "tree_rep P s A fs" and files: "files_classified es cs (tc_heap s) h1"
    and es: "set es = set (tc_sum2node s)"
  shows "is_file (tc_heap s) n \<longleftrightarrow> (\<exists>d \<in> set cs. class_of h1 n = Some d)"
    and "class_of h1 n = Some d \<Longrightarrow> d \<in> set cs"
proof -
  have nocls: "class_of (tc_heap s) = (\<lambda>_. None)" using rep unfolding tree_rep_def by blast
  note F = files_classifiedD [OF files]
  have f: "is_file (tc_heap s) n \<longleftrightarrow> n \<in> snd ` set es" using tree_rep_files [OF rep] es by simp
  have key: "\<exists>k \<in> set cs. class_of h1 n = Some k" if "n \<in> snd ` set es"
    using F(2) that unfolding classified_by_key_def by auto
  have out: "n \<in> snd ` set es" if "class_of h1 n = Some d" for d
    using F(6) [of n] nocls that by (metis option.distinct(1))
  show "is_file (tc_heap s) n \<longleftrightarrow> (\<exists>d \<in> set cs. class_of h1 n = Some d)" using f key out by blast
  show "d \<in> set cs" if "class_of h1 n = Some d" using key [OF out [OF that]] that by auto
qed

lemma files_share_class:
  assumes rep: "tree_rep P s A fs" and files: "files_classified es cs (tc_heap s) h1"
    and es: "set es = set (tc_sum2node s)" and f: "is_file (tc_heap s) n" "is_file (tc_heap s) m"
  shows "class_of h1 n = class_of h1 m \<longleftrightarrow> (\<exists>ck. (ck, n) \<in> set (tc_sum2node s) \<and> (ck, m) \<in> set (tc_sum2node s))"
proof -
  have "n \<in> snd ` set es" "m \<in> snd ` set es" using tree_rep_files [OF rep] f es by blast+
  then obtain e e' where e: "e \<in> set es" "snd e = n" "e' \<in> set es" "snd e' = m" by auto
  have "class_of h1 n = class_of h1 m \<longleftrightarrow> fst e = fst e'"
    using files_classifiedD(2) [OF files] e unfolding classified_by_key_def by blast
  moreover have d: "distinct (map snd (tc_sum2node s))" using rep unfolding tree_rep_def by blast
  have "(fst e, n) = e" "(fst e', m) = e'" using e(2,4) by auto
  then have "(fst e, n) \<in> set (tc_sum2node s)" "(fst e', m) \<in> set (tc_sum2node s)"
    using e(1,3) es by simp_all
  then have "fst e = fst e' \<longleftrightarrow> (\<exists>ck. (ck, n) \<in> set (tc_sum2node s) \<and> (ck, m) \<in> set (tc_sum2node s))"
    using distinct_snd_unique [OF d] by metis
  ultimately show ?thesis by simp
qed

text \<open>After the empty directories: exactly the leaves have classes.\<close>

lemma leaf_phase_classes:
  assumes rep: "tree_rep P s A fs" and files: "files_classified es cs (tc_heap s) h1"
    and es: "set es = set (tc_sum2node s)" and dirs: "dirs_classified ns c h1 h2"
    and ns: "set ns = dom (h_nodes h1)"
  shows "class_of h2 n = Some d \<longleftrightarrow>
      (is_file h2 n \<and> d \<in> set cs \<and> class_of h1 n = Some d) \<or> (is_empty_dir h2 n \<and> d = c)"
    and "class_of h2 n \<noteq> None \<longleftrightarrow> leaf h2 n"
    and "is_file h2 n \<Longrightarrow> class_of h2 n = class_of h1 n"
proof -
  note D = dirs [unfolded dirs_classified_def]
  have g: "grows h1 h2"
    and D4: "\<And>n. class_of h2 n = (if n \<in> set ns \<and> is_empty_dir h1 n then Some c else class_of h1 n)"
    using D by blast+
  note s1 = growsD(2) [OF files_classifiedD(1) [OF files]] and s2 = growsD(2) [OF g]
  have isf: "is_file h2 n \<longleftrightarrow> is_file (tc_heap s) n" for n using s1 s2 by (metis is_file_same)
  have ise: "is_empty_dir h2 n \<longleftrightarrow> is_empty_dir h1 n" for n by (rule is_empty_dir_same [OF s2])
  have ok2: "tree_ok h2" using growsD(1) [OF g] by (rule heap_okD(1))
  note C = classified_files [OF rep files es, folded isf]
  have empty_ns: "is_empty_dir h1 n \<Longrightarrow> n \<in> set ns" for n
    using is_empty_dir_leaf ns by (auto simp: leaf_def)
  show both: "class_of h2 n = Some d \<longleftrightarrow>
      (is_file h2 n \<and> d \<in> set cs \<and> class_of h1 n = Some d) \<or> (is_empty_dir h2 n \<and> d = c)" for n d
    using D4 [of n] empty_ns [of n] ise [of n] C(1) [of n] C(2) [of n d] file_not_empty_dir [of h2 n]
    by auto
  show "class_of h2 n \<noteq> None \<longleftrightarrow> leaf h2 n"
    using both [of n] C(1) [of n] leaf_kind [OF ok2, of n] by blast
  show "class_of h2 n = class_of h1 n" if "is_file h2 n"
    using D4 [of n] ise [of n] file_not_empty_dir [OF that] by simp
qed

lemma leaf_phaseI:
  assumes rep: "tree_rep P s A fs" and files: "files_classified es cs (tc_heap s) h1"
    and es: "set es = set (tc_sum2node s)" and dirs: "dirs_classified ns c h1 h2"
    and ns: "set ns = dom (h_nodes h1)"
  shows "\<And>n. class_of h2 n \<noteq> None \<longleftrightarrow> leaf h2 n"
    and "\<And>n m. leaf h2 n \<Longrightarrow> leaf h2 m \<Longrightarrow> class_of h2 n = class_of h2 m \<longleftrightarrow> same_leaf s h2 n m"
    and "\<And>n d. class_of h2 n = Some d \<longleftrightarrow>
      (is_file h2 n \<and> d \<in> set cs \<and> class_of h1 n = Some d) \<or> (is_empty_dir h2 n \<and> d = c)"
proof -
  note both = leaf_phase_classes(1) [OF assms] and ev = leaf_phase_classes(2) [OF assms]
  show "\<And>n. class_of h2 n \<noteq> None \<longleftrightarrow> leaf h2 n" by (rule ev)
  show "\<And>n d. class_of h2 n = Some d \<longleftrightarrow>
      (is_file h2 n \<and> d \<in> set cs \<and> class_of h1 n = Some d) \<or> (is_empty_dir h2 n \<and> d = c)" by (rule both)
  have g: "grows h1 h2" and c: "c \<notin> dom (h_classes h1)" using dirs unfolding dirs_classified_def by blast+
  have isf: "is_file h2 n \<longleftrightarrow> is_file (tc_heap s) n" for n
    using growsD(2) [OF files_classifiedD(1) [OF files]] growsD(2) [OF g] by (metis is_file_same)
  note kind = leaf_kind [OF heap_okD(1) [OF growsD(1) [OF g]]]
  fix n m assume l: "leaf h2 n" "leaf h2 m"
  show "class_of h2 n = class_of h2 m \<longleftrightarrow> same_leaf s h2 n m"
  proof (cases "is_file h2 n \<and> is_file h2 m")
    case True
    then show ?thesis
      using files_share_class [OF rep files es, folded isf, of n m] leaf_phase_classes(3) [OF assms]
        file_not_empty_dir [of h2 n] unfolding same_leaf_def by simp
  next
    case False
    have cc: "c \<notin> set cs" using c files_classifiedD(5) [OF files] by blast
    have "n \<in> snd ` set (tc_sum2node s) \<longleftrightarrow> is_file h2 n" "m \<in> snd ` set (tc_sum2node s) \<longleftrightarrow> is_file h2 m"
      using tree_rep_files [OF rep] isf by blast+
    then have sl: "same_leaf s h2 n m \<longleftrightarrow> is_empty_dir h2 n \<and> is_empty_dir h2 m"
      using False unfolding same_leaf_def by force
    show ?thesis
      unfolding sl using False l both [of n] both [of m] ev kind cc file_not_empty_dir
      by (metis option.inject not_None_eq)
  qed
qed

section \<open>The result\<close>

definition dedup_spec :: "tree_ctor \<Rightarrow> cid list \<Rightarrow> heap \<Rightarrow> bool" where
  "dedup_spec s cs h \<longleftrightarrow>
     heap_ok h \<and> same_tree (tc_heap s) h \<and> all_evaluated h \<and> listed cs h \<and>
     sorted_wrt (\<lambda>c d. weight_of h d \<le> weight_of h c) cs \<and>
     (\<forall>n m. leaf h n \<longrightarrow> m \<in> dom (h_nodes h) \<longrightarrow> (class_of h n = class_of h m \<longleftrightarrow> same_leaf s h n m)) \<and>
     (\<forall>n \<in> dom (h_nodes h). \<exists>f. frac_of h n = Some f \<and> fraction_spec h n f)"

text \<open>What the propagation starts from.\<close>

definition leaves_done :: "tree_ctor \<Rightarrow> cid list \<Rightarrow> heap \<Rightarrow> bool" where
  "leaves_done s cs h \<longleftrightarrow> heap_ok h \<and> same_tree (tc_heap s) h \<and> listed cs h \<and>
     leafy h \<and> leaves_evaluated h \<and> (\<forall>n. class_of h n \<noteq> None \<longrightarrow> leaf h n) \<and>
     (\<forall>n m. leaf h n \<longrightarrow> leaf h m \<longrightarrow> (class_of h n = class_of h m \<longleftrightarrow> same_leaf s h n m))"

text \<open>A scanned tree on which a sum of weights leaves the range of \<open>uint64_t\<close>: from the classified leaves,
  steps of the work list lead to a node whose distance from a candidate overflows.\<close>

definition weights_overflow :: "dedup_env \<Rightarrow> tree_ctor \<Rightarrow> bool" where
  "weights_overflow env s \<longleftrightarrow>
     (\<exists>r cs h. tc_root s = Some r \<and> classify_leaves env s r = Inr (cs, h) \<and> leaves_done s cs h \<and>
        overflow_reached env (h, cs))"

lemma same_leaf_same_tree: "same_tree h h' \<Longrightarrow> same_leaf s h' n m = same_leaf s h n m"
  by (simp add: same_leaf_def is_empty_dir_same)

lemma same_leaf_leaf:
  assumes "tree_rep P s A fs" and "same_tree (tc_heap s) h" and "tree_ok h" and "same_leaf s h n m"
  shows "leaf h m"
proof -
  have "m \<in> snd ` set (tc_sum2node s) \<or> is_empty_dir h m"
    using assms(4) unfolding same_leaf_def by force
  then have "is_file h m \<or> is_empty_dir h m"
    using tree_rep_files [OF assms(1)] is_file_same [OF assms(2)] by blast
  then show ?thesis using leaf_kind [OF assms(3)] by blast
qed

lemma leaves_doneI:
  assumes rep: "tree_rep P s A fs" and files: "files_classified es cs (tc_heap s) h1"
    and es: "set es = set (tc_sum2node s)" and dirs: "dirs_classified ns c h1 h2"
    and ns: "set ns = dom (h_nodes h1)"
    and kept: "cs' = (if members h2 c \<noteq> [] then cs @ [c] else cs)"
    and h3: "heap_ok h3" "same_tree h2 h3" "class_of h3 = class_of h2"
  shows "leaves_done s cs' h3"
proof -
  note L = leaf_phaseI [OF rep files es dirs ns]
  note F = files_classifiedD [OF files]
  have g: "grows h1 h2" and c: "c \<notin> dom (h_classes h1)" using dirs unfolding dirs_classified_def by blast+
  have same: "same_tree (tc_heap s) h3"
    using growsD(2) [OF F(1)] growsD(2) [OF g] h3(2) same_tree_trans by metis
  have lf: "leaf h3 = leaf h2" by (rule leaf_same_tree [OF h3(2)])
  have cs: "d \<in> set cs \<longleftrightarrow> (\<exists>n. is_file h2 n \<and> d \<in> set cs \<and> class_of h1 n = Some d)" for d
  proof
    assume d: "d \<in> set cs"
    then obtain e where e: "e \<in> set es" "class_of h1 (snd e) = Some d"
      using F(2) unfolding classified_by_key_def by blast
    have "is_file (tc_heap s) (snd e)" using e(1) es tree_rep_files [OF rep] by blast
    then have "is_file h2 (snd e)"
      using is_file_same [OF same_tree_trans [OF growsD(2) [OF F(1)] growsD(2) [OF g]]] by blast
    with e(2) d show "\<exists>n. is_file h2 n \<and> d \<in> set cs \<and> class_of h1 n = Some d" by blast
  qed blast
  have mem: "members h2 c \<noteq> [] \<longleftrightarrow> (\<exists>n. class_of h2 n = Some c)"
    using classes_okD(2) [OF heap_okD(2) [OF growsD(1) [OF g]], of _ c] by (cases "members h2 c") auto
  have dc: "c \<notin> set cs" using c F(5) by blast
  have "listed cs' h3"
  proof (rule listedI [OF heap_okD(2) [OF h3(1)]])
    show "distinct cs'" using F(3) dc kept by simp
    show "d \<in> set cs' \<longleftrightarrow> (\<exists>n. class_of h3 n = Some d)" for d
    proof (cases "d = c")
      case True
      then show ?thesis unfolding kept h3(3) using mem dc by simp
    next
      case False
      then have "d \<in> set cs' \<longleftrightarrow> d \<in> set cs" unfolding kept by simp
      also have "\<dots> \<longleftrightarrow> (\<exists>n. class_of h2 n = Some d)" using cs [of d] L(3) False by blast
      finally show ?thesis unfolding h3(3) .
    qed
  qed
  moreover have "leaves_evaluated h3" "\<forall>n. class_of h3 n \<noteq> None \<longrightarrow> leaf h3 n"
    unfolding leaves_evaluated_def lf h3(3) using L(1) by blast+
  moreover have "leafy h3"
    unfolding leafy_def h3(3) same_treeD(1) [OF h3(2)]
    using L(1) unfolding leaf_def by metis
  moreover have "class_of h3 n = class_of h3 m \<longleftrightarrow> same_leaf s h3 n m" if "leaf h3 n" "leaf h3 m" for n m
    using L(2) [of n m] that unfolding lf h3(3) same_leaf_same_tree [OF h3(2)] by blast
  ultimately show ?thesis
    using h3(1) same unfolding leaves_done_def by blast
qed

lemma tree_rep_leaves:
  assumes "tree_rep P s A fs"
  shows "unclassified_leaves (tc_sum2node s) (tc_heap s)"
proof -
  have rep: "heap_ok (tc_heap s)" "class_of (tc_heap s) = (\<lambda>_. None)" "distinct (map snd (tc_sum2node s))"
    using assms unfolding tree_rep_def by blast+
  have "leaf (tc_heap s) (snd e)" if "e \<in> set (tc_sum2node s)" for e
    using that tree_rep_files [OF assms] file_leaf [OF heap_okD(1) [OF rep(1)]] by blast
  with rep show ?thesis by (simp add: unclassified_leaves_def)
qed

lemma unclassified_leaves_mset:
  assumes "unclassified_leaves es h" and "mset es' = mset es"
  shows "unclassified_leaves es' h"
proof -
  have "mset (map snd es') = mset (map snd es)" using assms(2) by simp
  then have "distinct (map snd es') = distinct (map snd es)" by (rule mset_eq_imp_distinct_iff)
  moreover have "set es' = set es" using assms(2) by (metis set_mset_mset)
  ultimately show ?thesis using assms(1) by (simp add: unclassified_leaves_def)
qed

context unordered_env
begin

text \<open>The two classifications of the leaves.\<close>

lemma leaves_run:
  assumes rep: "tree_rep P s A fs" and r: "tc_root s = Some r"
  shows "\<exists>cs h. classify_leaves env s r = Inr (cs, h) \<and> spans (tc_heap s) r \<and> leaves_done s cs h"
proof -
  let ?h = "tc_heap s" and ?es = "env_sum_order env (tc_sum2node s)"
  obtain r' where r': "tc_root s = Some r'" "one_tree ?h r'" "heap_ok ?h" "class_of ?h = (\<lambda>_. None)"
    using rep unfolding tree_rep_def by blast
  then have one: "one_tree ?h r" using r by simp
  have es: "set ?es = set (tc_sum2node s)" using sum_order by (metis set_mset_mset)
  have tree: "tree_ok ?h" using r'(3) by (rule heap_okD(1))
  have "unclassified_leaves ?es ?h"
    by (rule unclassified_leaves_mset [OF tree_rep_leaves [OF rep] sum_order])
  then obtain cs h1 where f: "ClassifyDuplicateFiles env ?es ?h = Inr (cs, h1)" "files_classified ?es cs ?h h1"
    using ClassifyDuplicateFiles_ok [OF r'(3) _ sum_order_grouped] by blast
  note F = files_classifiedD [OF f(2)]
  note ok1 = growsD(1) [OF F(1)] and s1 = growsD(2) [OF F(1)]
  have sp: "spans ?h r" by (rule one_tree_spans [OF tree one])
  have sp1: "spans h1 r" by (rule spans_same_tree [OF s1 sp])
  then have ns: "set (nodes_below h1 r) = dom (h_nodes h1)" and rd: "r \<in> dom (h_nodes h1)"
    unfolding spans_def by blast+
  have "class_of h1 m = None" if "is_empty_dir h1 m" for m
  proof -
    have "\<not> is_file ?h m" using file_not_empty_dir that is_empty_dir_same [OF s1] by blast
    then have "m \<notin> snd ` set ?es" using tree_rep_files [OF rep] es by blast
    with F(6) [of m] r'(4) show ?thesis by simp
  qed
  with ClassifyEmptyDirs_ok [OF ok1 rd, of "h_next_node ?h"] same_treeD(4) [OF s1]
  obtain c h2 where d: "ClassifyEmptyDirs env (h_next_node ?h) r h1 = Inr (c, h2)"
    "dirs_classified (nodes_below h1 r) c h1 h2" by auto
  have g: "grows h1 h2" and dc: "dom (h_classes h2) = insert c (dom (h_classes h1))"
    using d(2) unfolding dirs_classified_def by blast+
  have "c \<in> dom (h_classes h2)" unfolding dc by (rule insertI1)
  then obtain ec where ec: "h_classes h2 c = Some ec" by blast
  have mem: "members h2 c = ec_nodes ec" using ec by (simp add: members_def)
  note ok2 = growsD(1) [OF g]
  let ?h3 = "if \<not> ec_IsEmpty ec then h2 else delete_class c h2"
  have h3: "heap_ok ?h3 \<and> same_tree h2 ?h3 \<and> class_of ?h3 = class_of h2"
    using ok2 delete_class_ok [OF ok2, of c] mem by (simp add: ec_IsEmpty_def)
  have "leaves_done s (if \<not> ec_IsEmpty ec then cs @ [c] else cs) ?h3"
    by (rule leaves_doneI [OF rep f(2) es d(2) ns]) (use h3 mem in \<open>simp_all add: ec_IsEmpty_def\<close>)
  with sp show ?thesis by (cases "ec_IsEmpty ec") (simp_all add: classify_leaves_def f(1) d(1) ec)
qed

text \<open>The leaves keep the classes they start with, and share them with no other node.\<close>

lemma leaves_keep_classes:
  assumes rep: "tree_rep P s A fs" and start: "leaves_done s cs h3"
    and run: "run env (h3, cs) (h4, cs4)" and g: "grows h3 h4" and ev: "all_evaluated h4"
    and n: "leaf h4 n" and m: "m \<in> dom (h_nodes h4)"
  shows "class_of h4 n = class_of h4 m \<longleftrightarrow> same_leaf s h4 n m"
proof -
  note S = start [unfolded leaves_done_def]
  have lf4: "leafy h4" using run_leafy [OF run] S by simp
  note ok4 = growsD(1) [OF g] and s34 = growsD(2) [OF g]
  have s4: "same_tree (tc_heap s) h4" using S same_tree_trans [OF _ s34] by blast
  note lf = leaf_same_tree [OF s34]
  have keep: "class_of h4 x = class_of h3 x" if "leaf h3 x" for x
    using growsD(4) [OF g] S that unfolding leaves_evaluated_def by blast
  show ?thesis
  proof (cases "leaf h3 m")
    case True
    have "class_of h3 n = class_of h3 m \<longleftrightarrow> same_leaf s h3 n m" using S n True unfolding lf by blast
    then show ?thesis using keep [OF True] keep [of n] n unfolding lf same_leaf_same_tree [OF s34] by simp
  next
    case False
    have "\<not> same_leaf s h4 n m"
      using same_leaf_leaf [OF rep s4 heap_okD(1) [OF ok4]] False unfolding lf by blast
    moreover have "class_of h4 n \<noteq> class_of h4 m"
    proof
      assume eq: "class_of h4 n = class_of h4 m"
      have "class_of h4 n \<noteq> None" using ev n unfolding all_evaluated_def leaf_def by blast
      with eq lf4 n have "children_of h4 m = []" unfolding leafy_def leaf_def by blast
      then have "leaf h4 m" using m unfolding leaf_def by blast
      with False lf show False by simp
    qed
    ultimately show ?thesis by blast
  qed
qed

text \<open>From the classified leaves to the result.\<close>

lemma dedup_specI:
  assumes rep: "tree_rep P s A fs" and start: "leaves_done s cs h3"
    and run: "run env (h3, cs) (h4, cs4)" and g: "grows h3 h4" and listed: "listed cs4 h4"
    and ev: "all_evaluated h4" and sp: "spans (tc_heap s) r"
    and fr: "fractions_set h4 h5 (set (nodes_below h4 r))"
  shows "dedup_spec s (SortEqClasses env h4 cs4) h5"
proof -
  have s3: "same_tree (tc_heap s) h3" using start unfolding leaves_done_def by blast
  note ok4 = growsD(1) [OF g] and s34 = growsD(2) [OF g]
  have core: "same_core h4 h5" using fr by (simp add: fractions_set_def)
  note V = same_core_views [OF core] and C = same_core_specs [OF core]
  have ok5: "heap_ok h5" by (rule heap_ok_same_core [OF core ok4])
  have s45: "same_tree (tc_heap s) h4" by (rule same_tree_trans [OF s3 s34])
  have s5: "same_tree (tc_heap s) h5" by (rule same_tree_trans [OF s45 V(1)])
  have ev5: "all_evaluated h5" using ev C(4) by simp
  have listed5: "listed (SortEqClasses env h4 cs4) h5"
    using listed unfolding listed_def V(3) by (simp add: SortEqClasses_sorted)
  have sorted5: "sorted_wrt (\<lambda>c d. weight_of h5 d \<le> weight_of h5 c) (SortEqClasses env h4 cs4)"
    unfolding V(4) by (rule SortEqClasses_sorted)
  have leaves: "class_of h5 n = class_of h5 m \<longleftrightarrow> same_leaf s h5 n m" if "leaf h5 n" "m \<in> dom (h_nodes h5)" for n m
    using leaves_keep_classes [OF rep start run g ev, of n m] that
    unfolding V(2) same_leaf_same_tree [OF V(1)] leaf_same_tree [OF V(1)] same_treeD(3) [OF V(1)] .
  have fracs: "\<exists>f. frac_of h5 n = Some f \<and> fraction_spec h5 n f" if "n \<in> dom (h_nodes h5)" for n
  proof -
    have "n \<in> set (nodes_below h4 r)"
      using that spans_same_tree [OF s45 sp] unfolding spans_def same_treeD(3) [OF V(1)] by blast
    with fr show ?thesis unfolding fractions_set_def C(5) by blast
  qed
  show ?thesis
    unfolding dedup_spec_def using ok5 s5 ev5 listed5 sorted5 leaves fracs by blast
qed

text \<open>A run of \<open>dedup_tree\<close>, phase by phase.\<close>

lemma dedup_tree_run:
  assumes rep: "tree_rep P s A fs" and r: "tc_root s = Some r"
  shows "(\<exists>cs3 h3 cs4 h4 h5. dedup_tree env s = Inr (Some (r, SortEqClasses env h4 cs4, h5)) \<and>
      classify_leaves env s r = Inr (cs3, h3) \<and> leaves_done s cs3 h3 \<and> run env (h3, cs3) (h4, cs4) \<and>
      grows h3 h4 \<and> listed cs4 h4 \<and> all_evaluated h4 \<and> spans (tc_heap s) r \<and>
      fractions_set h4 h5 (set (nodes_below h4 r))) \<or>
    is_overflow (dedup_tree env s) \<and> weights_overflow env s"
proof -
  from leaves_run [OF rep r] obtain cs3 h3 where
    L: "classify_leaves env s r = Inr (cs3, h3)" "spans (tc_heap s) r" "leaves_done s cs3 h3" by blast
  let ?k = "h_next_node (tc_heap s)"
  have ok3: "heap_ok h3" and s3: "same_tree (tc_heap s) h3" and li3: "listed cs3 h3"
    using L(3) unfolding leaves_done_def by blast+
  note run = dedup_tree_phases [OF r, of env, unfolded L(1) rbind.simps case_prod_conv]
  have sp3: "spans h3 r" by (rule spans_same_tree [OF s3 L(2)])
  have k3: "h_next_node h3 \<le> ?k" using same_treeD(4) [OF s3] by simp
  from PropagateEquivalence_ok [OF ok3 li3 sp3 k3] show ?thesis
  proof (elim disjE exE conjE)
    fix cs4 h4 assume p: "PropagateEquivalence ?k env r cs3 h3 = Inr (cs4, h4)" "run env (h3, cs3) (h4, cs4)"
      "grows h3 h4" "listed cs4 h4" "all_evaluated h4"
    have s4: "same_tree h3 h4" by (rule growsD(2) [OF p(3)])
    have rd: "r \<in> dom (h_nodes h4)"
      using sp3 unfolding spans_def same_treeD(3) [OF s4] by blast
    have k4: "h_next_node h4 - r \<le> ?k" using same_treeD(4) [OF s3] same_treeD(4) [OF s4] by simp
    obtain ds h5 where u: "CalculateUniqueness ?k env r h4 = Inr (ds, h5)"
      "fractions_set h4 h5 (set (nodes_below h4 r))"
      using CalculateUniqueness_ok [OF growsD(1) [OF p(3)] p(5) rd same_core_refl k4] by blast
    have "dedup_tree env s = Inr (Some (r, SortEqClasses env h4 cs4, h5))"
      unfolding run p(1) rbind.simps case_prod_conv u(1) ..
    with L p(2-5) u(2) show ?thesis by blast
  next
    assume "is_overflow (PropagateEquivalence ?k env r cs3 h3)" "overflow_reached env (h3, cs3)"
    then show ?thesis unfolding run weights_overflow_def using is_overflow_rbind L(1,3) r by blast
  qed
qed

lemma dedup_tree_ok:
  assumes rep: "tree_rep P s A fs"
  shows "(\<exists>r cs h. dedup_tree env s = Inr (Some (r, cs, h)) \<and> tc_root s = Some r \<and> dedup_spec s cs h) \<or>
    is_overflow (dedup_tree env s) \<and> weights_overflow env s"
proof -
  obtain r where r: "tc_root s = Some r" using rep unfolding tree_rep_def by blast
  from dedup_tree_run [OF rep r] r dedup_specI [OF rep] show ?thesis by blast
qed

end

end
