(* ===== verification/Dedup_Properties.thy ===== *)
theory Dedup_Properties
  imports Dedup_Run
begin

text \<open>
  The properties of the tree of nodes and of duplicate detection, each with an instance on a
  concrete heap: \<open>small_heap\<close> is written out by hand, \<open>example_state\<close> is the result of scanning a
  small database.
\<close>

section \<open>A small heap\<close>

text \<open>Two directories 0 and 1 with one file each (2 and 3); the files are duplicates (class 0),
  directory 0 has the class 1, directory 1 has none yet.\<close>

definition small_node :: "string \<Rightarrow> NodeType \<Rightarrow> nid option \<Rightarrow> nid list \<Rightarrow> cid option \<Rightarrow> Node" where
  "small_node name type parent children c =
     \<lparr>nd_name = name, nd_type = type, nd_size = 3, nd_parent = parent, nd_children = children,
      nd_eq_class = c, nd_not_evaluated_children = 0, nd_unique_fraction = None\<rparr>"

definition small_heap :: heap where
  "small_heap =
     \<lparr>h_nodes = [0 \<mapsto> small_node ''a'' DIR None [2] (Some 1), 1 \<mapsto> small_node ''b'' DIR None [3] None,
        2 \<mapsto> small_node ''x'' FILE (Some 0) [] (Some 0), 3 \<mapsto> small_node ''y'' FILE (Some 1) [] (Some 0)],
      h_classes = [0 \<mapsto> \<lparr>ec_nodes = [2, 3], ec_weight = 1\<rparr>, 1 \<mapsto> \<lparr>ec_nodes = [0], ec_weight = 1\<rparr>],
      h_next_node = 4, h_next_class = 2\<rparr>"

lemma small_views:
  "children_of small_heap = (\<lambda>n. if n = 0 then [2] else if n = 1 then [3] else [])"
  "parent_of small_heap = (\<lambda>n. if n = 2 then Some 0 else if n = 3 then Some 1 else None)"
  "class_of small_heap = (\<lambda>n. if n = 0 then Some 1 else if n = 2 \<or> n = 3 then Some 0 else None)"
  "members small_heap = (\<lambda>c. if c = 0 then [2, 3] else if c = 1 then [0] else [])"
  "weight_of small_heap = (\<lambda>c. if c = 0 \<or> c = 1 then 1 else 0)"
  "pending small_heap = (\<lambda>_. 0)"
  by (auto simp: fun_eq_iff small_heap_def small_node_def children_of_def parent_of_def class_of_def
      members_def weight_of_def pending_def)

lemma small_dom: "n \<in> dom (h_nodes small_heap) \<longleftrightarrow> n = 0 \<or> n = 1 \<or> n = 2 \<or> n = 3"
  by (auto simp: small_heap_def)

lemma small_node_cases:
  "h_nodes small_heap n = Some nd \<Longrightarrow> nd_size nd = 3 \<and> (nd_type nd = FILE \<longrightarrow> nd_children nd = [])"
  by (auto simp: small_heap_def small_node_def split: if_splits)

lemma small_next: "h_next_node small_heap = 4" "h_next_class small_heap = 2"
  by (simp_all add: small_heap_def)

lemma small_classes: "c \<in> dom (h_classes small_heap) \<longleftrightarrow> c = 0 \<or> c = 1"
  by (auto simp: small_heap_def)

lemma small_heap_ok: "heap_ok small_heap"
proof -
  have "tree_ok small_heap"
  proof (rule tree_okI)
    show "n < h_next_node small_heap" if "n \<in> dom (h_nodes small_heap)" for n
      using that by (simp only: small_dom small_next) auto
    show "n < c \<and> c \<in> dom (h_nodes small_heap) \<and> parent_of small_heap c = Some n"
      if "c \<in> set (children_of small_heap n)" for n c
      using that by (simp only: small_dom small_views) (auto split: if_splits)
    show "n \<in> set (children_of small_heap p)" if "parent_of small_heap n = Some p" for n p
      using that by (auto simp: small_views split: if_splits)
    show "distinct (children_of small_heap n)" for n by (simp add: small_views)
  qed (auto dest: small_node_cases)
  moreover have "classes_ok small_heap"
    unfolding classes_ok_def small_views Ball_def small_classes small_next by auto
  moreover have "counters_ok small_heap"
    unfolding counters_ok_def small_views by auto
  ultimately show ?thesis by (simp add: heap_ok_def)
qed

section \<open>Nodes and classes\<close>

text \<open>C24: Adding a node that has no class, and whose children all have one, to a class fires no
  assertion, keeps the invariant of the tree (parent and child pointers agree, classes list
  exactly the nodes that point to them, the counters count the children without a class) and
  makes the weight of the class the rounded average of its members' weights.\<close>

theorem add_node_keeps_invariant:
  assumes "unordered_env env" and "heap_ok h" and "n \<in> dom (h_nodes h)" and "ready h n"
    and "class_of h n = None" and "c \<in> dom (h_classes h)"
  shows "\<exists>h'. AddNode env c n h = Inr h' \<and> heap_ok h' \<and> same_tree h h' \<and>
    class_of h' = (class_of h)(n := Some c) \<and>
    members h' = (members h)(c := members h c @ [n]) \<and>
    weight_of h' = (weight_of h)(c := joined_weight h c (node_weight env h n))"
  using unordered_env.AddNode_ok [OF assms] by blast

theorem add_node_keeps_invariant_witness:
  "\<exists>h'. AddNode (insertion_env test_conf) 1 1 small_heap = Inr h' \<and> heap_ok h' \<and> members h' 1 = [0, 1]"
proof -
  have "(1 :: nid) \<in> dom (h_nodes small_heap)" "(1 :: cid) \<in> dom (h_classes small_heap)"
    by (simp_all add: small_dom small_classes del: domIff)
  moreover have "ready small_heap 1" "class_of small_heap 1 = None" "members small_heap 1 = [0]"
    by (simp_all add: ready_def small_views)
  ultimately show ?thesis
    using add_node_keeps_invariant [OF insertion.unordered_env_axioms small_heap_ok, of 1 1 test_conf] by auto
qed

text \<open>\<open>Traverse\<close> calls its callback on every node of the subtree exactly once, children before
  parents and the node itself last, for any callback that leaves the tree as it is; it stops at
  the first failure.\<close>

lemma traverse_post_order:
  assumes "tree_ok h" and "n \<in> dom (h_nodes h)" and "h_next_node h - n \<le> k"
    and "same_tree h (fst st)"
    and "\<And>m st st'. same_tree h (fst st) \<Longrightarrow> callback m st = Inr st' \<Longrightarrow> same_tree h (fst st')"
  shows "\<exists>ns. Traverse k callback n st = foldR callback (ns @ [n]) st \<and> distinct (ns @ [n]) \<and>
    (\<forall>m. m \<in> set (ns @ [n]) \<longleftrightarrow> (n, m) \<in> (child_rel h)\<^sup>*)"
proof -
  let ?ns = "concat (map (nodes_below h) (children_of h n))"
  have "nodes_below h n = ?ns @ [n]" by (rule nodes_below_rec [OF assms(1,2)])
  then show ?thesis
    using Traverse_eq [OF assms] nodes_below_distinct [OF assms(1,2)] nodes_below_iff [OF assms(1,2)]
    by (intro exI [of _ ?ns]) simp
qed

lemma traverse_post_order_witness:
  "\<exists>ns. Traverse 4 (\<lambda>n st. Inr (fst st, snd st @ [n])) 1 (small_heap, []) =
    foldR (\<lambda>n st. Inr (fst st, snd st @ [n])) (ns @ [1]) (small_heap, [])"
proof -
  have "(1 :: nid) \<in> dom (h_nodes small_heap)" by (simp add: small_dom del: domIff)
  from traverse_post_order [OF heap_okD(1) [OF small_heap_ok] this, of 4 "(small_heap, [])"
      "\<lambda>n st. Inr (fst st, snd st @ [n])"]
  show ?thesis by (auto simp: small_next)
qed

text \<open>\<open>IsAncestorOf\<close> holds exactly for the nodes on the way from the root to the given node, that
  node included.\<close>

lemma is_ancestor_of_correct:
  assumes "tree_ok h" and "n \<in> dom (h_nodes h)" and "n < k"
  shows "IsAncestorOf k h a n = Inr (a \<in> set (lineage k h n)) \<and>
    (a \<in> set (lineage k h n) \<longleftrightarrow> (a, n) \<in> (child_rel h)\<^sup>*)"
  using IsAncestorOf_iff [OF assms] lineage_ancestors [OF assms] by simp

lemma is_ancestor_of_correct_witness: "IsAncestorOf 4 small_heap 0 2 = Inr (0 \<in> set (lineage 4 small_heap 2))"
  by (rule is_ancestor_of_correct [THEN conjunct1])
    (simp_all add: heap_okD [OF small_heap_ok] small_dom del: domIff)

text \<open>\<open>BuildPath\<close> yields the names from the root to the node, joined by the path operator.\<close>

lemma build_path_joins_names:
  assumes "tree_ok h" and "n \<in> dom (h_nodes h)" and "n < k"
  shows "BuildPath P k h n = Inr (join_path P (map (name_of h) (lineage k h n)))"
  by (rule BuildPath_eq [OF assms])

lemma build_path_joins_names_witness:
  "BuildPath list_paths 4 small_heap 2 = Inr (join_path list_paths (map (name_of small_heap) [0, 2]))"
proof -
  have "lineage 4 small_heap 2 = [0, 2]" by (simp add: numeral_eq_Suc small_views)
  then show ?thesis
    using build_path_joins_names [OF heap_okD(1) [OF small_heap_ok], of 2 4 list_paths]
    by (simp add: small_dom del: domIff)
qed

section \<open>The distance of two nodes\<close>

lemma small_comparable: "comparable small_heap 1 0"
  unfolding comparable_def small_dom ready_def not_both_files_def
  by (simp add: small_views) (simp add: small_heap_def small_node_def)

text \<open>C20: When the weights are whole and their sum stays below 2^53, the distance is the weight of the
  symmetric difference of the sets of classes of the children divided by the weight of their
  union, whatever the iteration order of the containers.\<close>

theorem distance_exact:
  assumes "unordered_env env" and "heap_ok h" and "comparable h n1 n2" and "whole_weights h"
    and "union_weight h n1 n2 \<le> 2 ^ 53"
  shows "NodeDistance env h n1 n2 =
    Inr (if union_weight h n1 n2 = 0 then 0
      else dbl (of_nat (sym_diff_weight h n1 n2) / of_nat (union_weight h n1 n2)))"
  by (rule unordered_env.NodeDistance_whole [OF assms])

lemma small_below: "classes_below small_heap 0 = {0}" "classes_below small_heap 1 = {0}"
  by (simp_all add: classes_below_def small_views)

lemma small_weights:
  "whole_weights small_heap" "union_weight small_heap 1 0 = 1" "sym_diff_weight small_heap 1 0 = 0"
  by (simp_all add: whole_weights_def union_weight_def sym_diff_weight_def whole_weight_def small_below
      small_views del: One_nat_def)

theorem distance_exact_witness: "NodeDistance (insertion_env test_conf) small_heap 1 0 = Inr 0"
  using distance_exact [OF insertion.unordered_env_axioms small_heap_ok small_comparable small_weights(1)]
  by (simp add: small_weights dbl_def del: One_nat_def)

text \<open>"0 for identical, 1 for no overlap": the distance is 0 when the children have the same
  classes, and 1 when they have no class in common, unless all weights are truncated to 0.\<close>

lemma distance_extremes:
  assumes "unordered_env env" and "heap_ok h" and "comparable h n1 n2"
    and "NodeDistance env h n1 n2 = Inr d"
  shows "(classes_below h n1 = classes_below h n2 \<longrightarrow> d = 0) \<and>
    (classes_below h n1 \<inter> classes_below h n2 = {} \<longrightarrow> d = 0 \<or> d = 1)"
  using unordered_env.NodeDistance_identical [OF assms] unordered_env.NodeDistance_disjoint [OF assms] by blast

lemma distance_extremes_witness: "\<exists>d. NodeDistance (insertion_env test_conf) small_heap 1 0 = Inr d \<and> d = 0"
proof -
  obtain d where d: "NodeDistance (insertion_env test_conf) small_heap 1 0 = Inr d"
    using insertion.NodeDistance_whole [OF small_heap_ok small_comparable small_weights(1)]
    by (auto simp: small_weights simp del: One_nat_def)
  with distance_extremes [OF insertion.unordered_env_axioms small_heap_ok small_comparable d]
  show ?thesis by (simp add: small_below del: One_nat_def)
qed

end
