(* ===== verification/Scan_Termination.thy ===== *)
theory Scan_Termination
  imports Directory_Scan "HOL-Library.Multiset"
begin

text \<open>
  The scan of a directory ends under every schedule, if no directory is below itself: the open work
  of a state is a multiset of items, and each step replaces one of them by smaller ones.
\<close>

section \<open>The open work\<close>

text \<open>A directory on the stack, an entry still to visit, the end of a directory, a task, the end of the
  mutex.\<close>

datatype 'p work = Open 'p | Visit 'p | Leave | Task | Destroy

text \<open>Opening a directory may leave entries, a visited entry may be opened.\<close>

inductive_set smaller :: "'p file_system \<Rightarrow> ('p work \<times> 'p work) set" for FS where
  entry: "fs_list FS r = Some es \<Longrightarrow> e \<in> set es \<Longrightarrow> (Visit e, Open r) \<in> smaller FS"
| leaving: "(Leave, Open r) \<in> smaller FS"
| subdir: "is_subdir FS e \<Longrightarrow> (Open e, Visit e) \<in> smaller FS"
| task: "(Task, Visit e) \<in> smaller FS"

inductive_cases smaller_cases:
  "(w, Leave) \<in> smaller FS" "(w, Task) \<in> smaller FS" "(w, Destroy) \<in> smaller FS" "(w, Open r) \<in> smaller FS" "(w, Visit e) \<in> smaller FS"

lemma wf_smaller:
  assumes "wf (below FS)"
  shows "wf (smaller FS)"
proof -
  have flat: "w \<in> Wellfounded.acc (smaller FS)" if "w = Leave \<or> w = Task \<or> w = Destroy" for w
    by (rule accI) (use that in \<open>auto elim: smaller_cases\<close>)
  have opened: "Open r \<in> Wellfounded.acc (smaller FS)" for r
    using assms
  proof (induction r rule: wf_induct_rule)
    case (less r)
    show ?case
    proof (rule accI)
      fix w assume "(w, Open r) \<in> smaller FS"
      then show "w \<in> Wellfounded.acc (smaller FS)"
      proof (cases rule: smaller.cases)
        case (entry es e)
        have "v \<in> Wellfounded.acc (smaller FS)" if "(v, Visit e) \<in> smaller FS" for v
          using that
        proof (cases rule: smaller.cases)
          case subdir
          then have "(e, r) \<in> below FS" using entry by (auto simp: below_def)
          with subdir less show ?thesis by blast
        qed (simp add: flat)
        then show ?thesis unfolding entry(1) by (rule accI)
      qed (simp add: flat)
    qed
  qed
  have "Visit e \<in> Wellfounded.acc (smaller FS)" for e
    by (rule accI) (auto elim!: smaller_cases simp: opened flat)
  then have "w \<in> Wellfounded.acc (smaller FS)" for w
    using opened flat by (cases w) blast+
  then show ?thesis by (auto intro: acc_wfI)
qed

definition open_work :: "('p, 'h, 's) scan_state \<Rightarrow> 'p work multiset" where
  "open_work st =
     image_mset (\<lambda>x. Open (fst x)) (mset (dirs_to_process st)) +
     (case current_dir st of None \<Rightarrow> {#} | Some (h, es) \<Rightarrow> add_mset Leave (image_mset Visit (mset es))) +
     image_mset (\<lambda>t. Task) (mset (submitted st)) + (if mutex_alive st then {#Destroy#} else {#})"

lemma mult_replace:
  assumes "\<And>w. w \<in># K \<Longrightarrow> (w, v) \<in> r"
  shows "(M + K, add_mset v M) \<in> mult r"
  using one_step_implies_mult [of "{#v#}" K r M] assms by auto

section \<open>Every step makes the work smaller\<close>

lemma scan_step_smaller:
  assumes "scan_step P FS processor st (Inr st')"
  shows "(open_work st', open_work st) \<in> mult (smaller FS)"
  using assms
proof (cases rule: scan_step.cases)
  case (pop entry rest)
  let ?M = "image_mset (\<lambda>x. Open (fst x)) (mset rest) + image_mset (\<lambda>t. Task) (mset (submitted st)) +
    (if mutex_alive st then {#Destroy#} else {#})"
  have before: "open_work st = add_mset (Open (fst entry)) ?M"
    using pop by (simp add: open_work_def)
  have opened: "open_directory P FS processor entry (st\<lparr>dirs_to_process := rest\<rparr>) = Inr st'"
    using pop(1) by simp
  have "\<exists>K. open_work st' = ?M + K \<and> (\<forall>w. w \<in># K \<longrightarrow> (w, Open (fst entry)) \<in> smaller FS)"
  proof (cases "fs_list FS (fst entry)")
    case None
    then have "open_work st' = ?M + {#}"
      using opened pop(2,3) by (auto simp: open_directory_def open_work_def)
    then show ?thesis by (intro exI [of _ "{#}"]) simp
  next
    case (Some es)
    then have "open_work st' = ?M + add_mset Leave (image_mset Visit (mset es))"
      using opened pop(2,3) by (auto simp: open_directory_def open_work_def res_simps split: sum.splits prod.splits option.splits)
    then show ?thesis
      using Some by (intro exI [of _ "add_mset Leave (image_mset Visit (mset es))"])
        (auto intro: smaller.intros)
  qed
  then obtain K where K: "open_work st' = ?M + K" "\<forall>w. w \<in># K \<longrightarrow> (w, Open (fst entry)) \<in> smaller FS" by (elim exE conjE)
  show ?thesis unfolding before K(1) by (rule mult_replace) (use K(2) in simp)
next
  case (visit handle it its)
  let ?M = "image_mset (\<lambda>x. Open (fst x)) (mset (dirs_to_process st)) +
    add_mset Leave (image_mset Visit (mset its)) + image_mset (\<lambda>t. Task) (mset (submitted st)) +
    (if mutex_alive st then {#Destroy#} else {#})"
  have before: "open_work st = add_mset (Visit it) ?M"
    using visit by (simp add: open_work_def)
  have "\<exists>K. open_work st' = ?M + K \<and> (\<forall>w. w \<in># K \<longrightarrow> (w, Visit it) \<in> smaller FS)"
    using visit
    by (intro exI [of _ "(if is_subdir FS it then {#Open it#} else {#}) + (if is_task FS it then {#Task#} else {#})"])
      (auto simp: open_work_def visit_entry_def is_subdir_def is_task_def Let_def
        intro: smaller.intros split: option.splits bool.splits)
  then obtain K where K: "open_work st' = ?M + K" "\<forall>w. w \<in># K \<longrightarrow> (w, Visit it) \<in> smaller FS" by (elim exE conjE)
  show ?thesis unfolding before K(1) by (rule mult_replace) (use K(2) in simp)
next
  case (leave handle)
  let ?M = "image_mset (\<lambda>x. Open (fst x)) (mset (dirs_to_process st)) + image_mset (\<lambda>t. Task) (mset (submitted st)) +
    (if mutex_alive st then {#Destroy#} else {#})"
  have before: "open_work st = add_mset Leave ?M" and after: "open_work st' = ?M + {#}"
    using leave by (simp_all add: open_work_def)
  show ?thesis unfolding before after by (rule mult_replace) simp
next
  case (work ts1 task ts2)
  let ?M = "image_mset (\<lambda>x. Open (fst x)) (mset (dirs_to_process st)) +
     (case current_dir st of None \<Rightarrow> {#} | Some (h, es) \<Rightarrow> add_mset Leave (image_mset Visit (mset es))) +
     image_mset (\<lambda>t. Task) (mset (ts1 @ ts2)) + (if mutex_alive st then {#Destroy#} else {#})"
  have "rbind (run_task P FS processor (can_lock FS st) task (proc_state st))
      (\<lambda>s. Inr (st\<lparr>submitted := ts1 @ ts2, proc_state := s\<rparr>)) = Inr st'"
    using work(1) by simp
  then have after: "open_work st' = ?M + {#}" by (auto simp: open_work_def res_simps)
  have before: "open_work st = add_mset Task ?M" using work(2) by (simp add: open_work_def)
  show ?thesis unfolding before after by (rule mult_replace) simp
next
  case destroy
  then have before: "open_work st = add_mset Destroy (open_work st')" and after: "open_work st' = open_work st' + {#}"
    by (simp_all add: open_work_def)
  show ?thesis unfolding before by (subst after) (rule mult_replace, simp)
qed

lemma wf_scan_step:
  assumes "wf (below FS)"
  shows "wf {(st', st). scan_step P FS processor st (Inr st')}"
proof (rule wf_subset)
  show "wf (inv_image (mult (smaller FS)) open_work)"
    by (rule wf_inv_image [OF wf_mult [OF wf_smaller [OF assms]]])
  show "{(st', st). scan_step P FS processor st (Inr st')} \<subseteq> inv_image (mult (smaller FS)) open_work"
    by (auto simp: scan_step_smaller)
qed

lemma scan_run_exists:
  assumes "wf (below FS)"
  shows "\<exists>r. scan_run P FS processor st r"
proof (induction st rule: wf_induct_rule [OF wf_scan_step [OF assms, of P processor]])
  case (1 st)
  show ?case
  proof (cases "scan_done st")
    case True
    then show ?thesis by (blast intro: scan_run.finished)
  next
    case False
    from not_done_step [OF this] obtain q where q: "scan_step P FS processor st q" by blast
    show ?thesis
    proof (cases q)
      case (Inl e)
      then show ?thesis using q scan_run.failed by blast
    next
      case (Inr st')
      then obtain r where "scan_run P FS processor st' r" using 1 q by blast
      then show ?thesis using scan_run.stepped q Inr by blast
    qed
  qed
qed

end
