(* ===== verification/Run_Properties.thy ===== *)
theory Run_Properties
  imports Dedup_Properties Scan_Termination
begin

text \<open>
  The properties of the phases of duplicate detection, from the scan of a database and the
  classification of one node to the interesting classes, each with an instance: on the heap written out by hand, or on the tree
  built from a small database.
\<close>

lemma small_ready: "ready small_heap n"
  by (simp add: ready_def small_views)

section \<open>A small database\<close>

text \<open>Two directories, the second one with the two files of the first one and one more.\<close>

definition example_db :: "(string \<times> FileInfo) list" where
  "example_db =
     [(''/d/a/x'', \<lparr>fi_size = 10, fi_mtime = 1, fi_sum = 1\<rparr>),
      (''/d/a/y'', \<lparr>fi_size = 20, fi_mtime = 1, fi_sum = 2\<rparr>),
      (''/d/b/x'', \<lparr>fi_size = 10, fi_mtime = 1, fi_sum = 1\<rparr>),
      (''/d/b/y'', \<lparr>fi_size = 20, fi_mtime = 1, fi_sum = 2\<rparr>),
      (''/d/b/z'', \<lparr>fi_size = 5, fi_mtime = 1, fi_sum = 3\<rparr>)]"

definition example_state :: tree_ctor where
  "example_state =
     (case ScanDb list_paths (TreeCtorProcessor list_paths) example_db empty_tree_ctor of
        Inr s \<Rightarrow> s | Inl e \<Rightarrow> empty_tree_ctor)"

lemma example_prefix: "p_native list_paths (db_prefix list_paths example_db) = ''/d''"
  by code_simp

lemma example_entries: "\<forall>e \<in> set example_db. entry_ok list_paths e"
  by code_simp

lemma example_scan:
  "ScanDb list_paths (TreeCtorProcessor list_paths) example_db empty_tree_ctor = Inr example_state"
  "\<exists>A. tree_rep list_paths example_state A
    (map (relative_entry list_paths (db_prefix list_paths example_db)) example_db)"
proof -
  have ne: "example_db \<noteq> []" by (simp add: example_db_def)
  have root: "p_native list_paths (db_prefix list_paths example_db) \<noteq> []" by (simp add: example_prefix)
  from list_path.tree_ctor.ScanDb_ok [OF refl ne example_entries root] obtain s A where
    s: "ScanDb list_paths (TreeCtorProcessor list_paths) example_db empty_tree_ctor = Inr s"
      "tree_rep list_paths s A (map (relative_entry list_paths (db_prefix list_paths example_db)) example_db)"
    unfolding tree_with_dirs_def by blast
  then have "s = example_state" by (simp add: example_state_def)
  with s show
    "ScanDb list_paths (TreeCtorProcessor list_paths) example_db empty_tree_ctor = Inr example_state"
    "\<exists>A. tree_rep list_paths example_state A
      (map (relative_entry list_paths (db_prefix list_paths example_db)) example_db)" by blast+
qed

lemma example_rep:
  obtains A where "tree_rep list_paths example_state A
    (map (relative_entry list_paths (db_prefix list_paths example_db)) example_db)"
  using example_scan(2) by blast

lemma example_ok: "heap_ok (tc_heap example_state)"
  using example_scan(2) unfolding tree_rep_def by blast

section \<open>Propagation\<close>

text \<open>C25: The classification of one node is a step of the abstract work list: the node joins the class
  of a closest candidate if their distance is below the tolerance, and gets a class of its own if
  no candidate is that close, in particular if there is none. The only other outcome is the conversion
  of a sum of weights that is too large for \<open>uint64_t\<close>, and only if the distance from some candidate
  has such a sum. The distance has to be less than the tolerance: at a distance of exactly the tolerated
  percentage the node gets a class of its own, although the help text of the option and the README say
  "this percent or less".\<close>

theorem classification_refines_step:
  assumes "unordered_env env" and "heap_ok h" and "n \<in> dom (h_nodes h)" and "class_of h n = None"
    and "ready h n"
  shows "(\<exists>cs' h'. classify_node env n cs h = Inr (cs', h') \<and> prop_step env n (h, cs) (h', cs')) \<or>
    (is_overflow (classify_node env n cs h) \<and> (\<exists>p \<in> possible_equivalents h n. is_overflow (NodeDistance env h n p)))"
proof -
  have "n \<in> unevaluated h" using assms(3,4) by (simp add: unevaluated_def)
  then show ?thesis using unordered_env.classify_node_ok [OF assms(1,2) _ assms(5)] by blast
qed

lemma small_distance: "NodeDistance (insertion_env test_conf) small_heap 1 0 = Inr 0"
  using insertion.NodeDistance_whole [OF small_heap_ok small_comparable small_weights(1)]
  by (simp add: small_weights dbl_def del: One_nat_def)

lemma small_candidates: "possible_equivalents small_heap 1 = {0}"
  by (auto simp: possible_equivalents_def small_views classes_below_def split: if_splits)

text \<open>Directory 1 joins the class of directory 0, which has the same files.\<close>

theorem classification_refines_step_witness:
  "\<exists>cs' h'. classify_node (insertion_env test_conf) 1 [0, 1] small_heap = Inr (cs', h') \<and>
    prop_step (insertion_env test_conf) 1 (small_heap, [0, 1]) (h', cs') \<and> cs' = [0, 1] \<and>
    class_of h' 1 = class_of small_heap 0"
proof -
  let ?env = "insertion_env test_conf"
  have n: "(1 :: nid) \<in> dom (h_nodes small_heap)" "class_of small_heap 1 = None"
    by (simp_all add: small_dom small_views del: domIff)
  from classification_refines_step [OF insertion.unordered_env_axioms small_heap_ok n small_ready, of test_conf "[0, 1]"]
  obtain cs' h' where s: "classify_node ?env 1 [0, 1] small_heap = Inr (cs', h')"
    "prop_step ?env 1 (small_heap, [0, 1]) (h', cs')"
    by (auto simp: small_candidates small_distance is_overflow_def simp del: One_nat_def)
  from s(2) have "cs' = [0, 1] \<and> class_of h' 1 = class_of small_heap 0"
  proof (cases rule: prop_step.cases)
    case (join p d c)
    then have c: "c = 1" "class_of small_heap 0 = Some 1"
      by (auto simp: closest_def small_candidates small_views simp del: One_nat_def)
    have "(1 :: cid) \<in> dom (h_classes small_heap)" by (simp add: small_classes del: domIff)
    from insertion.AddNode_ok [OF small_heap_ok n(1) small_ready n(2) this, of test_conf] join c show ?thesis by (auto simp del: One_nat_def)
  next
    case (fresh c h1)
    then have "tolerance (insertion_env test_conf) \<le> 0" by (simp add: small_candidates small_distance del: One_nat_def)
    moreover have "0 < tolerance (insertion_env test_conf)" by code_simp
    ultimately show ?thesis by simp
  qed
  with s show ?thesis by blast
qed

section \<open>Uniqueness and the interesting classes\<close>

text \<open>C26: After propagation, \<open>CalculateUniqueness\<close> terminates without assertion, returns the files of
  the subtree each once, and changes only the fractions: each node of the subtree has a fraction in
  [0, 1]; for a file it is 1 iff its class has no other member, for a directory it is the ratio of
  the weight of the files with no duplicate outside the directory, 0 if every file has one.\<close>

theorem uniqueness_fraction:
  assumes "unordered_env env" and "heap_ok h" and "all_evaluated h" and "n \<in> dom (h_nodes h)"
    and "h_next_node h - n \<le> k"
  shows "\<exists>ds h'. CalculateUniqueness k env n h = Inr (ds, h') \<and> distinct ds \<and> set ds = files_below h n \<and>
    same_core h h' \<and>
    (\<forall>m \<in> set (nodes_below h n). \<exists>f. frac_of h' m = Some f \<and> 0 \<le> f \<and> f \<le> 1 \<and> fraction_spec h m f \<and>
      ((\<forall>d \<in> files_below h m. \<not> unique_among h (files_below h m) d) \<longrightarrow> is_file h m \<or> f = 0)) \<and>
    (\<forall>m. m \<notin> set (nodes_below h n) \<longrightarrow> frac_of h' m = frac_of h m)"
proof -
  from unordered_env.CalculateUniqueness_ok [OF assms(1-4) same_core_refl assms(5)] obtain ds h' where
    r: "CalculateUniqueness k env n h = Inr (ds, h')" "distinct ds" "set ds = files_below h n"
      "fractions_set h h' (set (nodes_below h n))" by blast
  have "0 \<le> f \<and> f \<le> 1 \<and>
      ((\<forall>d \<in> files_below h m. \<not> unique_among h (files_below h m) d) \<longrightarrow> is_file h m \<or> f = 0)"
    if f: "fraction_spec h m f" for m f
    using f dir_fraction_range [OF heap_okD(2) [OF assms(2)]] dir_fraction_duplicated [of _ h]
    unfolding fraction_spec_def by (auto split: if_splits)
  with r show ?thesis unfolding fractions_set_def by (intro exI [of _ ds] exI [of _ h']) blast
qed

text \<open>The heap after directory 1 joins the class of directory 0.\<close>

lemma full_heap:
  obtains h where "AddNode (insertion_env test_conf) 1 1 small_heap = Inr h" "heap_ok h"
    "same_tree small_heap h" "all_evaluated h" "members h 0 = [2, 3]" "members h 1 = [0, 1]"
    "class_of h 0 = Some 1" "class_of h 1 = Some 1"
proof -
  have d: "(1 :: nid) \<in> dom (h_nodes small_heap)" "(1 :: cid) \<in> dom (h_classes small_heap)"
    by (simp_all add: small_dom small_classes del: domIff)
  have c: "class_of small_heap 1 = None" by (simp add: small_views)
  from insertion.AddNode_ok [OF small_heap_ok d(1) small_ready c d(2), of test_conf] obtain h where
    h: "AddNode (insertion_env test_conf) 1 1 small_heap = Inr h" "heap_ok h" "same_tree small_heap h"
      "class_of h = (class_of small_heap)(1 := Some 1)"
      "members h = (members small_heap)(1 := members small_heap 1 @ [1])" by blast
  have "all_evaluated h"
    unfolding all_evaluated_def same_treeD(3) [OF h(3)] Ball_def small_dom h(4) by (auto simp: small_views)
  with that h show ?thesis by (simp add: small_views)
qed

theorem uniqueness_fraction_witness:
  "\<exists>h ds h'. AddNode (insertion_env test_conf) 1 1 small_heap = Inr h \<and>
    CalculateUniqueness 4 (insertion_env test_conf) 0 h = Inr (ds, h') \<and> same_core h h' \<and>
    frac_of h' 0 \<noteq> None"
proof (rule full_heap)
  fix h assume h: "AddNode (insertion_env test_conf) 1 1 small_heap = Inr h" "heap_ok h"
    "same_tree small_heap h" "all_evaluated h"
  have d: "0 \<in> dom (h_nodes h)" unfolding same_treeD(3) [OF h(3)] small_dom by simp
  moreover have "h_next_node h - 0 \<le> 4" using same_treeD(4) [OF h(3)] by (simp add: small_next)
  ultimately obtain ds h' where u: "CalculateUniqueness 4 (insertion_env test_conf) 0 h = Inr (ds, h')"
    "same_core h h'" "\<forall>m \<in> set (nodes_below h 0). \<exists>f. frac_of h' m = Some f \<and> 0 \<le> f \<and> f \<le> 1 \<and>
      fraction_spec h m f \<and>
      ((\<forall>d \<in> files_below h m. \<not> unique_among h (files_below h m) d) \<longrightarrow> is_file h m \<or> f = 0)"
    using uniqueness_fraction [OF insertion.unordered_env_axioms h(2,4)] by blast
  moreover have "0 \<in> set (nodes_below h 0)"
    using nodes_below_rec [OF heap_okD(1) [OF h(2)] d] by simp
  ultimately show ?thesis using h(1) by (intro exI [of _ h] exI [of _ ds] exI [of _ h']) auto
qed

text \<open>C27: \<open>GetInteresingEqClasses\<close> selects, in order, the classes with duplicates that are not
  explained by their parents: some member has no parent, or a parent without duplicates.\<close>

theorem interesting_classes_exact:
  assumes "heap_ok h" and "all_evaluated h" and "\<forall>c \<in> set cs. members h c \<noteq> []"
  shows "GetInteresingEqClasses h cs = Inr (filter (\<lambda>c. length (members h c) \<noteq> 1 \<and>
    (\<exists>n \<in> set (members h c). parent_of h n = None \<or>
      (\<exists>p k. parent_of h n = Some p \<and> class_of h p = Some k \<and> length (members h k) = 1))) cs)"
proof -
  have "unexplained h n \<longleftrightarrow> parent_of h n = None \<or>
      (\<exists>p k. parent_of h n = Some p \<and> class_of h p = Some k \<and> length (members h k) = 1)" for n
  proof (cases "parent_of h n")
    case (Some p)
    then have "p \<in> dom (h_nodes h)"
      using children_of_dom [OF tree_okD(5) [OF heap_okD(1) [OF assms(1)] Some]] by blast
    with assms(2) have "class_of h p \<noteq> None" unfolding all_evaluated_def by blast
    with Some show ?thesis by (auto simp: unexplained_def single_def)
  qed (simp add: unexplained_def)
  then show ?thesis
    unfolding GetInteresingEqClasses_eq [OF assms] interesting_def single_def by simp
qed

theorem interesting_classes_exact_witness:
  "\<exists>h. AddNode (insertion_env test_conf) 1 1 small_heap = Inr h \<and> GetInteresingEqClasses h [0, 1] = Inr [1]"
proof (rule full_heap)
  fix h assume h: "AddNode (insertion_env test_conf) 1 1 small_heap = Inr h" "heap_ok h"
    "same_tree small_heap h" "all_evaluated h" "members h 0 = [2, 3]" "members h 1 = [0, 1]"
    "class_of h 0 = Some 1" "class_of h 1 = Some 1"
  have "parent_of h = parent_of small_heap" using same_treeD(2) [OF h(3)] .
  with h interesting_classes_exact [OF h(2,4), of "[0, 1]"] show ?thesis
    by (intro exI [of _ h]) (simp add: small_views)
qed

section \<open>The whole run\<close>

context path_laws
begin

lemma tree_ScanDb:
  assumes "db \<noteq> []" and "\<forall>e \<in> set db. entry_ok P e" and "p_native P (db_prefix P db) \<noteq> []"
  shows "\<exists>s A ds. ScanDb P (TreeCtorProcessor P) db empty_tree_ctor = Inr s \<and>
    tree_with_dirs P s A ds (map (relative_entry P (db_prefix P db)) db) \<and> distinct ds \<and> set ds = db_dirs P db"
  by (rule tree_ctor.ScanDb_ok [OF refl assms])

lemma tree_ScanDirectory:
  assumes "p_native P r \<noteq> []" and "file_system_ok P FS" and "wf (below FS)" and "fs_late_lock FS" and "0 < n"
    and "out \<in> ScanDirectory P FS (TreeCtorProcessor P) n r empty_tree_ctor"
  shows "(fs_list FS r = None \<and> out = Inr empty_tree_ctor) \<or>
    (\<exists>s A ds fs. out = Inr s \<and> tree_with_dirs P s A ds fs \<and>
      mset (map FoundDir ds @ map FoundFile fs) = mset (all_found P FS r []))"
  by (rule tree_ctor.ScanDirectory_ok [OF refl assms])

end


lemma example_db_ok: "example_db \<noteq> []" "p_native list_paths (db_prefix list_paths example_db) \<noteq> []"
  by (simp_all add: example_db_def [symmetric] example_prefix) (simp add: example_db_def)


lemma unordered_env_conf: "unordered_env env \<Longrightarrow> unordered_env (env\<lparr>env_conf := conf\<rparr>)"
  by (simp add: unordered_env_def)

text \<open>What a result means for the files of the scan: two of them share a class iff they have the
  same checksum.\<close>

definition files_by_cksum :: "tree_ctor \<Rightarrow> heap \<Rightarrow> bool" where
  "files_by_cksum s h \<longleftrightarrow>
     (\<forall>e \<in> set (tc_sum2node s). \<forall>e' \<in> set (tc_sum2node s).
        class_of h (snd e) = class_of h (snd e') \<longleftrightarrow> fst e = fst e')"

lemma dedup_files_by_cksum:
  assumes "tree_rep P s A fs" and "dedup_spec s cs h"
  shows "files_by_cksum s h"
  unfolding files_by_cksum_def
proof (intro ballI)
  fix e e' assume e: "e \<in> set (tc_sum2node s)" "e' \<in> set (tc_sum2node s)"
  have same: "same_tree (tc_heap s) h" and tree: "tree_ok h"
    using assms(2) heap_okD(1) unfolding dedup_spec_def by blast+
  have f: "is_file h (snd x)" if "x \<in> set (tc_sum2node s)" for x
    using that tree_rep_files [OF assms(1)] is_file_same [OF same] by blast
  have l: "leaf h (snd e)" "snd e' \<in> dom (h_nodes h)"
    using file_leaf [OF tree f] e unfolding leaf_def by blast+
  have d: "distinct (map snd (tc_sum2node s))" using assms(1) unfolding tree_rep_def by blast
  have key: "ck = fst x" if "(ck, snd x) \<in> set (tc_sum2node s)" "x \<in> set (tc_sum2node s)" for ck x
    using that d by (metis distinct_map inj_on_eq_iff fst_conv snd_conv)
  have "same_leaf s h (snd e) (snd e') \<longleftrightarrow> fst e = fst e'"
    unfolding same_leaf_def using e key f [OF e(1)] file_not_empty_dir by (metis prod.collapse)
  then show "class_of h (snd e) = class_of h (snd e') \<longleftrightarrow> fst e = fst e'"
    using assms(2) l unfolding dedup_spec_def by blast
qed

text \<open>The outcome of the run on a scanned tree.\<close>

definition dedup_outcome ::
  "'p path_api \<Rightarrow> ('p list \<times> FileInfo) list \<Rightarrow> (nid \<times> cid list \<times> heap) option res \<Rightarrow> bool" where
  "dedup_outcome P fs out \<longleftrightarrow>
     (\<exists>s A r cs h. tree_rep P s A fs \<and> tc_root s = Some r \<and> out = Inr (Some (r, cs, h)) \<and>
        dedup_spec s cs h \<and> files_by_cksum s h)"

text \<open>The same with the directories of the tree, and the failure of a run on such a tree.\<close>

definition scanned_outcome ::
  "'p path_api \<Rightarrow> 'p list list \<Rightarrow> ('p list \<times> FileInfo) list \<Rightarrow> (nid \<times> cid list \<times> heap) option res \<Rightarrow> bool" where
  "scanned_outcome P ds fs out \<longleftrightarrow>
     (\<exists>s A r cs h. tree_with_dirs P s A ds fs \<and> tc_root s = Some r \<and> out = Inr (Some (r, cs, h)) \<and>
        dedup_spec s cs h \<and> files_by_cksum s h)"

definition scanned_overflow ::
  "'p path_api \<Rightarrow> dedup_env \<Rightarrow> 'p list list \<Rightarrow> ('p list \<times> FileInfo) list \<Rightarrow>
   (nid \<times> cid list \<times> heap) option res \<Rightarrow> bool" where
  "scanned_overflow P env ds fs out \<longleftrightarrow>
     is_overflow out \<and> (\<exists>s A. tree_with_dirs P s A ds fs \<and> out = dedup_tree env s \<and> weights_overflow env s)"

lemma scanned_outcome_dedup: "scanned_outcome P ds fs out \<Longrightarrow> dedup_outcome P fs out"
  unfolding scanned_outcome_def dedup_outcome_def tree_with_dirs_def by blast

text \<open>What a result is: a tree below its root, all of it classified, with the classes listed.\<close>

lemma dedup_outcome_tree:
  assumes "dedup_outcome P fs (Inr (Some (r, cs, h)))"
  shows "heap_ok h \<and> spans h r \<and> all_evaluated h \<and> listed cs h \<and> (\<forall>n \<in> dom (h_nodes h). frac_of h n \<noteq> None)"
proof -
  obtain s Q where s: "tree_rep P s Q fs" "tc_root s = Some r" "dedup_spec s cs h"
    using assms unfolding dedup_outcome_def by blast
  then have h: "heap_ok h" "same_tree (tc_heap s) h" "all_evaluated h" "listed cs h"
    "\<forall>n \<in> dom (h_nodes h). \<exists>f. frac_of h n = Some f \<and> fraction_spec h n f"
    unfolding dedup_spec_def by blast+
  have "one_tree (tc_heap s) r" "tree_ok (tc_heap s)"
    using s(1,2) heap_okD(1) unfolding tree_rep_def by (metis option.inject)+
  then have "spans h r" using spans_same_tree [OF h(2) one_tree_spans] by blast
  moreover have "\<forall>n \<in> dom (h_nodes h). frac_of h n \<noteq> None" using h(5) by (metis option.distinct(1))
  ultimately show ?thesis using h(1,3,4) by blast
qed

lemma dedup_tree_outcome:
  assumes "unordered_env env" and "tree_with_dirs P s A ds fs"
  shows "scanned_outcome P ds fs (dedup_tree env s) \<or> scanned_overflow P env ds fs (dedup_tree env s)"
proof -
  have rep: "tree_rep P s A fs" using assms(2) by (simp add: tree_with_dirs_def)
  show ?thesis
    using unordered_env.dedup_tree_ok [OF assms(1) rep] dedup_files_by_cksum [OF rep] assms(2)
    unfolding scanned_outcome_def scanned_overflow_def by blast
qed

text \<open>\<open>FuzzyDedup\<close> on a directory, whatever the schedule of the scan: the directories and files of the
  result are exactly what the recursive walk finds.\<close>

lemma FuzzyDedup_directory:
  assumes "unordered_env env" and "path_laws (w_paths W)" and "\<not> has_db_prefix W dir"
    and "p_native (w_paths W) (p_of (w_paths W) dir) \<noteq> []" and "scannable W"
    and "out \<in> FuzzyDedup W env dir"
  shows "(fs_list (w_files W) (p_of (w_paths W) dir) = None \<and> out = Inr None) \<or>
    (\<exists>ds fs. mset (map FoundDir ds @ map FoundFile fs) =
        mset (all_found (w_paths W) (w_files W) (p_of (w_paths W) dir) []) \<and>
      (scanned_outcome (w_paths W) ds fs out \<or>
        scanned_overflow (w_paths W) (env\<lparr>env_conf := w_conf W\<rparr>) ds fs out))"
proof -
  let ?P = "w_paths W" and ?env = "env\<lparr>env_conf := w_conf W\<rparr>"
  obtain t where t: "t \<in> ScanDirectory ?P (w_files W) (TreeCtorProcessor ?P) (conf_concurrency (w_conf W))
      (p_of ?P dir) empty_tree_ctor"
    "out = rbind t (dedup_tree ?env)"
    using assms(3,6) by (auto simp: FuzzyDedup_def ScanDirectory_tree_def scan_path_cases)
  note ok = assms(5) [unfolded scannable_def]
  from path_laws.tree_ScanDirectory [OF assms(2,4) _ _ _ _ t(1)] ok
  have "(fs_list (w_files W) (p_of ?P dir) = None \<and> t = Inr empty_tree_ctor) \<or>
    (\<exists>s A ds fs. t = Inr s \<and> tree_with_dirs ?P s A ds fs \<and>
      mset (map FoundDir ds @ map FoundFile fs) = mset (all_found ?P (w_files W) (p_of ?P dir) []))" by blast
  then show ?thesis
  proof (elim disjE exE conjE)
    assume "fs_list (w_files W) (p_of ?P dir) = None" "t = Inr empty_tree_ctor"
    with t(2) show ?thesis by (simp add: dedup_tree_def empty_tree_ctor_def)
  next
    fix s A ds fs assume s: "t = Inr s" "tree_with_dirs ?P s A ds fs"
      "mset (map FoundDir ds @ map FoundFile fs) = mset (all_found ?P (w_files W) (p_of ?P dir) [])"
    from dedup_tree_outcome [OF unordered_env_conf [OF assms(1)] s(2), of "w_conf W"]
    show ?thesis using t(2) s(1,3) by auto
  qed
qed

section \<open>A small world\<close>

text \<open>The database above, and a directory with a file, a subdirectory, an empty file and a link.\<close>

definition example_files :: "string list file_system" where
  "example_files =
     \<lparr>fs_list = [[''/'', ''d''] \<mapsto> [[''/'', ''d'', ''a''], [''/'', ''d'', ''s''], [''/'', ''d'', ''l'']],
        [''/'', ''d'', ''s''] \<mapsto> [[''/'', ''d'', ''s'', ''b''], [''/'', ''d'', ''s'', ''e'']]],
      fs_is_symlink = \<lambda>p. Some (p = [''/'', ''d'', ''l'']),
      fs_is_directory = \<lambda>p. Some (p = [''/'', ''d''] \<or> p = [''/'', ''d'', ''s'']),
      fs_is_regular = \<lambda>p. Some (last p \<in> {''a'', ''b'', ''e''}),
      fs_info = \<lambda>p. Some \<lparr>fi_size = 7, fi_mtime = 1, fi_sum = (if last p = ''e'' then 0 else 9)\<rparr>,
      fs_late_lock = True\<rparr>"

definition example_world :: "string list world" where
  "example_world =
     \<lparr>w_paths = list_paths, w_conf = test_conf, w_db_rows = \<lambda>_. Inr (StoreCksums example_db),
      w_map_order = \<lambda>db. db, w_files = example_files\<rparr>"

lemma example_world_simps [simp]:
  "w_paths example_world = list_paths" "w_conf example_world = test_conf"
  "w_db_rows example_world = (\<lambda>_. Inr (StoreCksums example_db))" "w_map_order example_world = (\<lambda>db. db)"
  "w_files example_world = example_files"
  by (simp_all add: example_world_def)

lemma example_read: "ReadCacheFromDb (w_db_rows example_world) p = Inr example_db"
  by (rule ReadCacheFromDb_StoreCksums) (simp_all add: example_db_def)

lemma list_path_name:
  assumes "elements p \<noteq> []"
  shows "path_name list_paths d (p_filename list_paths p)"
proof -
  have "p_filename list_paths p = [last (elements p)]" using assms by (simp add: list_paths_def)
  moreover have "last (elements p) \<noteq> []" using last_in_set [OF assms] by (simp add: elements_def)
  ultimately show ?thesis
    unfolding path_name_def
    by (intro exI [of _ "[''x'', last (elements p)]"] exI [of _ "[[''x'']]"] exI [of _ "[]"])
      (simp add: list_paths_def elements_def)
qed

lemma example_files_ok: "file_system_ok list_paths example_files"
proof -
  have "elements e \<noteq> []" if "fs_list example_files r = Some es" "e \<in> set es" for r es e
    using that by (auto simp: example_files_def elements_def split: if_splits)
  then show ?thesis
    unfolding file_system_ok_def using list_path_name by (auto simp: example_files_def)
qed

lemma example_prefixes: "has_db_prefix example_world ''db:/x''" "\<not> has_db_prefix example_world ''/d''"
  by (simp_all add: has_db_prefix_def test_conf_def po_notify_def only_dirs_def)

lemma example_d: "p_of list_paths ''/d'' = [''/'', ''d'']"
  by code_simp

lemma wf_example: "wf (below example_files)"
proof (rule wf_subset [OF wf_measure])
  show "below example_files \<subseteq> measure (\<lambda>p. 9 - length p)"
    by (auto simp: below_def is_subdir_def example_files_def split: if_splits)
qed

end
