(* ===== verification/Cache_Threads.thy ===== *)
theory Cache_Threads
  imports Hash_Cache Boost_Paths
begin

text \<open>
  Concurrent lookups in the checksum cache (\<open>HashCache::operator()\<close> in src/src/hash_cache.cpp). The
  workers of a scan call it at the same time; the mutexes protect single accesses to the two maps, not
  a whole lookup. So a lookup is a sequence of atomic sections, and lookups interleave.
\<close>

section \<open>The sections of a lookup\<close>

text \<open>Where a lookup is: before everything; after it missed the cache by path; after it also missed the
  cache by inode; with a checksum that is not stored yet; at its end.\<close>

datatype 'p lookup =
    Start 'p
  | Missed 'p int StatResult
  | Unknown 'p int StatResult
  | Computed 'p StatResult Cksum
  | Answer 'p "FileInfo res"

fun lookup_section :: "'p path_api \<Rightarrow> os_api \<Rightarrow> 'p lookup \<Rightarrow> HashCache \<Rightarrow> 'p lookup \<times> HashCache" where
  "lookup_section P os (Start p) hc =
     (let native = p_native P p in
      case os_open os native of
        Inl err \<Rightarrow> (Answer p (Inl (FsException os err (''open '' @ quoted native))), hc)
      | Inr fd \<Rightarrow>
          (case GetInodeInfo os fd native of
             Inl e \<Rightarrow> (Answer p (Inl e), hc)
           | Inr stat_res \<Rightarrow>
               (case hc_cache hc native of
                  Some cached \<Rightarrow>
                    if fi_size cached = st_size stat_res \<and> fi_mtime cached = st_mtime stat_res
                    then (Answer p (Inr cached), hc) else (Missed p fd stat_res, hc)
                | None \<Rightarrow> (Missed p fd stat_res, hc))))"
| "lookup_section P os (Missed p fd stat_res) hc =
     (let cached = InodeCache_Get (st_id stat_res) (hc_ino_cache hc) in
      if fst cached then (Computed p stat_res (snd cached), hc) else (Unknown p fd stat_res, hc))"
| "lookup_section P os (Unknown p fd stat_res) hc =
     (case read_loop os (p_native P p) (os_read os fd) [] 0 of
        Inl e \<Rightarrow> (Answer p (Inl e), hc)
      | Inr (sha, size') \<Rightarrow>
          let cksum = (if size' \<noteq> 0 then os_sha1 os sha else 0) in
          (Computed p stat_res cksum,
           hc\<lparr>hc_ino_cache := InodeCache_Update (st_id stat_res) cksum (hc_ino_cache hc)\<rparr>))"
| "lookup_section P os (Computed p stat_res cksum) hc =
     (let r = \<lparr>fi_size = st_size stat_res, fi_mtime = st_mtime stat_res, fi_sum = cksum\<rparr> in
      (Answer p (Inr r), hc\<lparr>hc_cache := (hc_cache hc)(p_native P p \<mapsto> r)\<rparr>))"
| "lookup_section P os (Answer p r) hc = (Answer p r, hc)"

fun path_of_lookup :: "'p lookup \<Rightarrow> 'p" where
  "path_of_lookup (Start p) = p"
| "path_of_lookup (Missed p fd st) = p"
| "path_of_lookup (Unknown p fd st) = p"
| "path_of_lookup (Computed p st c) = p"
| "path_of_lookup (Answer p r) = p"

fun sections_left :: "'p lookup \<Rightarrow> nat" where
  "sections_left (Start p) = 4"
| "sections_left (Missed p fd st) = 3"
| "sections_left (Unknown p fd st) = 2"
| "sections_left (Computed p st c) = 1"
| "sections_left (Answer p r) = 0"

text \<open>One section of one of the lookups.\<close>

inductive cache_step ::
  "'p path_api \<Rightarrow> os_api \<Rightarrow> 'p lookup list \<times> HashCache \<Rightarrow> 'p lookup list \<times> HashCache \<Rightarrow> bool"
  for P os where
  turn: "i < length ls \<Longrightarrow> sections_left (ls ! i) \<noteq> 0 \<Longrightarrow> lookup_section P os (ls ! i) hc = (l', hc') \<Longrightarrow>
    cache_step P os (ls, hc) (ls[i := l'], hc')"

inductive_cases cache_stepE: "cache_step P os (ls, hc) st'"

text \<open>A lookup on its own is \<open>HashCache_get\<close>.\<close>

fun run_lookup :: "nat \<Rightarrow> 'p path_api \<Rightarrow> os_api \<Rightarrow> 'p lookup \<times> HashCache \<Rightarrow> 'p lookup \<times> HashCache" where
  "run_lookup 0 P os st = st"
| "run_lookup (Suc k) P os st = run_lookup k P os (lookup_section P os (fst st) (snd st))"

lemma run_lookup_get:
  "case HashCache_get P os p hc of
     Inl e \<Rightarrow> fst (run_lookup 4 P os (Start p, hc)) = Answer p (Inl e)
   | Inr (r, hc') \<Rightarrow> run_lookup 4 P os (Start p, hc) = (Answer p (Inr r), hc')"
  by (auto simp: numeral_eq_Suc HashCache_get_def ComputeCksum_def InodeCache_Get_def Let_def
      split: sum.split option.split)

section \<open>Every interleaving is right\<close>

text \<open>What holds of a lookup at each place.\<close>

fun lookup_ok :: "'p path_api \<Rightarrow> os_api \<Rightarrow> 'p lookup \<Rightarrow> bool" where
  "lookup_ok P os (Start p) \<longleftrightarrow> True"
| "lookup_ok P os (Missed p fd st) \<longleftrightarrow>
     os_open os (p_native P p) = Inr fd \<and> GetInodeInfo os fd (p_native P p) = Inr st"
| "lookup_ok P os (Unknown p fd st) \<longleftrightarrow>
     os_open os (p_native P p) = Inr fd \<and> GetInodeInfo os fd (p_native P p) = Inr st"
| "lookup_ok P os (Computed p st c) \<longleftrightarrow>
     (\<exists>fd. os_open os (p_native P p) = Inr fd \<and> GetInodeInfo os fd (p_native P p) = Inr st \<and>
       plain_cksum os fd (p_native P p) = Inr c)"
| "lookup_ok P os (Answer p r) \<longleftrightarrow> r = plain_info P os p"

lemma GetInodeInfo_fstat: "GetInodeInfo os fd path = Inr st \<Longrightarrow> os_fstat os fd = Inr (st, True)"
  by (auto simp: GetInodeInfo_def split: sum.splits if_splits)

text \<open>A section keeps the cache right and brings its lookup nearer to the right answer.\<close>

definition section_ok :: "'p path_api \<Rightarrow> os_api \<Rightarrow> 'p lookup \<Rightarrow> 'p lookup \<times> HashCache \<Rightarrow> bool" where
  "section_ok P os l st \<longleftrightarrow> lookup_ok P os (fst st) \<and> cache_ok os (snd st) \<and> path_of_lookup (fst st) = path_of_lookup l \<and>
     (sections_left l \<noteq> 0 \<longrightarrow> sections_left (fst st) < sections_left l)"

lemma start_section_ok:
  assumes "cache_ok os hc"
  shows "section_ok P os (Start p) (lookup_section P os (Start p) hc)"
proof (cases "os_open os (p_native P p)")
  case (Inl err)
  with assms show ?thesis by (simp add: section_ok_def plain_info_def)
next
  case fd: (Inr fd)
  let ?path = "p_native P p"
  show ?thesis
  proof (cases "GetInodeInfo os fd ?path")
    case (Inl e)
    with assms fd show ?thesis by (simp add: section_ok_def plain_info_def)
  next
    case st: (Inr st)
    show ?thesis
    proof (cases "\<exists>fi. hc_cache hc ?path = Some fi \<and> fi_size fi = st_size st \<and> fi_mtime fi = st_mtime st")
      case True
      then obtain fi where fi: "hc_cache hc ?path = Some fi" "fi_size fi = st_size st" "fi_mtime fi = st_mtime st" by blast
      have "plain_cksum os fd ?path = Inr (fi_sum fi)"
        using assms fi fd GetInodeInfo_fstat [OF st] unfolding cache_ok_def path_cache_ok_def by blast
      with assms fd st fi show ?thesis by (simp add: section_ok_def plain_info_def)
    next
      case False
      with fd st have "lookup_section P os (Start p) hc = (Missed p fd st, hc)"
        by (auto simp: Let_def split: option.splits)
      with assms fd st show ?thesis by (simp add: section_ok_def)
    qed
  qed
qed

lemma missed_section_ok:
  assumes "cache_ok os hc" and "lookup_ok P os (Missed p fd st)"
  shows "section_ok P os (Missed p fd st) (lookup_section P os (Missed p fd st) hc)"
proof (cases "hc_ino_cache hc (st_id st)")
  case None
  with assms show ?thesis by (simp add: section_ok_def InodeCache_Get_def)
next
  case (Some c)
  have "os_fstat os fd = Inr (st, True)" using assms(2) by (auto intro: GetInodeInfo_fstat)
  then have "plain_cksum os fd (p_native P p) = Inr c"
    using assms(1) Some unfolding cache_ok_def ino_cache_ok_def by blast
  with Some assms show ?thesis by (simp add: section_ok_def InodeCache_Get_def)
qed

lemma unknown_section_ok:
  assumes "os_ok os" and "cache_ok os hc" and "lookup_ok P os (Unknown p fd st)"
  shows "section_ok P os (Unknown p fd st) (lookup_section P os (Unknown p fd st) hc)"
proof (cases "read_loop os (p_native P p) (os_read os fd) [] 0")
  case (Inl e)
  with assms show ?thesis by (simp add: section_ok_def plain_info_def plain_cksum_def)
next
  case (Inr x)
  have f: "os_fstat os fd = Inr (st, True)" using assms(3) by (auto intro: GetInodeInfo_fstat)
  obtain bytes n where x: "x = (bytes, n)" by (cases x)
  let ?c = "if n \<noteq> 0 then os_sha1 os bytes else 0"
  have c: "plain_cksum os fd (p_native P p) = Inr ?c" by (simp add: plain_cksum_def Inr x)
  have "ino_cache_ok os (InodeCache_Update (st_id st) ?c (hc_ino_cache hc))"
    using InodeCache_Update_ok [OF assms(1) _ f c] assms(2) unfolding cache_ok_def by blast
  moreover have "lookup_section P os (Unknown p fd st) hc =
      (Computed p st ?c, hc\<lparr>hc_ino_cache := InodeCache_Update (st_id st) ?c (hc_ino_cache hc)\<rparr>)"
    using Inr x by (simp add: Let_def)
  ultimately show ?thesis using assms(2,3) c by (simp add: section_ok_def cache_ok_def)
qed

lemma computed_section_ok:
  assumes "cache_ok os hc" and "lookup_ok P os (Computed p st c)"
  shows "section_ok P os (Computed p st c) (lookup_section P os (Computed p st c) hc)"
proof -
  obtain fd where fd: "os_open os (p_native P p) = Inr fd" "GetInodeInfo os fd (p_native P p) = Inr st"
    "plain_cksum os fd (p_native P p) = Inr c" using assms(2) by auto
  have "path_cache_ok os ((hc_cache hc)(p_native P p \<mapsto> \<lparr>fi_size = st_size st, fi_mtime = st_mtime st, fi_sum = c\<rparr>))"
    by (rule path_cache_update_ok [OF _ fd(1)]) (use assms(1) fd(3) in \<open>simp_all add: cache_ok_def\<close>)
  then show ?thesis using assms(1) fd by (simp add: section_ok_def cache_ok_def plain_info_def Let_def)
qed

lemma lookup_section_ok:
  assumes "os_ok os" and "cache_ok os hc" and "lookup_ok P os l" and "lookup_section P os l hc = (l', hc')"
  shows "lookup_ok P os l' \<and> cache_ok os hc' \<and> path_of_lookup l' = path_of_lookup l \<and>
    (sections_left l \<noteq> 0 \<longrightarrow> sections_left l' < sections_left l)"
proof -
  have "section_ok P os l (lookup_section P os l hc)"
  proof (cases l)
    case (Start p)
    show ?thesis unfolding Start by (rule start_section_ok [OF assms(2)])
  next
    case (Missed p fd st)
    show ?thesis unfolding Missed by (rule missed_section_ok [OF assms(2,3) [unfolded Missed]])
  next
    case (Unknown p fd st)
    show ?thesis unfolding Unknown by (rule unknown_section_ok [OF assms(1-3) [unfolded Unknown]])
  next
    case (Computed p st c)
    show ?thesis unfolding Computed by (rule computed_section_ok [OF assms(2,3) [unfolded Computed]])
  next
    case (Answer p r)
    then show ?thesis using assms(2,3) by (simp add: section_ok_def)
  qed
  then show ?thesis using assms(4) by (simp add: section_ok_def)
qed

definition lookups_ok :: "'p path_api \<Rightarrow> os_api \<Rightarrow> 'p list \<Rightarrow> 'p lookup list \<times> HashCache \<Rightarrow> bool" where
  "lookups_ok P os ps st \<longleftrightarrow> map path_of_lookup (fst st) = ps \<and> list_all (lookup_ok P os) (fst st) \<and> cache_ok os (snd st)"

lemma cache_step_ok:
  assumes "os_ok os" and "lookups_ok P os ps st" and "cache_step P os st st'"
  shows "lookups_ok P os ps st' \<and> sum_list (map sections_left (fst st')) < sum_list (map sections_left (fst st))"
  using assms(3)
proof cases
  case (turn i ls hc l' hc')
  have ok: "cache_ok os hc" "lookup_ok P os (ls ! i)" "list_all (lookup_ok P os) ls" "map path_of_lookup ls = ps"
    using assms(2) turn(1,3) by (auto simp: lookups_ok_def list_all_length)
  from lookup_section_ok [OF assms(1) ok(1,2) turn(5)] have s: "lookup_ok P os l'" "cache_ok os hc'"
    "path_of_lookup l' = path_of_lookup (ls ! i)" "sections_left l' < sections_left (ls ! i)" using turn(4) by simp_all
  have "list_all (lookup_ok P os) (ls[i := l'])"
    using ok(3) s(1) set_update_subset_insert [of ls i l'] by (auto simp: list_all_iff)
  moreover have "map path_of_lookup (ls[i := l']) = ps"
    using ok(4) s(3) turn(3) by (simp add: map_update list_update_id flip: nth_map)
  moreover have "sections_left (ls ! i) \<le> sum_list (map sections_left ls)"
    using turn(3) by (intro member_le_sum_list) simp_all
  then have "sum_list (map sections_left (ls[i := l'])) < sum_list (map sections_left ls)"
    using s(4) turn(3) by (simp add: map_update sum_list_update)
  ultimately show ?thesis using turn(2) s(2) turn(1) by (simp add: lookups_ok_def)
qed


lemma cache_steps_ok:
  assumes "os_ok os" and "lookups_ok P os ps st" and "(cache_step P os ^^ n) st st'"
  shows "lookups_ok P os ps st' \<and> n + sum_list (map sections_left (fst st')) \<le> sum_list (map sections_left (fst st))"
  using assms(3)
proof (induction n arbitrary: st')
  case 0
  then show ?case using assms(2) by simp
next
  case (Suc n)
  then obtain st1 where st1: "(cache_step P os ^^ n) st st1" "cache_step P os st1 st'" by auto
  have IH: "lookups_ok P os ps st1"
    "n + sum_list (map sections_left (fst st1)) \<le> sum_list (map sections_left (fst st))"
    using Suc.IH [OF st1(1)] by simp_all
  show ?case using cache_step_ok [OF assms(1) IH(1) st1(2)] IH(2) by simp
qed

lemma sections_left_0: "sections_left l = 0 \<longleftrightarrow> (\<exists>p r. l = Answer p r)"
  by (cases l) simp_all

lemma lookup_turn: "i < length ls \<Longrightarrow> sections_left (ls ! i) \<noteq> 0 \<Longrightarrow> \<exists>st. cache_step P os (ls, hc) st"
  by (cases "lookup_section P os (ls ! i) hc") (blast intro: turn)

lemma start_lookups_ok: "cache_ok os hc \<Longrightarrow> lookups_ok P os ps (map Start ps, hc)"
  by (simp add: lookups_ok_def comp_def list_all_iff)

lemma lookups_ok_answer:
  assumes "lookups_ok P os ps (ls, hc)" and "i < length ls" and "sections_left (ls ! i) = 0"
  shows "ls ! i = Answer (ps ! i) (plain_info P os (ps ! i))"
proof -
  obtain p r where a: "ls ! i = Answer p r" using assms(3) by (auto simp: sections_left_0)
  have "list_all (lookup_ok P os) ls" using assms(1) by (simp add: lookups_ok_def)
  then have "lookup_ok P os (ls ! i)" using assms(2) by (simp add: list_all_length)
  moreover have "map path_of_lookup ls ! i = ps ! i" using assms(1) by (simp add: lookups_ok_def)
  then have "ps ! i = path_of_lookup (ls ! i)" using assms(2) by simp
  ultimately show ?thesis using a by simp
qed

text \<open>C9: Any number of threads look up paths in a correct cache at once, and their sections run in any
  order. After every number of sections the cache is correct; no more than four sections for each lookup
  are possible; a lookup that has answered gave what reading the file without a cache gives; and as long
  as some lookup has not answered, another section can run. So all of them answer, with what they would
  have answered alone. It does not matter that two threads may compute a checksum of the same file.\<close>

theorem lookups_interleave:
  assumes "os_ok os" and "cache_ok os hc" and "(cache_step P os ^^ n) (map Start ps, hc) (ls, hc')"
  shows "cache_ok os hc' \<and> n \<le> 4 * length ps \<and> length ls = length ps \<and>
    (\<forall>i<length ps. ls ! i = Answer (ps ! i) (plain_info P os (ps ! i)) \<or> (\<forall>p r. ls ! i \<noteq> Answer p r)) \<and>
    (ls = map (\<lambda>p. Answer p (plain_info P os p)) ps \<or> (\<exists>st. cache_step P os (ls, hc') st))"
proof -
  from cache_steps_ok [OF assms(1) start_lookups_ok [OF assms(2)] assms(3)]
  have ok: "lookups_ok P os ps (ls, hc')" and n: "n \<le> 4 * length ps"
    by (simp_all add: comp_def sum_list_triv)
  have len: "length ls = length ps" using ok by (auto simp: lookups_ok_def)
  have answer: "ls ! i = Answer (ps ! i) (plain_info P os (ps ! i))" if "i < length ps" "sections_left (ls ! i) = 0" for i
    using lookups_ok_answer [OF ok] that len by simp
  have "ls = map (\<lambda>p. Answer p (plain_info P os p)) ps" if "\<not> (\<exists>st. cache_step P os (ls, hc') st)"
  proof (rule nth_equalityI)
    fix i assume i: "i < length ls"
    then have "sections_left (ls ! i) = 0" using that lookup_turn [of i ls P os hc'] by blast
    then show "ls ! i = map (\<lambda>p. Answer p (plain_info P os p)) ps ! i" using answer [of i] i len by simp
  qed (simp add: len)
  moreover have "ls ! i = Answer (ps ! i) (plain_info P os (ps ! i)) \<or> (\<forall>p r. ls ! i \<noteq> Answer p r)"
    if "i < length ps" for i
    by (cases "ls ! i") (use answer [OF that] in simp_all)
  moreover have "cache_ok os hc'" using ok by (simp add: lookups_ok_def)
  ultimately show ?thesis using n len by blast
qed

section \<open>A run\<close>

definition example_os :: os_api where
  "example_os =
     \<lparr>os_open = \<lambda>path. if path = ''/d/a'' then Inr 3 else Inl 2,
      os_fstat = \<lambda>fd. Inr (\<lparr>st_id = (1, 1), st_size = 2, st_mtime = 5\<rparr>, True),
      os_read = \<lambda>fd. [Inr [7, 8], Inr []], os_errno = 0, os_strerror = \<lambda>_. ''error'', os_sha1 = \<lambda>bytes. 9\<rparr>"

definition fresh_cache :: HashCache where
  "fresh_cache = \<lparr>hc_cache = Map.empty, hc_ino_cache = Map.empty\<rparr>"

text \<open>The lookups run in a given order of turns.\<close>

fun run_turns :: "nat list \<Rightarrow> 'p path_api \<Rightarrow> os_api \<Rightarrow> 'p lookup list \<times> HashCache \<Rightarrow>
    ('p lookup list \<times> HashCache) option" where
  "run_turns [] P os st = Some st"
| "run_turns (i # is) P os (ls, hc) =
     (if i < length ls \<and> sections_left (ls ! i) \<noteq> 0
      then (case lookup_section P os (ls ! i) hc of (l', hc') \<Rightarrow> run_turns is P os (ls[i := l'], hc')) else None)"

lemma run_turns_steps: "run_turns is P os st = Some st' \<Longrightarrow> (cache_step P os ^^ length is) st st'"
proof (induction "is" P os st rule: run_turns.induct)
  case (2 i "is" P os ls hc)
  obtain l' hc' where s: "lookup_section P os (ls ! i) hc = (l', hc')" by (cases "lookup_section P os (ls ! i) hc")
  with 2 have "cache_step P os (ls, hc) (ls[i := l'], hc')" "(cache_step P os ^^ length is) (ls[i := l'], hc') st'"
    by (auto intro: turn split: if_splits)
  then show ?case using relpowp_Suc_I2 [of "cache_step P os"] by (metis length_Cons)
qed simp

theorem lookups_interleave_witness:
  "\<exists>hc. (cache_step list_paths example_os ^^ 8) (map Start [[''/'', ''d'', ''a''], [''/'', ''d'', ''a'']], fresh_cache)
      (replicate 2 (Answer [''/'', ''d'', ''a''] (Inr \<lparr>fi_size = 2, fi_mtime = 5, fi_sum = 9\<rparr>)), hc) \<and>
    cache_ok example_os hc"
proof -
  let ?p = "[''/'', ''d'', ''a'']"
  have os: "os_ok example_os" by (simp add: os_ok_def example_os_def)
  have hc: "cache_ok example_os fresh_cache"
    by (simp add: cache_ok_def ino_cache_ok_def path_cache_ok_def fresh_cache_def)
  have "\<exists>hc'. run_turns [0, 1, 0, 1, 0, 1, 0, 1] list_paths example_os (map Start [?p, ?p], fresh_cache) =
      Some (replicate 2 (Answer ?p (Inr \<lparr>fi_size = 2, fi_mtime = 5, fi_sum = 9\<rparr>)), hc')"
    by (simp add: example_os_def fresh_cache_def list_paths_def elements_def GetInodeInfo_def InodeCache_Get_def
        InodeCache_Update_def Let_def numeral_eq_Suc)
  then obtain hc' where r: "run_turns [0, 1, 0, 1, 0, 1, 0, 1] list_paths example_os (map Start [?p, ?p], fresh_cache) =
      Some (replicate 2 (Answer ?p (Inr \<lparr>fi_size = 2, fi_mtime = 5, fi_sum = 9\<rparr>)), hc')" by blast
  have "(cache_step list_paths example_os ^^ 8) (map Start [?p, ?p], fresh_cache)
      (replicate 2 (Answer ?p (Inr \<lparr>fi_size = 2, fi_mtime = 5, fi_sum = 9\<rparr>)), hc')"
    using run_turns_steps [OF r] by (simp add: numeral_eq_Suc del: relpowp.simps)
  with lookups_interleave [OF os hc this] show ?thesis by blast
qed

end
