(* ===== verification/Scan_Properties.thy ===== *)
theory Scan_Properties
  imports Run_Properties Cache_Threads
begin

text \<open>
  The properties of the scans: the walk of a directory, the scan of a database, the tables they
  fill, the comparison of two of them, and the checksum cache they consult.
\<close>

section \<open>The walk of a directory\<close>

text \<open>C1: Scanning a directory, with at least one thread and a mutex that can still be locked when the
  pool is destroyed, ends under every schedule of the main thread and the workers, if no directory is
  below itself, and never gets stuck. Whatever the schedule, no call of the processor fails, and it has
  been given exactly what a plain recursive walk of the directories finds, counted with multiplicity:
  each listable directory that is no symbolic link once per listing that names it, and each regular
  file in such a directory with a nonzero checksum once per listing that names it; as sets, the files
  are the ones reached from the root. If the root cannot be listed, it was given nothing.\<close>

theorem scan_directory_correct:
  assumes "scan_processor P processor start root_ok rep" and "start s" and "root_ok r"
    and "file_system_ok P FS" and "wf (below FS)" and "fs_late_lock FS" and "0 < n"
  shows "wf {(st', st). scan_step P FS processor st (Inr st')} \<and>
    (\<forall>st. scan_done st \<or> (\<exists>q. scan_step P FS processor st q)) \<and>
    ScanDirectory P FS processor n r s \<noteq> {} \<and> (\<exists>k. height_le FS k r) \<and>
    (\<forall>k. height_le FS k r \<longrightarrow> (\<forall>out \<in> ScanDirectory P FS processor n r s.
      (fs_list FS r = None \<and> out = Inr s) \<or>
      (\<exists>s' A ds fs. out = Inr s' \<and> rep s' A ds fs \<and>
        mset (map FoundDir ds @ map FoundFile fs) = mset (walk P FS k r []) \<and> set fs = found_in P FS r [])))"
proof (intro conjI allI impI)
  show "wf {(st', st). scan_step P FS processor st (Inr st')}" by (rule wf_scan_step [OF assms(5)])
  show "scan_done st \<or> (\<exists>q. scan_step P FS processor st q)" for st using not_done_step by blast
  show "ScanDirectory P FS processor n r s \<noteq> {}"
    using scan_run_exists [OF assms(5), of P processor "scan_locals r s"] assms(7)
    by (simp add: ScanDirectory_def start_scan_cases)
  show "\<exists>k. height_le FS k r" by (rule height_exists [OF assms(5)])
  show "\<forall>out \<in> ScanDirectory P FS processor n r s. (fs_list FS r = None \<and> out = Inr s) \<or>
      (\<exists>s' A ds fs. out = Inr s' \<and> rep s' A ds fs \<and>
        mset (map FoundDir ds @ map FoundFile fs) = mset (walk P FS k r []) \<and> set fs = found_in P FS r [])"
    if "height_le FS k r" for k
    using scan_processor.ScanDirectory_ok [OF assms] found_files [OF assms(5)] all_found_walk [OF that] by metis
qed

text \<open>The files \<open>a\<close> and \<open>s/b\<close>; the file \<open>s/e\<close> is empty.\<close>

theorem scan_directory_correct_witness:
  "\<exists>s A ds fs. Inr s \<in> ScanDirectory list_paths example_files (TreeCtorProcessor list_paths) 2 [''/'', ''d''] empty_tree_ctor \<and>
    tree_with_dirs list_paths s A ds fs \<and>
    mset (map FoundDir ds @ map FoundFile fs) =
      {#FoundDir [], FoundFile ([[''a'']], \<lparr>fi_size = 7, fi_mtime = 1, fi_sum = 9\<rparr>), FoundDir [[''s'']],
        FoundFile ([[''s''], [''b'']], \<lparr>fi_size = 7, fi_mtime = 1, fi_sum = 9\<rparr>)#}"
proof -
  have root: "p_native list_paths [''/'', ''d''] \<noteq> []" by (simp add: list_paths_def elements_def)
  have listed: "fs_list example_files [''/'', ''d''] \<noteq> None" and late: "fs_late_lock example_files"
    by (simp_all add: example_files_def)
  let ?outs = "ScanDirectory list_paths example_files (TreeCtorProcessor list_paths) 2 [''/'', ''d''] empty_tree_ctor"
  note * = scan_directory_correct [OF list_path.tree_ctor.scan_processor_axioms refl root example_files_ok wf_example late, of 2]
  then obtain out where out: "out \<in> ?outs" by auto
  have h: "height_le example_files 2 [''/'', ''d'']" by code_simp
  have w: "walk list_paths example_files 2 [''/'', ''d''] [] =
    [FoundDir [], FoundFile ([[''a'']], \<lparr>fi_size = 7, fi_mtime = 1, fi_sum = 9\<rparr>), FoundDir [[''s'']],
      FoundFile ([[''s''], [''b'']], \<lparr>fi_size = 7, fi_mtime = 1, fi_sum = 9\<rparr>)]" by code_simp
  from * h out listed obtain s A ds fs where "out = Inr s" "tree_with_dirs list_paths s A ds fs"
    "mset (map FoundDir ds @ map FoundFile fs) = mset (walk list_paths example_files 2 [''/'', ''d''] [])" by fastforce
  with out w show ?thesis by (intro exI [of _ s] exI [of _ A] exI [of _ ds] exI [of _ fs]) simp
qed

text \<open>\<open>CommonPathPrefix\<close> is the path of the longest common prefix of the elements of two paths.\<close>

lemma common_path_prefix_longest:
  assumes "path_laws P"
  shows "p_elems P (CommonPathPrefix P p q) = longest_common_prefix (p_elems P p) (p_elems P q)"
  by (rule path_laws.CommonPathPrefix_elems [OF assms])

lemma common_path_prefix_longest_witness:
  "p_elems list_paths (CommonPathPrefix list_paths [''a'', ''b''] [''a'', ''c'']) = [[''a'']]"
  using common_path_prefix_longest [OF list_path.path_laws_axioms, of "[''a'', ''b'']" "[''a'', ''c'']"]
  by (simp add: list_paths_def elements_def)

section \<open>The tables of a comparison\<close>

text \<open>The table filled from a directory holds the checksum of exactly the files found in it, under
  their names relative to the directory, whatever the schedule of the scan.\<close>

lemma directory_table:
  assumes "path_table P MI invar" and "w_paths W = P" and "scannable W"
    and "\<not> has_db_prefix W dir" and "unambiguous P (found_in P (w_files W) (p_of P dir) [])"
    and "out \<in> FillPathHashes W MI dir"
  shows "\<exists>c. out = Inr c \<and> invar c \<and> holds_files P (content MI c) (found_in P (w_files W) (p_of P dir) [])"
  by (rule path_table.FillPathHashes_directory [OF assms])

lemma example_unambiguous: "unambiguous list_paths (found_in list_paths example_files r d)"
proof -
  have "fi_sum (snd x) = 9" if "(r, d, x) \<in> files_in list_paths example_files" for r d x
    using that by induction (auto simp: task_files_def example_files_def split: if_splits)
  then show ?thesis unfolding unambiguous_def found_in_def by auto
qed

lemma example_scannable: "scannable example_world"
  using example_files_ok wf_example by (simp add: scannable_def example_files_def test_conf_def po_notify_def only_dirs_def)

lemma example_table: "\<exists>out. out \<in> FillPathHashes example_world list_table ''/d''"
  using scan_run_exists [OF wf_example] example_prefixes(2) example_scannable
  by (simp add: FillPathHashes_def scan_path_cases ScanDirectory_def start_scan_cases scannable_def)

lemma directory_table_witness:
  "\<exists>c. Inr c \<in> FillPathHashes example_world list_table ''/d'' \<and>
    holds_files list_paths (content list_table c) (found_in list_paths example_files [''/'', ''d''] [])"
proof -
  obtain out where out: "out \<in> FillPathHashes example_world list_table ''/d''" using example_table by blast
  have w: "w_paths example_world = list_paths" "scannable example_world"
    "unambiguous list_paths (found_in list_paths (w_files example_world) (p_of list_paths ''/d'') [])"
    using example_scannable example_unambiguous by simp_all
  from directory_table [OF list_path_table.path_table_axioms w(1,2) example_prefixes(2) w(3) out] out
  show ?thesis by (auto simp: example_d)
qed

text \<open>The table filled from a database of valid entries holds exactly its entries, under their
  names below the common directory of all of them.\<close>

lemma db_table:
  assumes "path_table P MI invar" and "w_paths W = P" and "has_db_prefix W path"
    and "ReadCacheFromDb (w_db_rows W) (p_native P (p_of P (drop 3 path))) = Inr db"
    and "w_map_order W db = entries" and "\<forall>e \<in> set entries. entry_ok P e"
    and "unambiguous P (relative_entry P (db_prefix P entries) ` set entries)"
  shows "\<exists>c. FillPathHashes W MI path = {Inr c} \<and> invar c \<and>
    holds_files P (content MI c) (relative_entry P (db_prefix P entries) ` set entries)"
  by (rule path_table.FillPathHashes_db [OF assms])

lemma example_db_unambiguous:
  "unambiguous list_paths (relative_entry list_paths (db_prefix list_paths example_db) ` set example_db)"
  unfolding unambiguous_def by code_simp

lemma db_table_witness:
  "\<exists>c. FillPathHashes example_world list_table ''db:/x'' = {Inr c} \<and>
    holds_files list_paths (content list_table c)
      (relative_entry list_paths (db_prefix list_paths example_db) ` set example_db)"
  using db_table [OF list_path_table.path_table_axioms _ example_prefixes(1) example_read _ example_entries
      example_db_unambiguous] by auto

text \<open>C37: Comparing two directories, with renames reported, at least one thread and no directory below
  itself, does not fail under any schedule of the two scans, and reports nothing exactly when both hold files of the same relative names and
  checksums.\<close>

theorem directories_compared:
  assumes "path_table P MI invar" and "w_paths W = P" and "scannable W"
    and "\<not> has_db_prefix W dir1" and "\<not> has_db_prefix W dir2"
    and "unambiguous P (found_in P (w_files W) (p_of P dir1) [])"
    and "unambiguous P (found_in P (w_files W) (p_of P dir2) [])"
    and "\<not> conf_skip_renames (w_conf W)" and "out \<in> DirCompare W MI recording_stream dir1 dir2 []"
  shows "\<exists>evs. out = Inr evs \<and>
    (evs = [] \<longleftrightarrow> (\<lambda>f. (file_name P f, fi_sum (snd f))) ` found_in P (w_files W) (p_of P dir1) [] =
      (\<lambda>f. (file_name P f, fi_sum (snd f))) ` found_in P (w_files W) (p_of P dir2) [])"
proof -
  let ?X = "\<lambda>dir. found_in P (w_files W) (p_of P dir) []" and ?k = "\<lambda>f. (file_name P f, fi_sum (snd f))"
  obtain o1 o2 where o: "o1 \<in> FillPathHashes W MI dir1" "o2 \<in> FillPathHashes W MI dir2"
    "out = rbind o1 (\<lambda>h1. rbind o2 (\<lambda>h2. compare_hashes MI (w_conf W) recording_stream h1 h2 []))"
    using assms(9) unfolding DirCompare_def by blast
  from path_table.FillPathHashes_directory [OF assms(1-4,6) o(1)] obtain c1 where
    c1: "o1 = Inr c1" "invar c1" "holds_files P (content MI c1) (?X dir1)" by blast
  from path_table.FillPathHashes_directory [OF assms(1-3,5,7) o(2)] obtain c2 where
    c2: "o2 = Inr c2" "invar c2" "holds_files P (content MI c2) (?X dir2)" by blast
  have mi: "path_hashes MI invar" using assms(1) unfolding path_table_def by blast
  have graph: "?k ` X = {(p, c). m p = Some c}" if "holds_files P m X" for m X
    using that unfolding holds_files_def by force
  have "out = reported MI (w_conf W) c1 c2" using o(3) c1(1) c2(1) by (simp add: reported_def)
  moreover obtain evs where evs: "reported MI (w_conf W) c1 c2 = Inr evs" by (simp add: reported_report)
  moreover have "evs = [] \<longleftrightarrow> content MI c1 = content MI c2"
    using path_hashes.report_empty_iff [OF mi c1(2) c2(2) assms(8)] evs by (simp add: reported_report)
  moreover have "content MI c1 = content MI c2 \<longleftrightarrow> {(p, c). content MI c1 p = Some c} = {(p, c). content MI c2 p = Some c}"
  proof
    assume e: "{(p, c). content MI c1 p = Some c} = {(p, c). content MI c2 p = Some c}"
    then have "content MI c1 p = Some c \<longleftrightarrow> content MI c2 p = Some c" for p c
      unfolding set_eq_iff by simp
    then have "content MI c1 p = content MI c2 p" for p
      by (metis not_Some_eq)
    then show "content MI c1 = content MI c2" ..
  qed simp
  ultimately show ?thesis unfolding graph [OF c1(3)] graph [OF c2(3)] by simp
qed

theorem directories_compared_witness:
  "Inr [] \<in> DirCompare example_world list_table recording_stream ''/d'' ''/d'' []"
proof -
  obtain t where t: "t \<in> FillPathHashes example_world list_table ''/d''" using example_table by blast
  let ?out = "rbind t (\<lambda>h1. rbind t (\<lambda>h2. compare_hashes list_table test_conf recording_stream h1 h2 []))"
  have out: "?out \<in> DirCompare example_world list_table recording_stream ''/d'' ''/d'' []"
    unfolding DirCompare_def using t by auto
  have w: "w_paths example_world = list_paths" "scannable example_world"
    "unambiguous list_paths (found_in list_paths (w_files example_world) (p_of list_paths ''/d'') [])"
    "\<not> conf_skip_renames (w_conf example_world)"
    using example_scannable example_unambiguous by (simp_all add: test_conf_def po_notify_def only_dirs_def)
  from directories_compared [OF list_path_table.path_table_axioms w(1,2) example_prefixes(2,2) w(3,3,4) out] out
  show ?thesis by auto
qed

section \<open>The checksum cache\<close>

text \<open>C4: A lookup in the cache gives what opening and reading the file without any cache gives, the
  same error included, and keeps the cache correct, if every cached entry whose size and
  modification time still match is right and the descriptors of one inode show one content. An
  empty file has the checksum 0.\<close>

theorem cache_transparent:
  assumes "os_ok os" and "cache_ok os hc"
  shows "(\<forall>e. plain_info P os p = Inl e \<longrightarrow> HashCache_get P os p hc = Inl e) \<and>
    (\<forall>fi. plain_info P os p = Inr fi \<longrightarrow>
      (\<exists>hc'. HashCache_get P os p hc = Inr (fi, hc') \<and> cache_ok os hc'))"
  using HashCache_get_ok [OF assms, of P p] by (auto split: sum.splits)

text \<open>A file of two bytes that is read in one piece.\<close>

theorem cache_transparent_witness:
  "\<exists>hc. HashCache_get list_paths example_os [''/'', ''d'', ''a''] fresh_cache =
    Inr (\<lparr>fi_size = 2, fi_mtime = 5, fi_sum = 9\<rparr>, hc) \<and> cache_ok example_os hc"
proof -
  have os: "os_ok example_os" by (simp add: os_ok_def example_os_def)
  have hc: "cache_ok example_os fresh_cache"
    by (simp add: cache_ok_def ino_cache_ok_def path_cache_ok_def fresh_cache_def)
  have "plain_info list_paths example_os [''/'', ''d'', ''a''] =
      Inr \<lparr>fi_size = 2, fi_mtime = 5, fi_sum = 9\<rparr>"
    by (simp add: plain_info_def example_os_def list_paths_def elements_def GetInodeInfo_def plain_cksum_def)
  with cache_transparent [OF os hc, of list_paths "[''/'', ''d'', ''a'']", THEN conjunct2] show ?thesis by blast
qed

end
