(* ===== verification/Db_Lib.thy ===== *)
theory Db_Lib
  imports Dupa_Prelude Doubles
begin

text \<open>
  The C++ layer over SQLite (src/src/db_lib.h, src/src/db_lib_impl.h, src/src/db_lib.cpp):
  connections, transactions, typed rows, output streams over INSERT and UPDATE statements, input
  streams over queries and their iterators. SQLite itself is a parameter, a record of the
  functions the code calls. An operation that throws keeps the state of the database, since
  destructors still run on it.
\<close>

section \<open>SQLite\<close>

datatype sql_value = SqlNull | SqlInt int | SqlReal rat | SqlText string

text \<open>The state of a connection is \<open>'db\<close>, a prepared statement is \<open>'stmt\<close>; functions return the
  result code of SQLite. \<open>sq_exec\<close> and \<open>sq_open\<close> also give the error message; the accessors of a
  column convert its value.\<close>

record ('db, 'stmt) sqlite_api =
  sq_exec :: "string \<Rightarrow> 'db \<Rightarrow> (int \<times> string) \<times> 'db"
  sq_prepare :: "string \<Rightarrow> 'db \<Rightarrow> int \<times> 'stmt"
  sq_bind :: "nat \<Rightarrow> sql_value \<Rightarrow> 'stmt \<Rightarrow> int \<times> 'stmt"
  sq_step :: "'stmt \<Rightarrow> 'db \<Rightarrow> int \<times> 'stmt \<times> 'db"
  sq_clear_bindings :: "'stmt \<Rightarrow> int \<times> 'stmt"
  sq_reset :: "'stmt \<Rightarrow> int \<times> 'stmt"
  sq_column_int64 :: "'stmt \<Rightarrow> nat \<Rightarrow> int"
  sq_column_double :: "'stmt \<Rightarrow> nat \<Rightarrow> rat"
  sq_column_text :: "'stmt \<Rightarrow> nat \<Rightarrow> string option"   \<comment> \<open>up to the first NUL\<close>
  sq_errcode :: "'db \<Rightarrow> int"
  sq_errmsg :: "'db \<Rightarrow> string"
  sq_errstr :: "int \<Rightarrow> string"

text \<open>The result codes the code names.\<close>

definition SQLITE_OK :: int where "SQLITE_OK = 0"
definition SQLITE_NOMEM :: int where "SQLITE_NOMEM = 7"
definition SQLITE_MISUSE :: int where "SQLITE_MISUSE = 21"
definition SQLITE_ROW :: int where "SQLITE_ROW = 100"
definition SQLITE_DONE :: int where "SQLITE_DONE = 101"

lemmas sqlite_codes = SQLITE_OK_def SQLITE_NOMEM_def SQLITE_MISUSE_def SQLITE_ROW_def SQLITE_DONE_def

section \<open>Operations on a database\<close>

text \<open>An operation yields a result or throws, and leaves a state.\<close>

type_synonym ('a, 'db) dbm = "'db \<Rightarrow> 'a res \<times> 'db"

definition dreturn :: "'a \<Rightarrow> ('a, 'db) dbm" where
  "dreturn x db = (Inr x, db)"

definition dthrow :: "fault \<Rightarrow> ('a, 'db) dbm" where
  "dthrow e db = (Inl e, db)"

definition dbind :: "('a, 'db) dbm \<Rightarrow> ('a \<Rightarrow> ('b, 'db) dbm) \<Rightarrow> ('b, 'db) dbm" where
  "dbind m f db = (case m db of (Inl e, db') \<Rightarrow> (Inl e, db') | (Inr x, db') \<Rightarrow> f x db')"

lemma dbind_simps [simp]:
  "m db = (Inr x, db') \<Longrightarrow> dbind m f db = f x db'"
  "m db = (Inl e, db') \<Longrightarrow> dbind m f db = (Inl e, db')"
  "dreturn x db = (Inr x, db)" "dthrow e db = (Inl e, db)"
  by (simp_all add: dbind_def dreturn_def dthrow_def)

text \<open>A loop over a container.\<close>

fun dfold :: "('a \<Rightarrow> 's \<Rightarrow> ('s, 'db) dbm) \<Rightarrow> 'a list \<Rightarrow> 's \<Rightarrow> ('s, 'db) dbm" where
  "dfold f [] s = dreturn s"
| "dfold f (x # xs) s = dbind (f x s) (dfold f xs)"

text \<open>The exception of a result code, and the one that asks the connection for the message.\<close>

definition DBException_code :: "('db, 'stmt) sqlite_api \<Rightarrow> int \<Rightarrow> string \<Rightarrow> fault" where
  "DBException_code A sqlite_code operation = Exception (operation @ '': '' @ sq_errstr A sqlite_code)"

definition DBException_db :: "('db, 'stmt) sqlite_api \<Rightarrow> 'db \<Rightarrow> string \<Rightarrow> fault" where
  "DBException_db A db operation = Exception (operation @ '': '' @ sq_errmsg A db)"

section \<open>\<open>DBConnection\<close>\<close>

text \<open>The constructor; \<open>open_db\<close> is \<open>sqlite3_open_v2\<close> with the flags.\<close>

definition connection_pragmas :: string where
  "connection_pragmas =
     ''PRAGMA page_size = 65536; '' @ ''PRAGMA synchronous = 0; '' @ ''PRAGMA journal_mode = OFF;'' @
     ''PRAGMA foreign_keys = 1;''"

definition new_DBConnection ::
  "('db, 'stmt) sqlite_api \<Rightarrow> (string \<Rightarrow> int \<times> 'db) \<Rightarrow> string \<Rightarrow> 'db res" where
  "new_DBConnection A open_db path =
     (let (code, db) = open_db path in
      if code \<noteq> SQLITE_OK then Inl (DBException_code A code (''Opening DB '' @ path))
      else let ((code', err_msg), db') = sq_exec A connection_pragmas db in
        if code' \<noteq> SQLITE_OK then Inl (DBException_db A db' (''Creating results tables: '' @ err_msg))
        else Inr db')"

definition PrepareStmt :: "('db, 'stmt) sqlite_api \<Rightarrow> string \<Rightarrow> ('stmt, 'db) dbm" where
  "PrepareStmt A sql db =
     (let (code, stmt) = sq_prepare A sql db in
      if code \<noteq> SQLITE_OK then (Inl (DBException_db A db (''Preparing statement: '' @ sql)), db)
      else (Inr stmt, db))"

definition Exec :: "('db, 'stmt) sqlite_api \<Rightarrow> string \<Rightarrow> (unit, 'db) dbm" where
  "Exec A sql db =
     (let ((code, err_msg), db') = sq_exec A sql db in
      if code \<noteq> SQLITE_OK
      then (Inl (DBException_db A db' (''Executing SQL ('' @ sql @ ''): '' @ err_msg)), db')
      else (Inr (), db'))"

section \<open>\<open>DBTransaction\<close>\<close>

text \<open>The object is its flag \<open>ongoing_\<close>.\<close>

definition new_DBTransaction :: "('db, 'stmt) sqlite_api \<Rightarrow> (bool, 'db) dbm" where
  "new_DBTransaction A = dbind (Exec A ''BEGIN TRANSACTION'') (\<lambda>_. dreturn True)"

definition Rollback :: "('db, 'stmt) sqlite_api \<Rightarrow> (bool, 'db) dbm" where
  "Rollback A = dbind (Exec A ''ROLLBACK TRANSACTION'') (\<lambda>_. dreturn False)"

definition Commit :: "('db, 'stmt) sqlite_api \<Rightarrow> (bool, 'db) dbm" where
  "Commit A = dbind (Exec A ''COMMIT TRANSACTION'') (\<lambda>_. dreturn False)"

text \<open>The destructor; it may not throw.\<close>

definition delete_DBTransaction :: "('db, 'stmt) sqlite_api \<Rightarrow> bool \<Rightarrow> (unit, 'db) dbm" where
  "delete_DBTransaction A ongoing db =
     (if ongoing then
        (case Rollback A db of
           (Inl e, db') \<Rightarrow> (Inl (Terminated ''~DBTransaction''), db')
         | (Inr _, db') \<Rightarrow> (Inr (), db'))
      else (Inr (), db))"

text \<open>A block with a local transaction that ends with \<open>trans.Commit()\<close>.\<close>

definition transaction :: "('db, 'stmt) sqlite_api \<Rightarrow> ('a, 'db) dbm \<Rightarrow> ('a, 'db) dbm" where
  "transaction A body =
     dbind (new_DBTransaction A) (\<lambda>ongoing db.
       case dbind body (\<lambda>x. dbind (Commit A) (\<lambda>_. dreturn x)) db of
         (Inr x, db') \<Rightarrow> (Inr x, db')
       | (Inl e, db') \<Rightarrow> dbind (delete_DBTransaction A ongoing) (\<lambda>_. dthrow e) db')"

section \<open>Typed rows\<close>

text \<open>The C++ types of columns: 64-bit integers of either signedness, doubles and strings. A value is
  the bit pattern of an integer, a double, or a string.\<close>

datatype coltype = IntCol | DoubleCol | StringCol
datatype field = IntField "64 word" | DoubleField rat | StringField string

fun has_type :: "field \<Rightarrow> coltype \<Rightarrow> bool" where
  "has_type (IntField w) t \<longleftrightarrow> t = IntCol"
| "has_type (DoubleField x) t \<longleftrightarrow> t = DoubleCol"
| "has_type (StringField s) t \<longleftrightarrow> t = StringCol"

text \<open>\<open>strncpy(mem, str, length + 1)\<close>, of which the first \<open>length\<close> characters are bound: what follows a
  NUL is replaced by NULs.\<close>

abbreviation NUL :: char where "NUL \<equiv> CHR 0x00"

definition strncpy :: "string \<Rightarrow> string" where
  "strncpy s = takeWhile (\<lambda>c. c \<noteq> NUL) s @ map (\<lambda>_. NUL) (dropWhile (\<lambda>c. c \<noteq> NUL) s)"

text \<open>\<open>Bind1\<close> for the three kinds of types; the conversion to \<open>sqlite3_int64\<close> keeps the bits.\<close>

fun bind_value :: "field \<Rightarrow> sql_value" where
  "bind_value (IntField w) = SqlInt (sint w)"
| "bind_value (DoubleField x) = SqlReal x"
| "bind_value (StringField s) = SqlText (strncpy s)"

text \<open>\<open>Unpack1\<close>; constructing a string from a null pointer is undefined.\<close>

fun Unpack1 :: "('db, 'stmt) sqlite_api \<Rightarrow> coltype \<Rightarrow> 'stmt \<Rightarrow> nat \<Rightarrow> field res" where
  "Unpack1 A IntCol row idx = Inr (IntField (word_of_int (sq_column_int64 A row idx)))"
| "Unpack1 A DoubleCol row idx = Inr (DoubleField (sq_column_double A row idx))"
| "Unpack1 A StringCol row idx =
     (case sq_column_text A row idx of
        None \<Rightarrow> Inl (Undefined ''std::string(nullptr)'')
      | Some s \<Rightarrow> Inr (StringField s))"

text \<open>\<open>BindImpl\<close>, from position \<open>idx\<close>, and \<open>UnpackImpl\<close>.\<close>

fun BindImpl :: "('db, 'stmt) sqlite_api \<Rightarrow> nat \<Rightarrow> field list \<Rightarrow> 'stmt \<Rightarrow> 'stmt res" where
  "BindImpl A idx [] s = Inr s"
| "BindImpl A idx (a # args) s =
     (let (code, s') = sq_bind A idx (bind_value a) s in
      if code \<noteq> SQLITE_OK
      then Inl (DBException_code A code (''Binding parameter '' @ to_string idx))
      else BindImpl A (idx + 1) args s')"

fun UnpackImpl ::
  "('db, 'stmt) sqlite_api \<Rightarrow> 'db \<Rightarrow> coltype list \<Rightarrow> 'stmt \<Rightarrow> nat \<Rightarrow> field list res" where
  "UnpackImpl A db [] row idx = Inr []"
| "UnpackImpl A db (t # ts) row idx =
     rbind (Unpack1 A t row idx) (\<lambda>x.
       if sq_errcode A db = SQLITE_NOMEM
       then Inl (DBException_db A db (''Unpacking value ('' @ to_string idx @ '') from result''))
       else rbind (UnpackImpl A db ts row (idx + 1)) (\<lambda>xs. Inr (x # xs)))"

section \<open>Output streams\<close>

text \<open>The stream is its statement.\<close>

definition Prepare :: "('db, 'stmt) sqlite_api \<Rightarrow> string \<Rightarrow> ('stmt, 'db) dbm" where
  "Prepare A sql = PrepareStmt A sql"

definition Write :: "('db, 'stmt) sqlite_api \<Rightarrow> field list \<Rightarrow> 'stmt \<Rightarrow> ('stmt, 'db) dbm" where
  "Write A args stmt db =
     (case BindImpl A 1 args stmt of
        Inl e \<Rightarrow> (Inl e, db)
      | Inr s1 \<Rightarrow>
          let (code, s2, db') = sq_step A s1 db in
          if code \<noteq> SQLITE_DONE then (Inl (DBException_db A db' ''Advancing output stream''), db')
          else let (code', s3) = sq_clear_bindings A s2 in
            if code' \<noteq> SQLITE_OK
            then (Inl (DBException_db A db' ''Clearing output stream bindings''), db')
            else let (code'', s4) = sq_reset A s3 in
              if code'' \<noteq> SQLITE_OK
              then (Inl (DBException_db A db' ''Resetting statement in output stream''), db')
              else (Inr s4, db'))"

text \<open>\<open>std::transform\<close> into the iterator of a stream: assigning a tuple to it writes the tuple.\<close>

definition transform_to ::
  "('db, 'stmt) sqlite_api \<Rightarrow> ('a \<Rightarrow> field list) \<Rightarrow> 'a list \<Rightarrow> 'stmt \<Rightarrow> ('stmt, 'db) dbm" where
  "transform_to A f = dfold (\<lambda>x. Write A (f x))"

section \<open>Input streams\<close>

record 'stmt DBInStream =
  is_stmt :: "'stmt option"
  is_next_row :: "field list option"

text \<open>\<open>Fetch\<close>; after the last row the statement is gone, and stepping a null statement is a misuse.\<close>

definition Fetch ::
  "('db, 'stmt) sqlite_api \<Rightarrow> coltype list \<Rightarrow> 'stmt DBInStream \<Rightarrow> ('stmt DBInStream, 'db) dbm" where
  "Fetch A ts s db =
     (case is_stmt s of
        None \<Rightarrow> (Inl (DBException_code A SQLITE_MISUSE ''Trying to read from stream.''), db)
      | Some stmt \<Rightarrow>
          let (code, stmt', db') = sq_step A stmt db in
          if code = SQLITE_DONE then (Inr \<lparr>is_stmt = None, is_next_row = None\<rparr>, db')
          else if code = SQLITE_ROW then
            (case UnpackImpl A db' ts stmt' 0 of
               Inl e \<Rightarrow> (Inl e, db')
             | Inr row \<Rightarrow> (Inr \<lparr>is_stmt = Some stmt', is_next_row = Some row\<rparr>, db'))
          else (Inl (DBException_code A code ''Trying to read from stream.''), db'))"

definition Query ::
  "('db, 'stmt) sqlite_api \<Rightarrow> coltype list \<Rightarrow> string \<Rightarrow> ('stmt DBInStream, 'db) dbm" where
  "Query A ts sql =
     dbind (PrepareStmt A sql) (\<lambda>stmt. Fetch A ts \<lparr>is_stmt = Some stmt, is_next_row = None\<rparr>)"

definition Eof :: "'stmt DBInStream \<Rightarrow> bool" where
  "Eof s \<longleftrightarrow> is_next_row s = None"

definition Read ::
  "('db, 'stmt) sqlite_api \<Rightarrow> coltype list \<Rightarrow> 'stmt DBInStream \<Rightarrow> (field list \<times> 'stmt DBInStream, 'db) dbm" where
  "Read A ts s =
     dbind (Fetch A ts s) (\<lambda>s'.
       case is_next_row s of
         None \<Rightarrow> dthrow (Undefined ''dereference of a null row'')
       | Some row \<Rightarrow> dreturn (row, s'))"

subsection \<open>Iterators\<close>

text \<open>An iterator points to its stream or to none, and holds a value. All iterators of a loop belong
  to one stream, so that only whether they point to it matters.\<close>

record DBInputIt =
  it_attached :: bool
  it_value :: "field list"

definition it_end :: DBInputIt where
  "it_end = \<lparr>it_attached = False, it_value = []\<rparr>"

definition it_equal :: "DBInputIt \<Rightarrow> DBInputIt \<Rightarrow> bool" where
  "it_equal a b \<longleftrightarrow> (if it_attached a then it_attached b else \<not> it_attached b)"

definition it_Fetch ::
  "('db, 'stmt) sqlite_api \<Rightarrow> coltype list \<Rightarrow> DBInputIt \<times> 'stmt DBInStream \<Rightarrow>
   (DBInputIt \<times> 'stmt DBInStream, 'db) dbm" where
  "it_Fetch A ts st =
     (if it_attached (fst st) then
        if Eof (snd st) then dreturn ((fst st)\<lparr>it_attached := False\<rparr>, snd st)
        else dbind (Read A ts (snd st)) (\<lambda>(row, s'). dreturn ((fst st)\<lparr>it_value := row\<rparr>, s'))
      else dreturn st)"

definition it_begin ::
  "('db, 'stmt) sqlite_api \<Rightarrow> coltype list \<Rightarrow> 'stmt DBInStream \<Rightarrow> (DBInputIt \<times> 'stmt DBInStream, 'db) dbm" where
  "it_begin A ts s = it_Fetch A ts (\<lparr>it_attached = True, it_value = []\<rparr>, s)"

text \<open>\<open>operator++\<close>.\<close>

definition it_next ::
  "('db, 'stmt) sqlite_api \<Rightarrow> coltype list \<Rightarrow> DBInputIt \<times> 'stmt DBInStream \<Rightarrow>
   (DBInputIt \<times> 'stmt DBInStream, 'db) dbm" where
  "it_next A ts st =
     (if it_attached (fst st) then it_Fetch A ts st else dthrow (Assertion ''stream_''))"

definition it_post_next ::
  "('db, 'stmt) sqlite_api \<Rightarrow> coltype list \<Rightarrow> DBInputIt \<times> 'stmt DBInStream \<Rightarrow>
   (DBInputIt \<times> DBInputIt \<times> 'stmt DBInStream, 'db) dbm" where
  "it_post_next A ts st =
     (if it_attached (fst st) then dbind (it_Fetch A ts st) (\<lambda>st'. dreturn (fst st, st'))
      else dthrow (Assertion ''stream_''))"

text \<open>A range-based \<open>for\<close> over a stream; the first argument bounds the number of iterations.\<close>

fun for_rows ::
  "nat \<Rightarrow> ('db, 'stmt) sqlite_api \<Rightarrow> coltype list \<Rightarrow> (field list \<Rightarrow> 'a \<Rightarrow> 'a) \<Rightarrow>
   DBInputIt \<times> 'stmt DBInStream \<Rightarrow> 'a \<Rightarrow> ('a, 'db) dbm" where
  "for_rows 0 A ts body st acc = dthrow OutOfFuel"
| "for_rows (Suc k) A ts body st acc =
     (if it_equal (fst st) it_end then dreturn acc
      else dbind (it_next A ts st) (\<lambda>st'. for_rows k A ts body st' (body (it_value (fst st)) acc)))"

definition for_query ::
  "nat \<Rightarrow> ('db, 'stmt) sqlite_api \<Rightarrow> coltype list \<Rightarrow> string \<Rightarrow> (field list \<Rightarrow> 'a \<Rightarrow> 'a) \<Rightarrow> 'a \<Rightarrow>
   ('a, 'db) dbm" where
  "for_query k A ts sql body acc =
     dbind (Query A ts sql) (\<lambda>s. dbind (it_begin A ts s) (\<lambda>st. for_rows k A ts body st acc))"

text \<open>The effect of a sequence of executions of one statement, each with its bound values.\<close>

fun effects :: "(string \<Rightarrow> 'v list \<Rightarrow> 'c \<Rightarrow> 'c option) \<Rightarrow> string \<Rightarrow> 'v list list \<Rightarrow> 'c \<Rightarrow> 'c option" where
  "effects eff sql [] c = Some c"
| "effects eff sql (vs # vss) c = (case eff sql vs c of None \<Rightarrow> None | Some c' \<Rightarrow> effects eff sql vss c')"

text \<open>The stored value of a field, as it is read back.\<close>

fun stored :: "sql_value \<Rightarrow> coltype \<Rightarrow> field \<Rightarrow> bool" where
  "stored (SqlInt x) t f \<longleftrightarrow> t = IntCol \<and> f = IntField (word_of_int x)"
| "stored (SqlReal x) t f \<longleftrightarrow> t = DoubleCol \<and> f = DoubleField x"
| "stored (SqlText x) t f \<longleftrightarrow> t = StringCol \<and> f = StringField (takeWhile (\<lambda>c. c \<noteq> NUL) x)"
| "stored SqlNull t f \<longleftrightarrow> False"

definition row_stored :: "coltype list \<Rightarrow> sql_value list \<Rightarrow> field list \<Rightarrow> bool" where
  "row_stored ts r fs \<longleftrightarrow> length r = length ts \<and> length fs = length ts \<and>
     (\<forall>i < length ts. stored (r ! i) (ts ! i) (fs ! i))"

lemma row_stored_simps [simp]:
  "row_stored [] [] []"
  "row_stored (t # ts) (v # r) (f # fs) \<longleftrightarrow> stored v t f \<and> row_stored ts r fs"
  by (auto simp: row_stored_def All_less_Suc2)

section \<open>What the code relies on\<close>

text \<open>The documented behaviour of SQLite for statements whose effect on the content of the database
  (\<open>effect\<close>, \<open>None\<close> for a violated constraint) and result rows are given; \<open>params\<close> is the number of
  parameters, \<open>valid\<close> says that the tables a statement names exist. \<open>ready st sql vs\<close> is a
  statement that was prepared from \<open>sql\<close>, has its first parameters bound to \<open>vs\<close> and has not been
  stepped, \<open>finished st sql vs\<close> one that ran to completion, \<open>pending st db rs\<close> a query with the rows
  \<open>rs\<close> to come.\<close>

locale sqlite =
  fixes A :: "('db, 'stmt) sqlite_api"
    and content :: "'db \<Rightarrow> 'c"
    and params :: "string \<Rightarrow> nat option"
    and valid :: "string \<Rightarrow> 'c \<Rightarrow> bool"
    and effect :: "string \<Rightarrow> sql_value list \<Rightarrow> 'c \<Rightarrow> 'c option"
    and result_rows :: "string \<Rightarrow> 'c \<Rightarrow> sql_value list list option"
    and ready :: "'stmt \<Rightarrow> string \<Rightarrow> sql_value list \<Rightarrow> bool"
    and finished :: "'stmt \<Rightarrow> string \<Rightarrow> sql_value list \<Rightarrow> bool"
    and pending :: "'stmt \<Rightarrow> 'db \<Rightarrow> sql_value list list \<Rightarrow> bool"
  assumes exec_ok: "effect sql [] (content db) = Some c \<Longrightarrow>
      \<exists>msg db'. sq_exec A sql db = ((SQLITE_OK, msg), db') \<and> content db' = c"
    and exec_fails: "params sql = Some 0 \<Longrightarrow> result_rows sql (content db) = None \<Longrightarrow>
      effect sql [] (content db) = None \<Longrightarrow>
      \<exists>code msg db'. sq_exec A sql db = ((code, msg), db') \<and> code \<noteq> SQLITE_OK"
    and prepare_ok: "params sql = Some n \<Longrightarrow> valid sql (content db) \<Longrightarrow>
      \<exists>st. sq_prepare A sql db = (SQLITE_OK, st) \<and> ready st sql []"
    and bind_ok: "ready st sql vs \<Longrightarrow> params sql = Some n \<Longrightarrow> length vs < n \<Longrightarrow>
      \<exists>st'. sq_bind A (Suc (length vs)) v st = (SQLITE_OK, st') \<and> ready st' sql (vs @ [v])"
    and step_ok: "ready st sql vs \<Longrightarrow> params sql = Some (length vs) \<Longrightarrow> effect sql vs (content db) = Some c \<Longrightarrow>
      \<exists>st' db'. sq_step A st db = (SQLITE_DONE, st', db') \<and> content db' = c \<and> finished st' sql vs"
    and step_fails: "ready st sql vs \<Longrightarrow> params sql = Some (length vs) \<Longrightarrow> result_rows sql (content db) = None \<Longrightarrow>
      effect sql vs (content db) = None \<Longrightarrow>
      \<exists>code st' db'. sq_step A st db = (code, st', db') \<and> code \<noteq> SQLITE_DONE"
    and clear_ok: "finished st sql vs \<Longrightarrow>
      \<exists>st'. sq_clear_bindings A st = (SQLITE_OK, st') \<and> finished st' sql []"
    and reset_ok: "finished st sql vs \<Longrightarrow> \<exists>st'. sq_reset A st = (SQLITE_OK, st') \<and> ready st' sql vs"
    and query_pending: "ready st sql [] \<Longrightarrow> params sql = Some 0 \<Longrightarrow> result_rows sql (content db) = Some rs \<Longrightarrow>
      pending st db rs"
    and step_row: "pending st db (r # rs) \<Longrightarrow>
      \<exists>st' db'. sq_step A st db = (SQLITE_ROW, st', db') \<and> pending st' db' rs \<and> content db' = content db \<and>
        sq_errcode A db' \<noteq> SQLITE_NOMEM \<and>
        (\<forall>i < length r. (\<forall>x. r ! i = SqlInt x \<longrightarrow> sq_column_int64 A st' i = x) \<and>
          (\<forall>x. r ! i = SqlReal x \<longrightarrow> sq_column_double A st' i = x) \<and>
          (\<forall>x. r ! i = SqlText x \<longrightarrow> sq_column_text A st' i = Some (takeWhile (\<lambda>c. c \<noteq> NUL) x)))"
    and step_end: "pending st db [] \<Longrightarrow>
      \<exists>st' db'. sq_step A st db = (SQLITE_DONE, st', db') \<and> content db' = content db"
begin

subsection \<open>Statements without rows\<close>

lemma Exec_ok:
  "effect sql [] (content db) = Some c \<Longrightarrow> \<exists>db'. Exec A sql db = (Inr (), db') \<and> content db' = c"
  using exec_ok [of sql db c] by (auto simp: Exec_def)

lemma Exec_fails:
  "params sql = Some 0 \<Longrightarrow> result_rows sql (content db) = None \<Longrightarrow> effect sql [] (content db) = None \<Longrightarrow>
    \<exists>e db'. Exec A sql db = (Inl (Exception e), db')"
  using exec_fails [of sql db] by (auto simp: Exec_def DBException_db_def)

lemma Prepare_ok:
  "params sql = Some n \<Longrightarrow> valid sql (content db) \<Longrightarrow> \<exists>st. Prepare A sql db = (Inr st, db) \<and> ready st sql []"
  using prepare_ok [of sql n db] by (auto simp: Prepare_def PrepareStmt_def)

lemma BindImpl_ok:
  "ready st sql vs \<Longrightarrow> params sql = Some (length vs + length args) \<Longrightarrow>
   \<exists>st'. BindImpl A (Suc (length vs)) args st = Inr st' \<and> ready st' sql (vs @ map bind_value args)"
proof (induction args arbitrary: st vs)
  case (Cons a args)
  have "length vs < length vs + length (a # args)" by simp
  from bind_ok [OF Cons.prems this, of "bind_value a"] obtain st' where
    st': "sq_bind A (Suc (length vs)) (bind_value a) st = (SQLITE_OK, st')" "ready st' sql (vs @ [bind_value a])"
    by blast
  have "params sql = Some (length (vs @ [bind_value a]) + length args)" using Cons.prems(2) by simp
  from Cons.IH [OF st'(2) this] st'(1) show ?case by simp
qed auto

lemma Write_ok:
  assumes "ready st sql []" and "params sql = Some (length args)"
    and "effect sql (map bind_value args) (content db) = Some c"
  shows "\<exists>st' db'. Write A args st db = (Inr st', db') \<and> ready st' sql [] \<and> content db' = c"
proof -
  have "params sql = Some (length ([] :: sql_value list) + length args)" using assms(2) by simp
  from BindImpl_ok [OF assms(1) this] obtain s1 where
    s1: "BindImpl A 1 args st = Inr s1" "ready s1 sql (map bind_value args)" by auto
  have "params sql = Some (length (map bind_value args))" using assms(2) by simp
  from step_ok [OF s1(2) this assms(3)] obtain s2 db' where
    s2: "sq_step A s1 db = (SQLITE_DONE, s2, db')" "content db' = c" "finished s2 sql (map bind_value args)"
    by blast
  from clear_ok [OF s2(3)] obtain s3 where s3: "sq_clear_bindings A s2 = (SQLITE_OK, s3)" "finished s3 sql []"
    by blast
  from reset_ok [OF s3(2)] obtain s4 where "sq_reset A s3 = (SQLITE_OK, s4)" "ready s4 sql []" by blast
  with s1(1) s2 s3(1) show ?thesis by (simp add: Write_def)
qed

lemma Write_fails:
  assumes "ready st sql []" and "params sql = Some (length args)"
    and "effect sql (map bind_value args) (content db) = None" and "result_rows sql (content db) = None"
  shows "\<exists>e db'. Write A args st db = (Inl (Exception e), db')"
proof -
  have "params sql = Some (length ([] :: sql_value list) + length args)" using assms(2) by simp
  from BindImpl_ok [OF assms(1) this] obtain s1 where
    s1: "BindImpl A 1 args st = Inr s1" "ready s1 sql (map bind_value args)" by auto
  have "params sql = Some (length (map bind_value args))" using assms(2) by simp
  from step_fails [OF s1(2) this assms(4,3)] s1(1) show ?thesis
    by (auto simp: Write_def DBException_db_def)
qed

lemma transform_ok:
  assumes "ready st sql []" and "\<forall>x \<in> set xs. params sql = Some (length (f x))"
    and "effects effect sql (map (\<lambda>x. map bind_value (f x)) xs) (content db) = Some c"
  shows "\<exists>st' db'. transform_to A f xs st db = (Inr st', db') \<and> ready st' sql [] \<and> content db' = c"
  using assms
proof (induction xs arbitrary: st db)
  case Nil
  then show ?case by (auto simp: transform_to_def)
next
  case (Cons x xs)
  then obtain c1 where c1: "effect sql (map bind_value (f x)) (content db) = Some c1"
    "effects effect sql (map (\<lambda>x. map bind_value (f x)) xs) c1 = Some c"
    by (auto split: option.splits)
  have "params sql = Some (length (f x))" using Cons.prems(2) by simp
  from Write_ok [OF Cons.prems(1) this c1(1)] obtain st1 db1 where
    w: "Write A (f x) st db = (Inr st1, db1)" "ready st1 sql []" "content db1 = c1" by blast
  have "\<forall>x \<in> set xs. params sql = Some (length (f x))" using Cons.prems(2) unfolding list.set by blast
  moreover have "effects effect sql (map (\<lambda>x. map bind_value (f x)) xs) (content db1) = Some c" using c1(2) w(3) by simp
  ultimately obtain st' db' where
    "transform_to A f xs st1 db1 = (Inr st', db')" "ready st' sql []" "content db' = c"
    using Cons.IH [OF w(2)] by blast
  with w(1) show ?case by (simp add: transform_to_def)
qed

text \<open>A transaction around a body that succeeds.\<close>

lemma transaction_ok:
  assumes "effect ''BEGIN TRANSACTION'' [] (content db) = Some c1"
    and "\<And>db1. content db1 = c1 \<Longrightarrow> \<exists>x db2. body db1 = (Inr x, db2) \<and> Q x (content db2)"
    and "\<And>x c. Q x c \<Longrightarrow> \<exists>c'. effect ''COMMIT TRANSACTION'' [] c = Some c' \<and> R x c'"
  shows "\<exists>x db'. transaction A body db = (Inr x, db') \<and> R x (content db')"
proof -
  from Exec_ok [OF assms(1)] obtain db1 where b: "Exec A ''BEGIN TRANSACTION'' db = (Inr (), db1)"
    "content db1 = c1" by blast
  from assms(2) [OF b(2)] obtain x db2 where x: "body db1 = (Inr x, db2)" "Q x (content db2)" by blast
  from assms(3) [OF x(2)] obtain c' where c': "effect ''COMMIT TRANSACTION'' [] (content db2) = Some c'" "R x c'"
    by blast
  from Exec_ok [OF c'(1)] obtain db3 where "Exec A ''COMMIT TRANSACTION'' db2 = (Inr (), db3)"
    "content db3 = c'" by blast
  then have c: "Commit A db2 = (Inr False, db3)" "content db3 = c'" by (simp_all add: Commit_def)
  have "new_DBTransaction A db = (Inr True, db1)" using b(1) by (simp add: new_DBTransaction_def)
  moreover have "dbind body (\<lambda>x. dbind (Commit A) (\<lambda>_. dreturn x)) db1 = (Inr x, db3)"
    using x(1) c(1) by (simp add: dbind_def dreturn_def)
  ultimately show ?thesis using c'(2) c(2) by (simp add: transaction_def)
qed

subsection \<open>Queries\<close>

lemma UnpackImpl_ok:
  assumes "sq_errcode A db \<noteq> SQLITE_NOMEM" and "length fs = length ts"
    and "\<And>i. i < length ts \<Longrightarrow> Unpack1 A (ts ! i) st (idx + i) = Inr (fs ! i)"
  shows "UnpackImpl A db ts st idx = Inr fs"
  using assms(2,3)
proof (induction ts arbitrary: fs idx)
  case (Cons t ts)
  then obtain f fs' where fs: "fs = f # fs'" by (cases fs) auto
  have "Unpack1 A t st idx = Inr f" using Cons.prems(2) [of 0] fs by simp
  moreover have "Unpack1 A (ts ! i) st (idx + 1 + i) = Inr (fs' ! i)" if "i < length ts" for i
    using Cons.prems(2) [of "Suc i"] fs that by simp
  then have "UnpackImpl A db ts st (idx + 1) = Inr fs'" using Cons.IH Cons.prems(1) fs by simp
  ultimately show ?case using assms(1) fs by simp
qed simp

text \<open>A stream before the rows \<open>fss\<close>.\<close>

fun stream_at :: "coltype list \<Rightarrow> 'stmt DBInStream \<Rightarrow> 'db \<Rightarrow> field list list \<Rightarrow> bool" where
  "stream_at ts s db [] \<longleftrightarrow> is_next_row s = None"
| "stream_at ts s db (fs # fss) \<longleftrightarrow> is_next_row s = Some fs \<and>
     (\<exists>st rs. is_stmt s = Some st \<and> pending st db rs \<and> list_all2 (row_stored ts) rs fss)"

lemma Fetch_at:
  assumes "is_stmt s = Some st" and "pending st db rs" and "list_all2 (row_stored ts) rs fss"
  shows "\<exists>s' db'. Fetch A ts s db = (Inr s', db') \<and> stream_at ts s' db' fss \<and> content db' = content db"
proof (cases rs)
  case Nil
  then have "fss = []" using assms(3) by simp
  with Nil step_end [of st db] assms(1,2) show ?thesis by (auto simp: Fetch_def)
next
  case (Cons r rs')
  then obtain fs fss' where fss: "fss = fs # fss'" "row_stored ts r fs" "list_all2 (row_stored ts) rs' fss'"
    using assms(3) by (auto simp: list_all2_Cons1)
  from step_row [of st db r rs'] assms(2) Cons obtain st' db' where
    st': "sq_step A st db = (SQLITE_ROW, st', db')" "pending st' db' rs'" "content db' = content db"
      "sq_errcode A db' \<noteq> SQLITE_NOMEM"
    and col: "\<forall>i < length r. (\<forall>x. r ! i = SqlInt x \<longrightarrow> sq_column_int64 A st' i = x) \<and>
        (\<forall>x. r ! i = SqlReal x \<longrightarrow> sq_column_double A st' i = x) \<and>
        (\<forall>x. r ! i = SqlText x \<longrightarrow> sq_column_text A st' i = Some (takeWhile (\<lambda>c. c \<noteq> NUL) x))"
    by blast
  have "Unpack1 A (ts ! i) st' (0 + i) = Inr (fs ! i)" if "i < length ts" for i
  proof -
    have "stored (r ! i) (ts ! i) (fs ! i)" "i < length r"
      using fss(2) that unfolding row_stored_def by auto
    with col show ?thesis by (cases "r ! i") auto
  qed
  then have "UnpackImpl A db' ts st' 0 = Inr fs"
    using UnpackImpl_ok [OF st'(4)] fss(2) unfolding row_stored_def by blast
  with st' assms(1) fss(1,3) show ?thesis
    by (auto simp: Fetch_def SQLITE_ROW_def SQLITE_DONE_def)
qed

lemma Read_at:
  assumes "stream_at ts s db (fs # fss)"
  shows "\<exists>s' db'. Read A ts s db = (Inr (fs, s'), db') \<and> stream_at ts s' db' fss \<and> content db' = content db"
proof -
  obtain st rs where st: "is_next_row s = Some fs" "is_stmt s = Some st" "pending st db rs"
    "list_all2 (row_stored ts) rs fss" using assms by auto
  from Fetch_at [OF st(2-4)] st(1) show ?thesis by (auto simp: Read_def)
qed

lemma for_rows_at:
  assumes "it_attached it" and "stream_at ts s db fss" and "Suc (length fss) < k"
  shows "\<exists>db'. for_rows k A ts body (it, s) acc db = (Inr (fold body (it_value it # fss) acc), db') \<and>
    content db' = content db"
  using assms
proof (induction fss arbitrary: it s db acc k)
  case Nil
  then obtain k' where k: "k = Suc (Suc k')" by (cases k; cases "k - 1") auto
  have "it_next A ts (it, s) db = (Inr (it\<lparr>it_attached := False\<rparr>, s), db)"
    using Nil by (simp add: it_next_def it_Fetch_def Eof_def)
  then show ?case using Nil k by (simp add: it_equal_def it_end_def)
next
  case (Cons fs fss)
  then obtain k' where k: "k = Suc k'" "Suc (length fss) < k'" by (cases k) auto
  from Read_at [OF Cons.prems(2)] obtain s' db' where r: "Read A ts s db = (Inr (fs, s'), db')"
    "stream_at ts s' db' fss" "content db' = content db" by blast
  have next': "it_next A ts (it, s) db = (Inr (it\<lparr>it_value := fs\<rparr>, s'), db')"
    using Cons.prems(1,2) r(1) by (simp add: it_next_def it_Fetch_def Eof_def)
  have "it_attached (it\<lparr>it_value := fs\<rparr>)" using Cons.prems(1) by simp
  from Cons.IH [OF this r(2) k(2), of "body (it_value it) acc"] next' r(3) Cons.prems(1) k(1)
  show ?case by (simp add: it_equal_def it_end_def)
qed

text \<open>The loop over a query sees every row, in order.\<close>

lemma for_query_ok:
  assumes "params sql = Some 0" and "valid sql (content db)" and "result_rows sql (content db) = Some rs"
    and "list_all2 (row_stored ts) rs fss" and "Suc (length fss) < k"
  shows "\<exists>db'. for_query k A ts sql body acc db = (Inr (fold body fss acc), db') \<and> content db' = content db"
proof -
  from prepare_ok [OF assms(1,2)] obtain st where st: "sq_prepare A sql db = (SQLITE_OK, st)" "ready st sql []"
    by blast
  from query_pending [OF st(2) assms(1,3)] have "pending st db rs" .
  from Fetch_at [OF _ this assms(4), of "\<lparr>is_stmt = Some st, is_next_row = None\<rparr>"] obtain s db1 where
    s: "Fetch A ts \<lparr>is_stmt = Some st, is_next_row = None\<rparr> db = (Inr s, db1)" "stream_at ts s db1 fss"
      "content db1 = content db" by auto
  have q: "Query A ts sql db = (Inr s, db1)" using st(1) s(1) by (simp add: Query_def PrepareStmt_def)
  show ?thesis
  proof (cases fss)
    case Nil
    have "it_begin A ts s db1 = (Inr (\<lparr>it_attached = False, it_value = []\<rparr>, s), db1)"
      using s(2) Nil by (simp add: it_begin_def it_Fetch_def Eof_def)
    moreover obtain k' where "k = Suc k'" using assms(5) by (cases k) auto
    ultimately show ?thesis
      using q s(3) Nil by (simp add: for_query_def it_equal_def it_end_def)
  next
    case (Cons fs fss')
    from Read_at [OF s(2) [unfolded Cons]] obtain s' db' where
      r: "Read A ts s db1 = (Inr (fs, s'), db')" "stream_at ts s' db' fss'" "content db' = content db1" by blast
    have "it_begin A ts s db1 = (Inr (\<lparr>it_attached = True, it_value = fs\<rparr>, s'), db')"
      using s(2) Cons r(1) by (simp add: it_begin_def it_Fetch_def Eof_def)
    with for_rows_at [OF _ r(2), of "\<lparr>it_attached = True, it_value = fs\<rparr>" k body acc] assms(5) q r(3) s(3) Cons
    show ?thesis by (simp add: for_query_def)
  qed
qed

end

section \<open>Values survive the database\<close>

definition no_nul :: "string \<Rightarrow> bool" where
  "no_nul s \<longleftrightarrow> NUL \<notin> set s"

lemma strncpy_no_nul [simp]: "no_nul s \<Longrightarrow> strncpy s = s"
proof -
  assume "no_nul s"
  then have whole: "takeWhile (\<lambda>c. c \<noteq> NUL) s = s" "dropWhile (\<lambda>c. c \<noteq> NUL) s = []"
    unfolding takeWhile_eq_all_conv dropWhile_eq_Nil_conv no_nul_def by auto
  show ?thesis unfolding strncpy_def whole by simp
qed

lemma takeWhile_strncpy: "takeWhile (\<lambda>c. c \<noteq> NUL) (strncpy s) = takeWhile (\<lambda>c. c \<noteq> NUL) s"
proof -
  have "takeWhile (\<lambda>c. c \<noteq> NUL) (map (\<lambda>_. NUL) xs) = []" for xs :: string by (cases xs) auto
  then show ?thesis
    unfolding strncpy_def by (subst takeWhile_append2) (auto dest: set_takeWhileD)
qed

end
