(* ===== verification/Sql_Statements.thy ===== *)
theory Sql_Statements
  imports Db_Lib "HOL-Library.Multiset"
begin

text \<open>
  The SQL text of the program (src/src/hash_cache.cpp, src/src/db_output.cpp) and what it means:
  the tables its scripts create and the effect of its statements with the constraints of these
  tables (UNIQUE and PRIMARY KEY columns, the foreign key of Node). A table is the list of its
  rows. At the end, an in-memory database that satisfies the laws of SQLite for these statements.
\<close>

section \<open>The statements\<close>

definition begin_sql :: string where "begin_sql = ''BEGIN TRANSACTION''"
definition commit_sql :: string where "commit_sql = ''COMMIT TRANSACTION''"

subsection \<open>The checksum cache\<close>

definition create_file_list :: string where
  "create_file_list =
     ''DROP TABLE IF EXISTS FileList;'' @
     ''CREATE TABLE FileList('' @
     ''path           TEXT    UNIQUE NOT NULL,'' @
     ''cksum          INTEGER NOT NULL,'' @
     ''size           INTEGER NOT NULL,'' @
     ''mtime          INTEGER NOT NULL);''"

definition insert_file :: string where
  "insert_file = ''INSERT INTO FileList(path, cksum, size, mtime) VALUES(?, ?, ?, ?)''"

definition select_files :: string where
  "select_files = ''SELECT path, cksum, size, mtime FROM FileList''"

subsection \<open>The results of duplicate detection\<close>

definition create_results :: string where
  "create_results =
     ''DROP TABLE IF EXISTS Node;'' @
     ''DROP TABLE IF EXISTS EqClass;'' @
     ''CREATE TABLE EqClass('' @
     ''id INT PRIMARY  KEY     NOT NULL,'' @
     ''nodes           INT     NOT NULL,'' @
     ''weight          DOUBLE  NOT NULL,'' @
     ''interesting     BOOL    NOT NULL);'' @
     ''CREATE TABLE Node('' @
     ''id INT PRIMARY  KEY     NOT NULL,'' @
     ''name            TEXT    NOT NULL,'' @
     ''path            TEXT    NOT NULL,'' @
     ''type            CHAR(5) NOT NULL,'' @
     ''cksum           INTEGER,'' @
     ''unique_fraction DOUBLE  NOT NULL,'' @
     ''eq_class        INT     NOT NULL,'' @
     ''FOREIGN KEY(eq_class) REFERENCES EqClass(id)'' @
     ''ON UPDATE RESTRICT ON DELETE RESTRICT);''"

definition insert_class :: string where
  "insert_class = ''INSERT INTO EqClass(id, nodes, weight, interesting) '' @ ''VALUES(?, ?, ?, 0)''"

definition insert_node :: string where
  "insert_node = ''INSERT INTO Node('' @ ''id, name, path, type, unique_fraction, eq_class) '' @
     ''VALUES(?, ?, ?, ?, ?, ?)''"

definition mark_interesting :: string where
  "mark_interesting = ''UPDATE EqClass SET interesting = 1 WHERE id == ?''"

subsection \<open>The results of a comparison\<close>

definition create_comparison :: string where
  "create_comparison =
     ''DROP TABLE IF EXISTS Removed;'' @
     ''DROP TABLE IF EXISTS NewFile;'' @
     ''DROP TABLE IF EXISTS ContentChanged;'' @
     ''DROP TABLE IF EXISTS OverwrittenBy;'' @
     ''DROP TABLE IF EXISTS CopiedFrom;'' @
     ''DROP TABLE IF EXISTS RenameTo;'' @
     ''CREATE TABLE Removed('' @
     ''path            TEXT    NOT NULL UNIQUE);'' @
     ''CREATE TABLE NewFile('' @
     ''path            TEXT    NOT NULL UNIQUE);'' @
     ''CREATE TABLE ContentChanged('' @
     ''path            TEXT    NOT NULL UNIQUE);'' @
     ''CREATE TABLE OverwrittenBy('' @
     ''path            TEXT    NOT NULL,'' @
     ''candidate_by    TEXT    NOT NULL);'' @
     ''CREATE TABLE CopiedFrom('' @
     ''path            TEXT    NOT NULL,'' @
     ''candidate_from  TEXT    NOT NULL);'' @
     ''CREATE TABLE RenameTo('' @
     ''path            TEXT    NOT NULL,'' @
     ''candidate_to    TEXT    NOT NULL);''"

definition insert_removed :: string where "insert_removed = ''INSERT INTO Removed(path) VALUES(?)''"
definition insert_new_file :: string where "insert_new_file = ''INSERT INTO NewFile(path) VALUES(?)''"
definition insert_content_changed :: string where
  "insert_content_changed = ''INSERT INTO ContentChanged(path) VALUES(?)''"
definition insert_overwritten_by :: string where
  "insert_overwritten_by = ''INSERT INTO OverwrittenBy(path, candidate_by) VALUES(?, ?)''"
definition insert_copied_from :: string where
  "insert_copied_from = ''INSERT INTO CopiedFrom(path, candidate_from) VALUES(?, ?)''"
definition insert_rename_to :: string where
  "insert_rename_to = ''INSERT INTO RenameTo(path, candidate_to) VALUES(?, ?)''"

section \<open>Their meaning\<close>

text \<open>The tables of the program, each present or not.\<close>

datatype table = FileList | EqClassTable | NodeTable |
  RemovedTable | NewFileTable | ContentChangedTable | OverwrittenByTable | CopiedFromTable | RenameToTable

type_synonym tables = "table \<rightharpoonup> sql_value list list"

text \<open>A connection's database: the tables and whether a transaction is ongoing.\<close>

type_synonym database = "tables \<times> bool"

text \<open>The kind of a statement: a script that creates tables, an insertion into a table, and so on.\<close>

datatype statement =
    BeginTransaction
  | CommitTransaction
  | Pragmas
  | Create "table list"
  | Insert table
  | MarkInteresting
  | SelectFiles

text \<open>The statement a text is, with its number of parameters.\<close>

definition statements :: "(string \<times> nat \<times> statement) list" where
  "statements =
     [(begin_sql, 0, BeginTransaction), (commit_sql, 0, CommitTransaction), (connection_pragmas, 0, Pragmas),
      (create_file_list, 0, Create [FileList]),
      (insert_file, 4, Insert FileList), (select_files, 0, SelectFiles),
      (create_results, 0, Create [NodeTable, EqClassTable]),
      (insert_class, 3, Insert EqClassTable), (insert_node, 6, Insert NodeTable),
      (mark_interesting, 1, MarkInteresting),
      (create_comparison, 0, Create [RemovedTable, NewFileTable, ContentChangedTable, OverwrittenByTable,
         CopiedFromTable, RenameToTable]),
      (insert_removed, 1, Insert RemovedTable), (insert_new_file, 1, Insert NewFileTable),
      (insert_content_changed, 1, Insert ContentChangedTable),
      (insert_overwritten_by, 2, Insert OverwrittenByTable), (insert_copied_from, 2, Insert CopiedFromTable),
      (insert_rename_to, 2, Insert RenameToTable)]"

definition statement_of :: "string \<Rightarrow> statement option" where
  "statement_of sql = map_option snd (map_of statements sql)"

definition sql_params :: "string \<Rightarrow> nat option" where
  "sql_params sql = map_option fst (map_of statements sql)"

text \<open>The first column of these tables is unique.\<close>

definition unique_first :: "table \<Rightarrow> bool" where
  "unique_first t \<longleftrightarrow>
     t \<in> {FileList, EqClassTable, NodeTable, RemovedTable, NewFileTable, ContentChangedTable}"

text \<open>The row a table gets from the parameters: a class is not interesting yet, the column cksum of a
  node is not given.\<close>

fun new_row :: "table \<Rightarrow> sql_value list \<Rightarrow> sql_value list" where
  "new_row EqClassTable vs = vs @ [SqlInt 0]"
| "new_row NodeTable [i, nm, path, ty, fr, c] = [i, nm, path, ty, SqlNull, fr, c]"
| "new_row t vs = vs"

text \<open>The class of a new node must exist.\<close>

definition references_ok :: "table \<Rightarrow> sql_value list \<Rightarrow> tables \<Rightarrow> bool" where
  "references_ok t row T \<longleftrightarrow>
     (t = NodeTable \<longrightarrow> (\<exists>cs. T EqClassTable = Some cs \<and> last row \<in> hd ` set cs))"

definition insert_row :: "table \<Rightarrow> sql_value list \<Rightarrow> tables \<Rightarrow> tables option" where
  "insert_row t row T =
     (case T t of
        None \<Rightarrow> None
      | Some rows \<Rightarrow>
          if unique_first t \<and> hd row \<in> hd ` set rows then None
          else if references_ok t row T then Some (T(t \<mapsto> rows @ [row])) else None)"

definition mark_row :: "sql_value \<Rightarrow> sql_value list \<Rightarrow> sql_value list" where
  "mark_row v row = (if hd row = v then row[3 := SqlInt 1] else row)"

fun statement_effect :: "statement \<Rightarrow> sql_value list \<Rightarrow> database \<Rightarrow> database option" where
  "statement_effect BeginTransaction vs (T, ongoing) = (if ongoing then None else Some (T, True))"
| "statement_effect CommitTransaction vs (T, ongoing) = (if ongoing then Some (T, False) else None)"
| "statement_effect Pragmas vs D = Some D"
| "statement_effect (Create ts) vs (T, ongoing) = Some (\<lambda>t. if t \<in> set ts then Some [] else T t, ongoing)"
| "statement_effect (Insert t) vs (T, ongoing) =
     map_option (\<lambda>T'. (T', ongoing)) (insert_row t (new_row t vs) T)"
| "statement_effect MarkInteresting vs (T, ongoing) =
     map_option (\<lambda>rows. (T(EqClassTable \<mapsto> map (mark_row (hd vs)) rows), ongoing)) (T EqClassTable)"
| "statement_effect SelectFiles vs D = None"

definition sql_effect :: "string \<Rightarrow> sql_value list \<Rightarrow> database \<Rightarrow> database option" where
  "sql_effect sql vs D = Option.bind (statement_of sql) (\<lambda>s. statement_effect s vs D)"

text \<open>The tables a prepared statement names.\<close>

fun names_tables :: "statement \<Rightarrow> table set" where
  "names_tables (Insert t) = {t}"
| "names_tables MarkInteresting = {EqClassTable}"
| "names_tables SelectFiles = {FileList}"
| "names_tables s = {}"

definition sql_valid :: "string \<Rightarrow> database \<Rightarrow> bool" where
  "sql_valid sql D \<longleftrightarrow> (\<exists>s. statement_of sql = Some s \<and> names_tables s \<subseteq> dom (fst D))"

lemma distinct_statements: "distinct (map fst statements)"
  by code_simp

lemma statement_simps:
  "(sql, n, s) \<in> set statements \<Longrightarrow> statement_of sql = Some s \<and> sql_params sql = Some n"
  using map_of_eq_Some_iff [OF distinct_statements, of sql "(n, s)"]
  by (simp add: statement_of_def sql_params_def)

lemma all_statements:
  "list_all (\<lambda>(sql, n, s). statement_of sql = Some s \<and> sql_params sql = Some n) statements"
  using statement_simps by (auto simp: list_all_iff)

lemma statement_texts [simp]:
  "statement_of begin_sql = Some BeginTransaction" "statement_of commit_sql = Some CommitTransaction"
  "statement_of create_file_list = Some (Create [FileList])"
  "statement_of insert_file = Some (Insert FileList)" "statement_of select_files = Some SelectFiles"
  "statement_of create_results = Some (Create [NodeTable, EqClassTable])"
  "statement_of insert_class = Some (Insert EqClassTable)" "statement_of insert_node = Some (Insert NodeTable)"
  "statement_of mark_interesting = Some MarkInteresting"
  "statement_of create_comparison = Some (Create [RemovedTable, NewFileTable, ContentChangedTable,
     OverwrittenByTable, CopiedFromTable, RenameToTable])"
  "statement_of insert_removed = Some (Insert RemovedTable)"
  "statement_of insert_new_file = Some (Insert NewFileTable)"
  "statement_of insert_content_changed = Some (Insert ContentChangedTable)"
  "statement_of insert_overwritten_by = Some (Insert OverwrittenByTable)"
  "statement_of insert_copied_from = Some (Insert CopiedFromTable)"
  "statement_of insert_rename_to = Some (Insert RenameToTable)"
  "statement_of connection_pragmas = Some Pragmas"
  using all_statements unfolding statements_def by simp_all

lemma statement_params [simp]:
  "sql_params begin_sql = Some 0" "sql_params commit_sql = Some 0" "sql_params create_file_list = Some 0"
  "sql_params insert_file = Some 4" "sql_params select_files = Some 0" "sql_params create_results = Some 0"
  "sql_params insert_class = Some 3" "sql_params insert_node = Some 6" "sql_params mark_interesting = Some 1"
  "sql_params create_comparison = Some 0" "sql_params insert_removed = Some 1"
  "sql_params insert_new_file = Some 1" "sql_params insert_content_changed = Some 1"
  "sql_params insert_overwritten_by = Some 2" "sql_params insert_copied_from = Some 2"
  "sql_params insert_rename_to = Some 2" "sql_params connection_pragmas = Some 0"
  using all_statements unfolding statements_def by simp_all

section \<open>SQLite and these statements\<close>

text \<open>SQLite with this meaning of the statements; the order of the rows of the query is not
  specified.\<close>

locale dupa_sqlite = sqlite A content sql_params sql_valid sql_effect result_rows ready finished pending
  for A :: "('db, 'stmt) sqlite_api" and content :: "'db \<Rightarrow> database" and result_rows ready finished pending +
  assumes select_rows: "fst D FileList = Some rows \<Longrightarrow>
      \<exists>rs. result_rows select_files D = Some rs \<and> mset rs = mset rows"
    and no_rows: "statement_of sql \<noteq> Some SelectFiles \<Longrightarrow> result_rows sql D = None"

subsection \<open>A database in memory\<close>

text \<open>A connection is the tables; a statement is its text, the bound values and, once the query has
  been stepped, the rows to come.\<close>

record mem_stmt =
  ms_sql :: string
  ms_bound :: "sql_value list"
  ms_rows :: "sql_value list list option"
  ms_row :: "sql_value list"

definition mem_rows :: "string \<Rightarrow> database \<Rightarrow> sql_value list list option" where
  "mem_rows sql D = (if statement_of sql = Some SelectFiles then fst D FileList else None)"

definition mem_step :: "mem_stmt \<Rightarrow> database \<Rightarrow> int \<times> mem_stmt \<times> database" where
  "mem_step st D =
     (if statement_of (ms_sql st) = Some SelectFiles then
        (case (case ms_rows st of None \<Rightarrow> fst D FileList | Some rs \<Rightarrow> Some rs) of
           None \<Rightarrow> (1, st, D)
         | Some [] \<Rightarrow> (SQLITE_DONE, st, D)
         | Some (r # rs) \<Rightarrow> (SQLITE_ROW, st\<lparr>ms_rows := Some rs, ms_row := r\<rparr>, D))
      else
        (case sql_effect (ms_sql st) (ms_bound st) D of
           None \<Rightarrow> (1, st, D)
         | Some D' \<Rightarrow> (SQLITE_DONE, st, D')))"

definition mem_api :: "(database, mem_stmt) sqlite_api" where
  "mem_api =
     \<lparr>sq_exec = \<lambda>sql D. (case sql_effect sql [] D of None \<Rightarrow> ((1, ''error''), D) | Some D' \<Rightarrow> ((SQLITE_OK, []), D')),
      sq_prepare = \<lambda>sql D. (if sql_valid sql D then SQLITE_OK else 1,
        \<lparr>ms_sql = sql, ms_bound = [], ms_rows = None, ms_row = []\<rparr>),
      sq_bind = \<lambda>i v st. if i = Suc (length (ms_bound st)) then (SQLITE_OK, st\<lparr>ms_bound := ms_bound st @ [v]\<rparr>)
        else (25, st),
      sq_step = mem_step,
      sq_clear_bindings = \<lambda>st. (SQLITE_OK, st\<lparr>ms_bound := []\<rparr>),
      sq_reset = \<lambda>st. (SQLITE_OK, st\<lparr>ms_rows := None\<rparr>),
      sq_column_int64 = \<lambda>st i. (case ms_row st ! i of SqlInt x \<Rightarrow> x | _ \<Rightarrow> 0),
      sq_column_double = \<lambda>st i. (case ms_row st ! i of SqlReal x \<Rightarrow> x | _ \<Rightarrow> 0),
      sq_column_text = \<lambda>st i. (case ms_row st ! i of SqlText x \<Rightarrow> Some (takeWhile (\<lambda>c. c \<noteq> NUL) x) | _ \<Rightarrow> None),
      sq_errcode = \<lambda>D. 0, sq_errmsg = \<lambda>D. ''error'', sq_errstr = \<lambda>c. ''error''\<rparr>"

definition mem_ready :: "mem_stmt \<Rightarrow> string \<Rightarrow> sql_value list \<Rightarrow> bool" where
  "mem_ready st sql vs \<longleftrightarrow> ms_sql st = sql \<and> ms_bound st = vs \<and> ms_rows st = None"

definition mem_finished :: "mem_stmt \<Rightarrow> string \<Rightarrow> sql_value list \<Rightarrow> bool" where
  "mem_finished st sql vs \<longleftrightarrow> ms_sql st = sql \<and> ms_bound st = vs"

definition mem_pending :: "mem_stmt \<Rightarrow> database \<Rightarrow> sql_value list list \<Rightarrow> bool" where
  "mem_pending st D rs \<longleftrightarrow> statement_of (ms_sql st) = Some SelectFiles \<and>
     (case ms_rows st of None \<Rightarrow> fst D FileList | Some rs' \<Rightarrow> Some rs') = Some rs"

lemma select_no_effect: "statement_of sql = Some SelectFiles \<Longrightarrow> sql_effect sql vs D = None"
  by (simp add: sql_effect_def)

interpretation mem: dupa_sqlite mem_api "\<lambda>D. D" mem_rows mem_ready mem_finished mem_pending
proof unfold_locales
  fix sql :: string and st :: mem_stmt and vs D c n v r rs
  show "\<exists>msg D'. sq_exec mem_api sql D = ((SQLITE_OK, msg), D') \<and> D' = c" if "sql_effect sql [] D = Some c"
    using that by (simp add: mem_api_def)
  show "\<exists>code msg D'. sq_exec mem_api sql D = ((code, msg), D') \<and> code \<noteq> SQLITE_OK"
    if "sql_effect sql [] D = None"
    using that by (simp add: mem_api_def SQLITE_OK_def)
  show "\<exists>st. sq_prepare mem_api sql D = (SQLITE_OK, st) \<and> mem_ready st sql []" if "sql_valid sql D"
    using that by (simp add: mem_api_def mem_ready_def)
  show "\<exists>st'. sq_bind mem_api (Suc (length vs)) v st = (SQLITE_OK, st') \<and> mem_ready st' sql (vs @ [v])"
    if "mem_ready st sql vs"
    using that by (simp add: mem_api_def mem_ready_def)
  show "\<exists>st' D'. sq_step mem_api st D = (SQLITE_DONE, st', D') \<and> D' = c \<and> mem_finished st' sql vs"
    if "mem_ready st sql vs" "sql_effect sql vs D = Some c"
  proof -
    have "statement_of sql \<noteq> Some SelectFiles" using that(2) select_no_effect by fastforce
    with that show ?thesis by (simp add: mem_api_def mem_ready_def mem_finished_def mem_step_def)
  qed
  show "\<exists>code st' D'. sq_step mem_api st D = (code, st', D') \<and> code \<noteq> SQLITE_DONE"
    if "mem_ready st sql vs" "mem_rows sql D = None" "sql_effect sql vs D = None"
    using that by (auto simp: mem_api_def mem_ready_def mem_step_def mem_rows_def SQLITE_DONE_def split: if_splits)
  show "\<exists>st'. sq_clear_bindings mem_api st = (SQLITE_OK, st') \<and> mem_finished st' sql []"
    if "mem_finished st sql vs"
    using that by (simp add: mem_api_def mem_finished_def)
  show "\<exists>st'. sq_reset mem_api st = (SQLITE_OK, st') \<and> mem_ready st' sql vs" if "mem_finished st sql vs"
    using that by (simp add: mem_api_def mem_finished_def mem_ready_def)
  show "mem_pending st D rs" if "mem_ready st sql []" "mem_rows sql D = Some rs"
    using that by (simp add: mem_ready_def mem_pending_def mem_rows_def split: if_splits)
  show "\<exists>st' D'. sq_step mem_api st D = (SQLITE_ROW, st', D') \<and> mem_pending st' D' rs \<and> D' = D \<and>
      sq_errcode mem_api D' \<noteq> SQLITE_NOMEM \<and>
      (\<forall>i < length r. (\<forall>x. r ! i = SqlInt x \<longrightarrow> sq_column_int64 mem_api st' i = x) \<and>
        (\<forall>x. r ! i = SqlReal x \<longrightarrow> sq_column_double mem_api st' i = x) \<and>
        (\<forall>x. r ! i = SqlText x \<longrightarrow> sq_column_text mem_api st' i = Some (takeWhile (\<lambda>c. c \<noteq> NUL) x)))"
    if "mem_pending st D (r # rs)"
    using that by (simp add: mem_api_def mem_pending_def mem_step_def SQLITE_NOMEM_def)
  show "\<exists>st' D'. sq_step mem_api st D = (SQLITE_DONE, st', D') \<and> D' = D" if "mem_pending st D []"
    using that by (simp add: mem_api_def mem_pending_def mem_step_def)
  show "\<exists>rs'. mem_rows select_files D = Some rs' \<and> mset rs' = mset rs" if "fst D FileList = Some rs"
    using that by (simp add: mem_rows_def)
  show "mem_rows sql D = None" if "statement_of sql \<noteq> Some SelectFiles"
    using that by (simp add: mem_rows_def)
qed

section \<open>Sequences of insertions\<close>

lemma transaction_effects [simp]:
  "sql_effect begin_sql vs (T, False) = Some (T, True)" "sql_effect commit_sql vs (T, True) = Some (T, False)"
  by (simp_all add: sql_effect_def)

lemma new_row_other [simp]: "t \<noteq> EqClassTable \<Longrightarrow> t \<noteq> NodeTable \<Longrightarrow> new_row t vs = vs"
  by (cases t) simp_all

lemma new_row_hd: "vs \<noteq> [] \<Longrightarrow> hd (new_row t vs) = hd vs"
  by (cases "(t, vs)" rule: new_row.cases) auto

text \<open>Rows with new keys and valid references are appended in order.\<close>

lemma insert_effects:
  assumes "statement_of sql = Some (Insert t)" and "T t = Some rows"
    and "unique_first t \<Longrightarrow> distinct (map (\<lambda>vs. hd (new_row t vs)) vss) \<and>
      hd ` set rows \<inter> (\<lambda>vs. hd (new_row t vs)) ` set vss = {}"
    and "\<And>vs. vs \<in> set vss \<Longrightarrow> references_ok t (new_row t vs) T"
  shows "effects sql_effect sql vss (T, b) = Some (T(t \<mapsto> rows @ map (new_row t) vss), b)"
  using assms(2-)
proof (induction vss arbitrary: T rows)
  case Nil
  then show ?case by (simp add: fun_upd_idem)
next
  case (Cons vs vss)
  let ?row = "new_row t vs"
  have fresh: "\<not> (unique_first t \<and> hd ?row \<in> hd ` set rows)" using Cons.prems(2) by auto
  have e: "sql_effect sql vs (T, b) = Some (T(t \<mapsto> rows @ [?row]), b)"
    unfolding sql_effect_def assms(1)
    using Cons.prems(1) Cons.prems(3) [of vs] fresh by (simp add: insert_row_def)
  have "references_ok t (new_row t ws) (T(t \<mapsto> rows @ [?row]))" if "ws \<in> set vss" for ws
    using Cons.prems(3) [of ws] that by (auto simp: references_ok_def)
  moreover have "unique_first t \<Longrightarrow>
      distinct (map (\<lambda>vs. hd (new_row t vs)) vss) \<and>
      hd ` set (rows @ [?row]) \<inter> (\<lambda>vs. hd (new_row t vs)) ` set vss = {}"
    using Cons.prems(2) by auto
  ultimately have "effects sql_effect sql vss (T(t \<mapsto> rows @ [?row]), b) =
      Some ((T(t \<mapsto> rows @ [?row]))(t \<mapsto> (rows @ [?row]) @ map (new_row t) vss), b)"
    by (intro Cons.IH) (simp_all del: fun_upd_apply add: fun_upd_same)
  with e show ?case by (simp add: fun_upd_upd del: fun_upd_apply)
qed

context dupa_sqlite
begin

text \<open>Writing a sequence into the stream of an insertion.\<close>

lemma insert_all:
  assumes "ready st sql []" and "statement_of sql = Some (Insert t)"
    and "\<And>x. x \<in> set xs \<Longrightarrow> sql_params sql = Some (length (f x))"
    and "content db = (T, b)" and "T t = Some rows"
    and "unique_first t \<Longrightarrow> distinct (map (\<lambda>x. hd (new_row t (map bind_value (f x)))) xs) \<and>
      hd ` set rows \<inter> (\<lambda>x. hd (new_row t (map bind_value (f x)))) ` set xs = {}"
    and "\<And>x. x \<in> set xs \<Longrightarrow> references_ok t (new_row t (map bind_value (f x))) T"
  shows "\<exists>st' db'. transform_to A f xs st db = (Inr st', db') \<and> ready st' sql [] \<and>
    content db' = (T(t \<mapsto> rows @ map (\<lambda>x. new_row t (map bind_value (f x))) xs), b)"
proof -
  have "effects sql_effect sql (map (\<lambda>x. map bind_value (f x)) xs) (T, b) =
      Some (T(t \<mapsto> rows @ map (new_row t) (map (\<lambda>x. map bind_value (f x)) xs)), b)"
  proof (rule insert_effects [where T = T and rows = rows, OF assms(2,5)])
    show "distinct (map (\<lambda>vs. hd (new_row t vs)) (map (\<lambda>x. map bind_value (f x)) xs)) \<and>
        hd ` set rows \<inter> (\<lambda>vs. hd (new_row t vs)) ` set (map (\<lambda>x. map bind_value (f x)) xs) = {}"
      if "unique_first t"
      using assms(6) [OF that] by (simp add: comp_def image_image)
    show "references_ok t (new_row t vs) T" if "vs \<in> set (map (\<lambda>x. map bind_value (f x)) xs)" for vs
      using that assms(7) by auto
  qed
  then have "effects sql_effect sql (map (\<lambda>x. map bind_value (f x)) xs) (content db) =
      Some (T(t \<mapsto> rows @ map (\<lambda>x. new_row t (map bind_value (f x))) xs), b)"
    by (simp add: assms(4) comp_def del: fun_upd_apply)
  from transform_ok [OF assms(1) _ this] assms(3) show ?thesis by blast
qed

end

context dupa_sqlite
begin

text \<open>A transaction whose body succeeds.\<close>

lemma transaction_body:
  assumes "content db = (T, False)"
    and "\<And>db1. content db1 = (T, True) \<Longrightarrow> \<exists>x db2. body db1 = (Inr x, db2) \<and> content db2 = (T', True)"
  shows "\<exists>x db'. transaction A body db = (Inr x, db') \<and> content db' = (T', False)"
  by (rule transaction_ok [where Q = "\<lambda>x c. c = (T', True)", OF _ assms(2)])
    (simp_all add: begin_sql_def [symmetric] commit_sql_def [symmetric] assms(1))

end

end
