(* ===== verification/Dedup_Db.thy ===== *)
theory Dedup_Db
  imports Run_Properties Sql_Statements
begin

text \<open>
  The results of duplicate detection in a database (src/src/db_output.cpp): the tables of classes and
  nodes, and the marks of the interesting classes. The key of a row is the address of the object; the
  addresses (\<open>at_class\<close>, \<open>at_node\<close>) are parameters.
\<close>

section \<open>The operations\<close>

definition CreateResultsDatabase :: "('db, 'stmt) sqlite_api \<Rightarrow> (unit, 'db) dbm" where
  "CreateResultsDatabase A = Exec A create_results"

definition DumpInterestingEqClasses ::
  "('db, 'stmt) sqlite_api \<Rightarrow> (cid \<Rightarrow> 64 word) \<Rightarrow> cid list \<Rightarrow> (unit, 'db) dbm" where
  "DumpInterestingEqClasses A at_class eq_classes =
     transaction A (
       dbind (Prepare A mark_interesting) (\<lambda>out.
       dbind (transform_to A (\<lambda>c. [IntField (at_class c)]) eq_classes out) (\<lambda>_. dreturn ())))"

text \<open>A write of fields whose computation may fail.\<close>

definition write_fields :: "('db, 'stmt) sqlite_api \<Rightarrow> field list res \<Rightarrow> 'stmt \<Rightarrow> ('stmt, 'db) dbm" where
  "write_fields A fs stmt = (case fs of Inl e \<Rightarrow> dthrow e | Inr args \<Rightarrow> Write A args stmt)"

text \<open>The tuple of a class, with a \<open>size_t\<close>.\<close>

definition class_fields :: "(cid \<Rightarrow> 64 word) \<Rightarrow> heap \<Rightarrow> cid \<Rightarrow> field list res" where
  "class_fields at_class h c =
     deref (h_classes h c) (\<lambda>ec.
       Inr [IntField (at_class c), IntField (of_nat (ec_GetNumNodes ec)), DoubleField (ec_weight ec)])"

text \<open>The arguments of \<open>Write\<close> in the callback.\<close>

definition node_fields ::
  "'p path_api \<Rightarrow> (cid \<Rightarrow> 64 word) \<Rightarrow> (nid \<Rightarrow> 64 word) \<Rightarrow> heap \<Rightarrow> nid \<Rightarrow> field list res" where
  "node_fields P at_class at_node h n =
     deref (h_nodes h n) (\<lambda>nd.
     rbind (native_path P h n) (\<lambda>path.
     rbind (case nd_unique_fraction nd of
         None \<Rightarrow> Inl (Undefined ''unique_fraction_ is not initialised'') | Some f \<Rightarrow> Inr f) (\<lambda>unique_fraction.
     rbind (GetEqClass nd) (\<lambda>c.
       Inr [IntField (at_node n), StringField (nd_name nd), StringField path,
         StringField (if nd_type nd = FILE then ''FILE'' else ''DIR''),
         DoubleField unique_fraction, IntField (at_class c)]))))"

text \<open>\<open>Traverse\<close> of a constant tree; the callback changes the state \<open>'s\<close> and the database. The first
  argument bounds the depth.\<close>

fun Traverse_const ::
  "nat \<Rightarrow> heap \<Rightarrow> (nid \<Rightarrow> 's \<Rightarrow> ('s, 'db) dbm) \<Rightarrow> nid \<Rightarrow> 's \<Rightarrow> ('s, 'db) dbm" where
  "Traverse_const 0 h callback this s = dthrow OutOfFuel"
| "Traverse_const (Suc k) h callback this s =
     (case h_nodes h this of
        None \<Rightarrow> dthrow NullDeref
      | Some nd \<Rightarrow> dbind (dfold (Traverse_const k h callback) (nd_children nd) s) (callback this))"

definition DumpFuzzyDedupRes ::
  "('db, 'stmt) sqlite_api \<Rightarrow> 'p path_api \<Rightarrow> (cid \<Rightarrow> 64 word) \<Rightarrow> (nid \<Rightarrow> 64 word) \<Rightarrow>
   nid \<Rightarrow> cid list \<Rightarrow> heap \<Rightarrow> (unit, 'db) dbm" where
  "DumpFuzzyDedupRes A P at_class at_node root_node eq_classes h =
     transaction A (
       dbind (Prepare A insert_class) (\<lambda>class_out.
       dbind (dfold (\<lambda>c. write_fields A (class_fields at_class h c)) eq_classes class_out) (\<lambda>_.
       dbind (Prepare A insert_node) (\<lambda>node_out.
       dbind (Traverse_const (Suc (h_next_node h)) h
           (\<lambda>n. write_fields A (node_fields P at_class at_node h n)) root_node node_out) (\<lambda>_.
         dreturn ())))))"

section \<open>The rows\<close>

definition class_row :: "(cid \<Rightarrow> 64 word) \<Rightarrow> heap \<Rightarrow> bool \<Rightarrow> cid \<Rightarrow> sql_value list" where
  "class_row at_class h marked c =
     [SqlInt (sint (at_class c)), SqlInt (sint (of_nat (length (members h c)) :: 64 word)),
      SqlReal (weight_of h c), SqlInt (if marked then 1 else 0)]"

definition path_of :: "'p path_api \<Rightarrow> heap \<Rightarrow> nid \<Rightarrow> string" where
  "path_of P h n = p_native P (join_path P (map (name_of h) (lineage (Suc (h_next_node h)) h n)))"

definition node_row ::
  "'p path_api \<Rightarrow> (cid \<Rightarrow> 64 word) \<Rightarrow> (nid \<Rightarrow> 64 word) \<Rightarrow> heap \<Rightarrow> nid \<Rightarrow> sql_value list" where
  "node_row P at_class at_node h n =
     [SqlInt (sint (at_node n)), SqlText (strncpy (name_of h n)), SqlText (strncpy (path_of P h n)),
      SqlText (if is_file h n then ''FILE'' else ''DIR''), SqlNull, SqlReal (the (frac_of h n)),
      SqlInt (sint (at_class (the (class_of h n))))]"

section \<open>Reading the heap never fails\<close>

lemma class_fields_ok:
  assumes "members h c \<noteq> []"
  shows "\<exists>fs. class_fields at_class h c = Inr fs \<and> length fs = 3 \<and>
    new_row EqClassTable (map bind_value fs) = class_row at_class h False c"
  using assms
  by (auto simp: class_fields_def deref_def members_def weight_of_def class_row_def ec_GetNumNodes_def
      split: option.splits)

lemma node_fields_ok:
  assumes "tree_ok h" and "n \<in> dom (h_nodes h)" and "class_of h n \<noteq> None" and "frac_of h n \<noteq> None"
  shows "\<exists>fs. node_fields P at_class at_node h n = Inr fs \<and> length fs = 6 \<and>
    new_row NodeTable (map bind_value fs) = node_row P at_class at_node h n"
proof -
  obtain nd where nd: "h_nodes h n = Some nd" using assms(2) by blast
  obtain c f where cf: "nd_eq_class nd = Some c" "nd_unique_fraction nd = Some f"
    using assms(3,4) nd by (auto simp: class_of_def frac_of_def)
  have "n < Suc (h_next_node h)" using tree_okD(1) [OF assms(1,2)] by simp
  from BuildPath_eq [OF assms(1,2) this, of P] have "native_path P h n = Inr (path_of P h n)"
    by (simp add: native_path_def path_of_def)
  moreover have "strncpy ''FILE'' = ''FILE''" "strncpy ''DIR'' = ''DIR''" by (simp_all add: no_nul_def)
  ultimately show ?thesis
    using nd cf
    by (simp add: node_fields_def deref_def GetEqClass_def node_row_def name_of_def is_file_def
        frac_of_def class_of_def)
qed

section \<open>The traversal is a loop\<close>

lemma dbind_assoc: "dbind (dbind m f) g = dbind m (\<lambda>x. dbind (f x) g)"
  by (rule ext) (simp add: dbind_def split: sum.split prod.split)

lemma dfold_append: "dfold f (xs @ ys) s = dbind (dfold f xs s) (dfold f ys)"
proof (induction xs arbitrary: s)
  case Nil
  then show ?case by (simp add: fun_eq_iff)
next
  case (Cons x xs)
  then have "dfold f (xs @ ys) = (\<lambda>s. dbind (dfold f xs s) (dfold f ys))" by blast
  then show ?case by (simp add: dbind_assoc)
qed

lemma dfold_cong:
  "(\<And>x s. x \<in> set xs \<Longrightarrow> f x s = g x s) \<Longrightarrow> dfold f xs s = dfold g xs s"
proof (induction xs arbitrary: s)
  case (Cons x xs)
  then have "dfold f xs = dfold g xs" by (intro ext) simp
  with Cons.prems show ?case by simp
qed simp

lemma dfold_concat: "dfold (\<lambda>x. dfold f (g x)) xs s = dfold f (concat (map g xs)) s"
proof (induction xs arbitrary: s)
  case (Cons x xs)
  then have "dfold (\<lambda>x. dfold f (g x)) xs = dfold f (concat (map g xs))" by blast
  then show ?case by (simp add: dfold_append)
qed simp

lemma Traverse_const_eq:
  assumes "tree_ok h" and "n \<in> dom (h_nodes h)" and "h_next_node h - n \<le> k"
  shows "Traverse_const k h callback n s = dfold callback (nodes_below h n) s"
  using assms(1,2,3)
proof (induction arbitrary: k s rule: tree_induct)
  case (node n)
  obtain k' where k: "k = Suc k'"
    using node(3) tree_okD(1) [OF assms(1) node(1)] by (cases k) auto
  obtain nd where nd: "h_nodes h n = Some nd" using node(1) by blast
  have "dfold (Traverse_const k' h callback) (children_of h n) s =
      dfold (\<lambda>c. dfold callback (nodes_below h c)) (children_of h n) s"
    by (rule dfold_cong) (use node(2) child_bound(1) [OF assms(1)] node(3) k in force)
  moreover have cs: "nd_children nd = children_of h n" using nd by (metis children_of_node)
  moreover have "dfold callback [n] = callback n"
    by (intro ext) (simp add: dbind_def dreturn_def split: sum.split prod.split)
  moreover have "Traverse_const k h callback n s =
      dbind (dfold (Traverse_const k' h callback) (nd_children nd) s) (callback n)"
    by (simp add: k nd)
  ultimately show ?case
    unfolding nodes_below_rec [OF assms(1) node(1)] dfold_append dfold_concat by metis
qed

text \<open>When no field fails, the writes are a transformation of the sequence.\<close>

lemma write_all:
  assumes "\<And>x. x \<in> set xs \<Longrightarrow> f x = Inr (g x)"
  shows "dfold (\<lambda>x. write_fields A (f x)) xs s = transform_to A g xs s"
  unfolding transform_to_def by (rule dfold_cong) (simp add: write_fields_def assms)

section \<open>Marking\<close>

lemma mark_effects:
  assumes "T EqClassTable = Some rows"
  shows "effects sql_effect mark_interesting (map (\<lambda>v. [v]) vs) (T, b) =
    Some (T(EqClassTable \<mapsto> map (fold mark_row vs) rows), b)"
  using assms
proof (induction vs arbitrary: T rows)
  case Nil
  then show ?case by (simp add: fun_upd_idem id_def)
next
  case (Cons v vs)
  have "sql_effect mark_interesting [v] (T, b) = Some (T(EqClassTable \<mapsto> map (mark_row v) rows), b)"
    using Cons.prems by (simp add: sql_effect_def)
  moreover have "effects sql_effect mark_interesting (map (\<lambda>v. [v]) vs) (T(EqClassTable \<mapsto> map (mark_row v) rows), b) =
      Some ((T(EqClassTable \<mapsto> map (mark_row v) rows))(EqClassTable \<mapsto> map (fold mark_row vs) (map (mark_row v) rows)), b)"
    by (rule Cons.IH) simp
  ultimately show ?case by (simp add: comp_def del: fun_upd_apply)
qed

lemma mark_class_row:
  "fold mark_row vs (class_row at_class h b c) = class_row at_class h (b \<or> SqlInt (sint (at_class c)) \<in> set vs) c"
proof (induction vs arbitrary: b)
  case (Cons v vs)
  have "mark_row v (class_row at_class h b c) = class_row at_class h (b \<or> v = SqlInt (sint (at_class c))) c"
    by (auto simp: mark_row_def class_row_def)
  with Cons.IH show ?case by (simp add: disj_assoc eq_commute)
qed simp

section \<open>The tables\<close>

text \<open>Results that can be stored: a tree below its root with every node in a listed class, every
  fraction known, and distinct addresses.\<close>

definition storable_results ::
  "(cid \<Rightarrow> 64 word) \<Rightarrow> (nid \<Rightarrow> 64 word) \<Rightarrow> nid \<Rightarrow> cid list \<Rightarrow> heap \<Rightarrow> bool" where
  "storable_results at_class at_node r cs h \<longleftrightarrow>
     heap_ok h \<and> spans h r \<and> all_evaluated h \<and> listed cs h \<and> (\<forall>n \<in> dom (h_nodes h). frac_of h n \<noteq> None) \<and>
     inj_on at_class (set cs) \<and> inj_on at_node (dom (h_nodes h))"

definition results_tables ::
  "'p path_api \<Rightarrow> (cid \<Rightarrow> 64 word) \<Rightarrow> (nid \<Rightarrow> 64 word) \<Rightarrow> nid \<Rightarrow> cid list \<Rightarrow> cid list \<Rightarrow> heap \<Rightarrow>
   tables \<Rightarrow> tables" where
  "results_tables P at_class at_node r cs ics h T =
     T(EqClassTable \<mapsto> map (\<lambda>c. class_row at_class h (c \<in> set ics) c) cs,
       NodeTable \<mapsto> map (node_row P at_class at_node h) (nodes_below h r))"

lemma sint_eq: "sint a = sint b \<longleftrightarrow> a = b" for a b :: "64 word"
  by (auto intro: signed_word_eqI)

lemma class_listed:
  assumes "heap_ok h" and "listed cs h" and "class_of h n = Some c"
  shows "c \<in> set cs"
proof -
  have "n \<in> set (members h c)" using classes_okD(2) [OF heap_okD(2) [OF assms(1)]] assms(3) by blast
  then have "members h c \<noteq> []" by (cases "members h c") simp_all
  with assms(2) show ?thesis unfolding listed_def by blast
qed

context dupa_sqlite
begin

lemma CreateResultsDatabase_ok:
  assumes "content db = (T, b)"
  shows "\<exists>db'. CreateResultsDatabase A db = (Inr (), db') \<and>
    content db' = (T(EqClassTable \<mapsto> [], NodeTable \<mapsto> []), b)"
proof -
  have "(\<lambda>t. if t \<in> set [NodeTable, EqClassTable] then Some [] else T t) = T(EqClassTable \<mapsto> [], NodeTable \<mapsto> [])"
    by (rule ext) (simp split: if_splits)
  then have "sql_effect create_results [] (content db) = Some (T(EqClassTable \<mapsto> [], NodeTable \<mapsto> []), b)"
    by (simp add: sql_effect_def assms del: fun_upd_apply)
  from Exec_ok [OF this] show ?thesis unfolding CreateResultsDatabase_def .
qed

lemma prepare_insert:
  assumes "statement_of sql = Some (Insert t)" and "sql_params sql = Some n" and "t \<in> dom (fst (content db))"
  shows "\<exists>st. Prepare A sql db = (Inr st, db) \<and> ready st sql []"
  by (rule Prepare_ok [OF assms(2)]) (use assms(1,3) in \<open>simp add: sql_valid_def\<close>)

text \<open>The rows of the classes.\<close>

lemma dump_classes:
  assumes "storable_results at_class at_node r cs h" and "content db = (T, b)" and "T EqClassTable = Some []"
    and "ready st insert_class []"
  shows "\<exists>st' db'. dfold (\<lambda>c. write_fields A (class_fields at_class h c)) cs st db = (Inr st', db') \<and>
    content db' = (T(EqClassTable \<mapsto> map (class_row at_class h False) cs), b)"
proof -
  have cs: "distinct cs" "\<And>c. c \<in> set cs \<Longrightarrow> members h c \<noteq> []" "inj_on at_class (set cs)"
    using assms(1) by (auto simp: storable_results_def listed_def)
  define f where "f c = projr (class_fields at_class h c)" for c
  have f: "class_fields at_class h c = Inr (f c)" "length (f c) = 3"
    "new_row EqClassTable (map bind_value (f c)) = class_row at_class h False c" if "c \<in> set cs" for c
    using class_fields_ok [OF cs(2) [OF that], of at_class] by (auto simp: f_def)
  have "\<exists>st' db'. transform_to A f cs st db = (Inr st', db') \<and> ready st' insert_class [] \<and>
      content db' = (T(EqClassTable \<mapsto> [] @ map (\<lambda>c. new_row EqClassTable (map bind_value (f c))) cs), b)"
  proof (rule insert_all [OF assms(4) _ _ assms(2,3)])
    have "map (\<lambda>c. hd (new_row EqClassTable (map bind_value (f c)))) cs = map (\<lambda>c. SqlInt (sint (at_class c))) cs"
      by (rule map_cong [OF refl]) (simp add: f(3) class_row_def del: new_row.simps)
    then show "distinct (map (\<lambda>c. hd (new_row EqClassTable (map bind_value (f c)))) cs) \<and>
        hd ` set [] \<inter> (\<lambda>c. hd (new_row EqClassTable (map bind_value (f c)))) ` set cs = {}"
      using cs(1,3) by (simp add: distinct_map inj_on_def sint_eq)
  qed (simp_all add: f references_ok_def)
  moreover have "map (\<lambda>c. new_row EqClassTable (map bind_value (f c))) cs = map (class_row at_class h False) cs"
    by (rule map_cong [OF refl]) (rule f(3))
  moreover have "dfold (\<lambda>c. write_fields A (class_fields at_class h c)) cs st = transform_to A f cs st"
    by (rule write_all) (rule f(1))
  ultimately show ?thesis unfolding append_Nil by metis
qed

text \<open>The rows of the nodes; each refers to a stored class.\<close>

lemma dump_nodes:
  assumes "storable_results at_class at_node r cs h" and "content db = (T, b)" and "T NodeTable = Some []"
    and "T EqClassTable = Some (map (class_row at_class h False) cs)" and "ready st insert_node []"
  shows "\<exists>st' db'. Traverse_const (Suc (h_next_node h)) h
      (\<lambda>n. write_fields A (node_fields P at_class at_node h n)) r st db = (Inr st', db') \<and>
    content db' = (T(NodeTable \<mapsto> map (node_row P at_class at_node h) (nodes_below h r)), b)"
proof -
  have ok: "heap_ok h" "spans h r" "listed cs h" "inj_on at_node (dom (h_nodes h))"
    and total: "\<And>n. n \<in> dom (h_nodes h) \<Longrightarrow> class_of h n \<noteq> None \<and> frac_of h n \<noteq> None"
    using assms(1) unfolding storable_results_def all_evaluated_def by blast+
  have r: "r \<in> dom (h_nodes h)" "set (nodes_below h r) = dom (h_nodes h)" using ok(2) unfolding spans_def by blast+
  note tree = heap_okD(1) [OF ok(1)]
  define f where "f n = projr (node_fields P at_class at_node h n)" for n
  have f: "node_fields P at_class at_node h n = Inr (f n)" "length (f n) = 6"
    "new_row NodeTable (map bind_value (f n)) = node_row P at_class at_node h n" if "n \<in> set (nodes_below h r)" for n
    using node_fields_ok [OF tree, of n P at_class at_node] total that r(2) by (auto simp: f_def)
  have "\<exists>st' db'. transform_to A f (nodes_below h r) st db = (Inr st', db') \<and> ready st' insert_node [] \<and>
      content db' = (T(NodeTable \<mapsto> [] @ map (\<lambda>n. new_row NodeTable (map bind_value (f n))) (nodes_below h r)), b)"
  proof (rule insert_all [OF assms(5) _ _ assms(2,3)])
    have "map (\<lambda>n. hd (new_row NodeTable (map bind_value (f n)))) (nodes_below h r) =
        map (\<lambda>n. SqlInt (sint (at_node n))) (nodes_below h r)"
      by (rule map_cong [OF refl]) (simp add: f(3) node_row_def del: new_row.simps)
    then show "distinct (map (\<lambda>n. hd (new_row NodeTable (map bind_value (f n)))) (nodes_below h r)) \<and>
        hd ` set [] \<inter> (\<lambda>n. hd (new_row NodeTable (map bind_value (f n)))) ` set (nodes_below h r) = {}"
      using nodes_below_distinct [OF tree r(1)] ok(4) r(2) by (simp add: distinct_map inj_on_def sint_eq)
    show "references_ok NodeTable (new_row NodeTable (map bind_value (f n))) T" if n: "n \<in> set (nodes_below h r)" for n
    proof -
      obtain c where c: "class_of h n = Some c" using total [of n] n r(2) by blast
      have "c \<in> set cs" by (rule class_listed [OF ok(1,3) c])
      then show ?thesis
        unfolding f(3) [OF n] references_ok_def assms(4) by (auto simp: node_row_def c class_row_def image_iff)
    qed
  qed (simp_all add: f)
  moreover have "map (\<lambda>n. new_row NodeTable (map bind_value (f n))) (nodes_below h r) =
      map (node_row P at_class at_node h) (nodes_below h r)"
    by (rule map_cong [OF refl]) (rule f(3))
  moreover have "Traverse_const (Suc (h_next_node h)) h (\<lambda>n. write_fields A (node_fields P at_class at_node h n)) r st =
      transform_to A f (nodes_below h r) st"
    unfolding Traverse_const_eq [OF tree r(1) diff_le_self [THEN le_SucI]]
    by (rule write_all) (rule f(1))
  ultimately show ?thesis unfolding append_Nil by metis
qed

end

context dupa_sqlite
begin

lemma DumpFuzzyDedupRes_ok:
  assumes "storable_results at_class at_node r cs h" and "content db = (T, False)"
    and "T EqClassTable = Some []" and "T NodeTable = Some []"
  shows "\<exists>db'. DumpFuzzyDedupRes A P at_class at_node r cs h db = (Inr (), db') \<and>
    content db' = (T(EqClassTable \<mapsto> map (class_row at_class h False) cs,
      NodeTable \<mapsto> map (node_row P at_class at_node h) (nodes_below h r)), False)"
proof -
  let ?T1 = "T(EqClassTable \<mapsto> map (class_row at_class h False) cs)"
  let ?T2 = "?T1(NodeTable \<mapsto> map (node_row P at_class at_node h) (nodes_below h r))"
  let ?body = "dbind (Prepare A insert_class) (\<lambda>class_out.
       dbind (dfold (\<lambda>c. write_fields A (class_fields at_class h c)) cs class_out) (\<lambda>_.
       dbind (Prepare A insert_node) (\<lambda>node_out.
       dbind (Traverse_const (Suc (h_next_node h)) h
           (\<lambda>n. write_fields A (node_fields P at_class at_node h n)) r node_out) (\<lambda>_. dreturn ()))))"
  have "\<exists>x db2. ?body db1 = (Inr x, db2) \<and> content db2 = (?T2, True)" if db1: "content db1 = (T, True)" for db1
  proof -
    have "EqClassTable \<in> dom (fst (content db1))" using db1 assms(3) by auto
    from prepare_insert [OF _ _ this, of insert_class 3] obtain s1 where
      s1: "Prepare A insert_class db1 = (Inr s1, db1)" "ready s1 insert_class []" by auto
    from dump_classes [OF assms(1) db1 assms(3) s1(2)] obtain s1' db2 where
      d1: "dfold (\<lambda>c. write_fields A (class_fields at_class h c)) cs s1 db1 = (Inr s1', db2)" "content db2 = (?T1, True)"
      by blast
    have "NodeTable \<in> dom (fst (content db2))" using d1(2) assms(4) by auto
    from prepare_insert [OF _ _ this, of insert_node 6] obtain s2 where
      s2: "Prepare A insert_node db2 = (Inr s2, db2)" "ready s2 insert_node []" by auto
    have "?T1 NodeTable = Some []" "?T1 EqClassTable = Some (map (class_row at_class h False) cs)"
      using assms(4) by simp_all
    from dump_nodes [OF assms(1) d1(2) this s2(2), of P] obtain s2' db3 where
      "Traverse_const (Suc (h_next_node h)) h (\<lambda>n. write_fields A (node_fields P at_class at_node h n)) r s2 db2 =
        (Inr s2', db3)" "content db3 = (?T2, True)" by blast
    with s1(1) d1(1) s2(1) show ?thesis by (simp add: dbind_def dreturn_def)
  qed
  from transaction_body [OF assms(2) this] show ?thesis by (simp add: DumpFuzzyDedupRes_def)
qed

lemma DumpInterestingEqClasses_ok:
  assumes "content db = (T, False)" and "T EqClassTable = Some (map (class_row at_class h False) cs)"
    and "inj_on at_class (set cs)" and "set ics \<subseteq> set cs"
  shows "\<exists>db'. DumpInterestingEqClasses A at_class ics db = (Inr (), db') \<and>
    content db' = (T(EqClassTable \<mapsto> map (\<lambda>c. class_row at_class h (c \<in> set ics) c) cs), False)"
proof -
  let ?vs = "map (\<lambda>c. SqlInt (sint (at_class c))) ics"
  let ?T' = "T(EqClassTable \<mapsto> map (\<lambda>c. class_row at_class h (c \<in> set ics) c) cs)"
  let ?body = "dbind (Prepare A mark_interesting) (\<lambda>out.
       dbind (transform_to A (\<lambda>c. [IntField (at_class c)]) ics out) (\<lambda>_. dreturn ()))"
  have "SqlInt (sint (at_class c)) \<in> set ?vs \<longleftrightarrow> at_class c \<in> at_class ` set ics" for c
    by (simp add: image_iff sint_eq)
  then have key: "SqlInt (sint (at_class c)) \<in> set ?vs \<longleftrightarrow> c \<in> set ics" if "c \<in> set cs" for c
    using inj_on_image_mem_iff [OF assms(3) that assms(4)] by blast
  have marked: "map (fold mark_row ?vs) (map (class_row at_class h False) cs) =
      map (\<lambda>c. class_row at_class h (c \<in> set ics) c) cs"
    unfolding map_map comp_def mark_class_row by (rule map_cong [OF refl]) (simp only: key simp_thms)
  have eff: "effects sql_effect mark_interesting (map (\<lambda>c. map bind_value [IntField (at_class c)]) ics) (T, True) =
      Some (?T', True)"
    using mark_effects [where T = T, OF assms(2), of ?vs True] unfolding marked
    by (simp add: comp_def del: fun_upd_apply)
  have "\<exists>x db2. ?body db1 = (Inr x, db2) \<and> content db2 = (?T', True)" if db1: "content db1 = (T, True)" for db1
  proof -
    have "sql_valid mark_interesting (content db1)" using assms(2) db1 by (auto simp: sql_valid_def)
    from Prepare_ok [OF _ this, of 1] obtain st where st: "Prepare A mark_interesting db1 = (Inr st, db1)"
      "ready st mark_interesting []" by auto
    from transform_ok [OF st(2), of ics "\<lambda>c. [IntField (at_class c)]" db1 "(?T', True)"] eff db1
    obtain st' db2 where "transform_to A (\<lambda>c. [IntField (at_class c)]) ics st db1 = (Inr st', db2)"
      "content db2 = (?T', True)" by auto
    with st(1) show ?thesis by (simp add: dbind_def dreturn_def)
  qed
  from transaction_body [OF assms(1) this] show ?thesis by (simp add: DumpInterestingEqClasses_def)
qed

text \<open>The three operations in a row.\<close>

lemma results_in_database:
  assumes "storable_results at_class at_node r cs h" and "content db = (T, False)"
  shows "\<exists>ics db1 db2 db3. GetInteresingEqClasses h cs = Inr ics \<and>
    CreateResultsDatabase A db = (Inr (), db1) \<and>
    DumpFuzzyDedupRes A P at_class at_node r cs h db1 = (Inr (), db2) \<and>
    DumpInterestingEqClasses A at_class ics db2 = (Inr (), db3) \<and>
    content db3 = (results_tables P at_class at_node r cs ics h T, False)"
proof -
  have ok: "heap_ok h" "all_evaluated h" "\<forall>c \<in> set cs. members h c \<noteq> []" "inj_on at_class (set cs)"
    using assms(1) by (auto simp: storable_results_def listed_def)
  from GetInteresingEqClasses_eq [OF ok(1-3)] obtain ics where
    ics: "GetInteresingEqClasses h cs = Inr ics" "set ics \<subseteq> set cs" by auto
  from CreateResultsDatabase_ok [OF assms(2)] obtain db1 where d1: "CreateResultsDatabase A db = (Inr (), db1)"
    "content db1 = (T(EqClassTable \<mapsto> [], NodeTable \<mapsto> []), False)" by blast
  from DumpFuzzyDedupRes_ok [OF assms(1) d1(2), of P] obtain db2 where
    d2: "DumpFuzzyDedupRes A P at_class at_node r cs h db1 = (Inr (), db2)"
      "content db2 = (T(EqClassTable \<mapsto> [], NodeTable \<mapsto> [], EqClassTable \<mapsto> map (class_row at_class h False) cs,
        NodeTable \<mapsto> map (node_row P at_class at_node h) (nodes_below h r)), False)" by auto
  from DumpInterestingEqClasses_ok [OF d2(2) _ ok(4) ics(2)] obtain db3 where
    d3: "DumpInterestingEqClasses A at_class ics db2 = (Inr (), db3)"
      "content db3 = (T(EqClassTable \<mapsto> [], NodeTable \<mapsto> [], EqClassTable \<mapsto> map (class_row at_class h False) cs,
        NodeTable \<mapsto> map (node_row P at_class at_node h) (nodes_below h r),
        EqClassTable \<mapsto> map (\<lambda>c. class_row at_class h (c \<in> set ics) c) cs), False)" by auto
  have "(T(EqClassTable \<mapsto> [], NodeTable \<mapsto> [], EqClassTable \<mapsto> map (class_row at_class h False) cs,
        NodeTable \<mapsto> map (node_row P at_class at_node h) (nodes_below h r),
        EqClassTable \<mapsto> map (\<lambda>c. class_row at_class h (c \<in> set ics) c) cs)) =
      results_tables P at_class at_node r cs ics h T"
    unfolding results_tables_def by (rule ext) simp
  with d3(2) have "content db3 = (results_tables P at_class at_node r cs ics h T, False)" by (simp only:)
  with ics(1) d1(1) d2(1) d3(1) show ?thesis by blast
qed

end

section \<open>Properties\<close>

text \<open>What \<open>FuzzyDedup\<close> returns can be stored.\<close>

lemma dedup_storable:
  assumes "dedup_outcome P fs (Inr (Some (r, cs, h)))" and "inj_on at_class (set cs)"
    and "inj_on at_node (dom (h_nodes h))"
  shows "storable_results at_class at_node r cs h"
  using dedup_outcome_tree [OF assms(1)] assms(2,3) unfolding storable_results_def by blast

text \<open>C17: Results are stored without an error: the statements succeed in the order of \<open>main\<close>, the
  foreign key of every node refers to a stored class, and in the end the table of classes has one row
  per class with its size and weight, marked iff the class is interesting, and the table of nodes one
  row per node of the tree, children first, with its name, path, type, fraction and class.\<close>

theorem results_stored:
  assumes "dupa_sqlite A db_content result_rows is_ready is_finished is_pending" and "db_content db = (T, False)"
    and "storable_results at_class at_node r cs h"
  shows "\<exists>ics db1 db2 db3. GetInteresingEqClasses h cs = Inr ics \<and>
    CreateResultsDatabase A db = (Inr (), db1) \<and>
    DumpFuzzyDedupRes A P at_class at_node r cs h db1 = (Inr (), db2) \<and>
    DumpInterestingEqClasses A at_class ics db2 = (Inr (), db3) \<and>
    db_content db3 = (results_tables P at_class at_node r cs ics h T, False)"
  by (rule dupa_sqlite.results_in_database [OF assms(1,3,2)])

text \<open>A directory with two equal files.\<close>

definition twin_node :: "string \<Rightarrow> NodeType \<Rightarrow> nid option \<Rightarrow> nid list \<Rightarrow> cid \<Rightarrow> rat \<Rightarrow> Node" where
  "twin_node name type parent children c f =
     \<lparr>nd_name = name, nd_type = type, nd_size = 3, nd_parent = parent, nd_children = children,
      nd_eq_class = Some c, nd_not_evaluated_children = 0, nd_unique_fraction = Some f\<rparr>"

definition twins :: heap where
  "twins =
     \<lparr>h_nodes = [0 \<mapsto> twin_node ''d'' DIR None [1, 2] 1 1, 1 \<mapsto> twin_node ''x'' FILE (Some 0) [] 0 0,
        2 \<mapsto> twin_node ''y'' FILE (Some 0) [] 0 0],
      h_classes = [0 \<mapsto> \<lparr>ec_nodes = [1, 2], ec_weight = 1\<rparr>, 1 \<mapsto> \<lparr>ec_nodes = [0], ec_weight = 1\<rparr>],
      h_next_node = 3, h_next_class = 2\<rparr>"

lemma twins_views:
  "children_of twins = (\<lambda>n. if n = 0 then [1, 2] else [])"
  "parent_of twins = (\<lambda>n. if n = 1 \<or> n = 2 then Some 0 else None)"
  "class_of twins = (\<lambda>n. if n = 0 then Some 1 else if n = 1 \<or> n = 2 then Some 0 else None)"
  "members twins = (\<lambda>c. if c = 0 then [1, 2] else if c = 1 then [0] else [])"
  "weight_of twins = (\<lambda>c. if c = 0 \<or> c = 1 then 1 else 0)"
  "pending twins = (\<lambda>_. 0)"
  "frac_of twins = (\<lambda>n. if n = 0 then Some 1 else if n = 1 \<or> n = 2 then Some 0 else None)"
  by (auto simp: fun_eq_iff twins_def twin_node_def children_of_def parent_of_def class_of_def
      members_def weight_of_def pending_def frac_of_def)

lemma twins_dom: "n \<in> dom (h_nodes twins) \<longleftrightarrow> n = 0 \<or> n = 1 \<or> n = 2" "dom (h_nodes twins) = {0, 1, 2}"
  by (auto simp: twins_def)

lemma twins_next: "h_next_node twins = 3" "h_next_class twins = 2" "dom (h_classes twins) = {0, 1}"
  by (auto simp: twins_def)

lemma twins_ok: "heap_ok twins"
proof -
  have "tree_ok twins"
  proof (rule tree_okI)
    show "n < h_next_node twins" if "n \<in> dom (h_nodes twins)" for n
      using that by (simp only: twins_dom(1) twins_next) auto
    show "n < c \<and> c \<in> dom (h_nodes twins) \<and> parent_of twins c = Some n" if "c \<in> set (children_of twins n)" for n c
      using that by (simp only: twins_dom(1) twins_views) (auto split: if_splits)
    show "n \<in> set (children_of twins p)" if "parent_of twins n = Some p" for n p
      using that by (auto simp: twins_views split: if_splits)
    show "distinct (children_of twins n)" for n by (simp add: twins_views)
  qed (auto simp: twins_def twin_node_def split: if_splits)
  moreover have "classes_ok twins" unfolding classes_ok_def twins_views twins_next by auto
  moreover have "counters_ok twins" unfolding counters_ok_def twins_views by auto
  ultimately show ?thesis by (simp add: heap_ok_def)
qed

lemma twins_below: "nodes_below twins 0 = [1, 2, 0]"
  by (simp add: nodes_below_def twins_next twins_views numeral_eq_Suc)

lemma twins_storable: "storable_results of_nat (\<lambda>n. of_nat (n + 100)) 0 [0, 1] twins"
proof -
  have "spans twins 0" unfolding spans_def twins_below twins_dom by auto
  moreover have "all_evaluated twins" unfolding all_evaluated_def twins_dom twins_views by simp
  moreover have "listed [0, 1] twins" by (auto simp: listed_def twins_views)
  ultimately show ?thesis
    using twins_ok unfolding storable_results_def twins_dom twins_views by (simp add: inj_on_def)
qed

theorem results_stored_witness:
  "\<exists>ics db1 db2 db3. GetInteresingEqClasses twins [0, 1] = Inr ics \<and>
    CreateResultsDatabase mem_api (Map.empty, False) = (Inr (), db1) \<and>
    DumpFuzzyDedupRes mem_api list_paths of_nat (\<lambda>n. of_nat (n + 100)) 0 [0, 1] twins db1 = (Inr (), db2) \<and>
    DumpInterestingEqClasses mem_api of_nat ics db2 = (Inr (), db3) \<and>
    map (map (\<lambda>v. v = SqlInt 1)) (the (fst db3 EqClassTable)) = [[False, False, False, True], [True, True, False, False]]"
proof -
  have m: "\<forall>c \<in> set [0, 1]. members twins c \<noteq> []" by (simp add: twins_views)
  have "all_evaluated twins" unfolding all_evaluated_def twins_dom twins_views by simp
  moreover have "interesting twins 0" "\<not> interesting twins 1"
    by (auto simp: interesting_def unexplained_def single_def twins_views)
  then have "filter (interesting twins) [0, 1] = [0]" by simp
  ultimately have ics: "GetInteresingEqClasses twins [0, 1] = Inr [0]"
    using GetInteresingEqClasses_eq [OF twins_ok _ m] by metis
  have rows: "fst (results_tables list_paths of_nat an 0 [0, 1] [0] twins T, False) EqClassTable =
      Some [class_row of_nat twins True 0, class_row of_nat twins False 1]" for an T
    by (simp add: results_tables_def)
  show ?thesis
    using results_stored [OF mem.dupa_sqlite_axioms refl twins_storable, of Map.empty list_paths] ics rows
    by (auto simp: class_row_def twins_views)
qed


end
