(* ===== verification/Result_Printing.thy ===== *)
theory Result_Printing
  imports Dedup_Db
begin

text \<open>
  What duplicate detection prints (\<open>PrintEqClassses\<close> and \<open>PrintScatteredDirectories\<close> in
  src/src/file_tree.cpp, defined in theory File_Tree): the lines, for results as \<open>FuzzyDedup\<close>
  returns them.
\<close>

section \<open>Printed lines\<close>

text \<open>A directory of mostly scattered duplicates: its rounded percentage of unique files is below the
  configured one and no other node is in its class.\<close>

definition scattered :: "GlobalConfig \<Rightarrow> heap \<Rightarrow> nid \<Rightarrow> bool" where
  "scattered conf h n \<longleftrightarrow> \<not> is_file h n \<and>
     dbl (the (frac_of h n) * 100) < of_int (conf_tolerable_diff_pct conf) \<and>
     length (members h (the (class_of h n))) = 1"

lemma mapR_ok: "(\<And>x. x \<in> set xs \<Longrightarrow> f x = Inr (g x)) \<Longrightarrow> mapR f xs = Inr (map g xs)"
  by (induction xs) simp_all

lemma native_path_ok: "tree_ok h \<Longrightarrow> n \<in> dom (h_nodes h) \<Longrightarrow> native_path P h n = Inr (path_of P h n)"
  using BuildPath_eq [of h n "Suc (h_next_node h)" P] tree_okD(1) [of h n]
  by (simp add: native_path_def path_of_def)

lemma PrintEqClassses_ok:
  assumes "heap_ok h" and "\<And>c. c \<in> set cs \<Longrightarrow> members h c \<noteq> []"
  shows "PrintEqClassses P h cs = Inr (''*** Classes of similar directories or files:'' #
    map (\<lambda>c. print_line (sort (map (path_of P h) (members h c)))) cs)"
proof -
  have "deref (h_classes h c) (\<lambda>ec. rbind (mapR (native_path P h) (ec_nodes ec)) (\<lambda>ps. Inr (print_line (sort ps)))) =
      Inr (print_line (sort (map (path_of P h) (members h c))))" if c: "c \<in> set cs" for c
  proof -
    obtain ec where ec: "h_classes h c = Some ec" "members h c = ec_nodes ec"
      using assms(2) [OF c] by (auto simp: members_def split: option.splits)
    have "n \<in> dom (h_nodes h)" if "n \<in> set (members h c)" for n
      using that classes_okD(2) [OF heap_okD(2) [OF assms(1)], of n c] by (auto simp: class_of_def bind_eq_Some_conv)
    then have "mapR (native_path P h) (ec_nodes ec) = Inr (map (path_of P h) (ec_nodes ec))"
      unfolding ec(2) by (intro mapR_ok native_path_ok [OF heap_okD(1) [OF assms(1)]])
    then show ?thesis by (simp add: deref_def ec)
  qed
  then show ?thesis unfolding PrintEqClassses_def by (simp add: mapR_ok)
qed

lemma is_scattered_ok:
  assumes "heap_ok h" and "n \<in> dom (h_nodes h)" and "class_of h n \<noteq> None" and "frac_of h n \<noteq> None"
  shows "is_scattered env h n = Inr (scattered (env_conf env) h n)"
proof -
  obtain nd c f where nd: "h_nodes h n = Some nd" "nd_eq_class nd = Some c" "nd_unique_fraction nd = Some f"
    using assms(2-4) by (auto simp: class_of_def frac_of_def)
  then have v: "class_of h n = Some c" "frac_of h n = Some f" by (simp_all add: class_of_def frac_of_def)
  have "n \<in> set (members h c)" using classes_okD(2) [OF heap_okD(2) [OF assms(1)]] v(1) by blast
  then obtain ec where ec: "h_classes h c = Some ec" "members h c = ec_nodes ec"
    by (cases "h_classes h c") (auto simp: members_def)
  show ?thesis
    by (cases "nd_type nd") (simp_all add: is_scattered_def scattered_def deref_def nd v ec GetEqClass_def is_file_def
        ec_IsSingle_def)
qed

lemma collect_loop:
  assumes "\<And>n. n \<in> set ns \<Longrightarrow> is_scattered env h n = Inr (Q n)"
  shows "foldR (collect_scattered env) ns (h, acc) = Inr (h, acc @ filter Q ns)"
  using assms by (induction ns arbitrary: acc) (simp_all add: collect_scattered_def)

text \<open>The scattered directories in an order in which they may be printed: each once, by descending
  fraction of unique files; directories with the same fraction may come in any order.\<close>

definition scattered_order :: "GlobalConfig \<Rightarrow> heap \<Rightarrow> nid list \<Rightarrow> bool" where
  "scattered_order conf h ns \<longleftrightarrow>
     distinct ns \<and> set ns = {n \<in> dom (h_nodes h). scattered conf h n} \<and>
     sorted_wrt (\<lambda>n m. the (frac_of h m) \<le> the (frac_of h n)) ns"

lemma fraction_of_frac: "frac_of h n = Some f \<Longrightarrow> fraction_of h n = f"
  by (auto simp: frac_of_def fraction_of_def bind_eq_Some_conv)

context unordered_env
begin

lemma PrintScatteredDirectories_ok:
  assumes "heap_ok h" and "spans h r" and "all_evaluated h" and "\<forall>n \<in> dom (h_nodes h). frac_of h n \<noteq> None"
  shows "\<exists>ns. scattered_order (env_conf env) h ns \<and> PrintScatteredDirectories P env h r =
    Inr (''*** Directories consisting of mostly duplicates of files scattered elsewhere:'' # map (path_of P h) ns)"
proof -
  note tree = heap_okD(1) [OF assms(1)]
  have r: "r \<in> dom (h_nodes h)" "set (nodes_below h r) = dom (h_nodes h)" using assms(2) unfolding spans_def by blast+
  let ?found = "filter (scattered (env_conf env) h) (nodes_below h r)"
  let ?ns = "env_sort env (\<lambda>n1 n2. fraction_of h n2 < fraction_of h n1) ?found"
  note sorted = sort_descending [of "fraction_of h" ?found]
  have "Traverse (Suc (h_next_node h)) (collect_scattered env) r (h, []) =
      foldR (collect_scattered env) (nodes_below h r) (h, [])"
    by (rule Traverse_eq [OF tree r(1)]) (auto simp: collect_scattered_def res_simps split: if_splits)
  also have "\<dots> = Inr (h, [] @ ?found)"
  proof (rule collect_loop)
    fix n assume "n \<in> set (nodes_below h r)"
    then have "n \<in> dom (h_nodes h)" using r(2) by blast
    with assms(3,4) show "is_scattered env h n = Inr (scattered (env_conf env) h n)"
      unfolding all_evaluated_def by (intro is_scattered_ok [OF assms(1)]) blast+
  qed
  finally have t: "Traverse (Suc (h_next_node h)) (collect_scattered env) r (h, []) = Inr (h, ?found)" by simp
  have set: "set ?ns = {n \<in> dom (h_nodes h). scattered (env_conf env) h n}" unfolding sorted(3) using r(2) by auto
  then have frac: "the (frac_of h n) = fraction_of h n" if "n \<in> set ?ns" for n
    using that assms(4) fraction_of_frac by force
  have "sorted_wrt (\<lambda>n m. the (frac_of h m) \<le> the (frac_of h n)) ?ns"
    by (rule sorted_wrt_mono_rel [OF _ sorted(2)]) (simp add: frac)
  moreover have "distinct ?ns" unfolding sorted(4) using nodes_below_distinct [OF tree r(1)] by simp
  ultimately have order: "scattered_order (env_conf env) h ?ns" using set unfolding scattered_order_def by blast
  have "mapR (native_path P h) ?ns = Inr (map (path_of P h) ?ns)"
    by (rule mapR_ok) (use native_path_ok [OF tree] set in blast)
  then show ?thesis unfolding PrintScatteredDirectories_def t using order by auto
qed

end

section \<open>Properties\<close>

text \<open>C31: On results as \<open>FuzzyDedup\<close> returns them, printing fails nowhere: one line per class with the
  paths of its members in lexicographic order, and after it one line per directory that consists
  mostly of duplicates, by descending fraction of unique files, equal fractions in any order. Such a
  directory has a rounded percentage of unique files below the configured one and shares its class with
  no other node; the README names only the first condition.\<close>

theorem results_printed:
  assumes "unordered_env env" and "storable_results at_class at_node r cs h" and "set ics \<subseteq> set cs"
  shows "PrintEqClassses P h ics = Inr (''*** Classes of similar directories or files:'' #
      map (\<lambda>c. print_line (sort (map (path_of P h) (members h c)))) ics) \<and>
    (\<exists>ns. PrintScatteredDirectories P env h r =
        Inr (''*** Directories consisting of mostly duplicates of files scattered elsewhere:'' # map (path_of P h) ns) \<and>
      distinct ns \<and> sorted_wrt (\<lambda>n m. the (frac_of h m) \<le> the (frac_of h n)) ns \<and>
      set ns = {n \<in> dom (h_nodes h). \<not> is_file h n \<and>
        dbl (the (frac_of h n) * 100) < of_int (conf_tolerable_diff_pct (env_conf env)) \<and>
        length (members h (the (class_of h n))) = 1})"
proof -
  have h: "heap_ok h" "spans h r" "all_evaluated h" "listed cs h" "\<forall>n \<in> dom (h_nodes h). frac_of h n \<noteq> None"
    using assms(2) unfolding storable_results_def by blast+
  have m: "members h c \<noteq> []" if "c \<in> set ics" for c using that assms(3) h(4) unfolding listed_def by blast
  show ?thesis
    using PrintEqClassses_ok [OF h(1) m] unordered_env.PrintScatteredDirectories_ok [OF assms(1) h(1-3,5), of P]
    unfolding scattered_order_def scattered_def by blast
qed

text \<open>A directory with a file and two directories with a copy each; 10 percent of the second one are
  unique, so it comes first.\<close>

definition copies :: heap where
  "copies =
     \<lparr>h_nodes = [0 \<mapsto> twin_node ''d'' DIR None [1, 2, 4] 1 1, 1 \<mapsto> twin_node ''x'' FILE (Some 0) [] 0 0,
        2 \<mapsto> twin_node ''a'' DIR (Some 0) [3] 2 0, 3 \<mapsto> twin_node ''y'' FILE (Some 2) [] 0 0,
        4 \<mapsto> twin_node ''b'' DIR (Some 0) [5] 3 (1 / 10), 5 \<mapsto> twin_node ''z'' FILE (Some 4) [] 0 0],
      h_classes = [0 \<mapsto> \<lparr>ec_nodes = [1, 3, 5], ec_weight = 1\<rparr>, 1 \<mapsto> \<lparr>ec_nodes = [0], ec_weight = 1\<rparr>,
        2 \<mapsto> \<lparr>ec_nodes = [2], ec_weight = 1\<rparr>, 3 \<mapsto> \<lparr>ec_nodes = [4], ec_weight = 1\<rparr>],
      h_next_node = 6, h_next_class = 4\<rparr>"

lemma copies_views:
  "children_of copies = (\<lambda>n. if n = 0 then [1, 2, 4] else if n = 2 then [3] else if n = 4 then [5] else [])"
  "parent_of copies = (\<lambda>n. if n = 1 \<or> n = 2 \<or> n = 4 then Some 0 else if n = 3 then Some 2 else if n = 5 then Some 4 else None)"
  "class_of copies = (\<lambda>n. if n = 0 then Some 1 else if n = 1 \<or> n = 3 \<or> n = 5 then Some 0 else if n = 2 then Some 2
    else if n = 4 then Some 3 else None)"
  "members copies = (\<lambda>c. if c = 0 then [1, 3, 5] else if c = 1 then [0] else if c = 2 then [2] else if c = 3 then [4] else [])"
  "weight_of copies = (\<lambda>c. if c < 4 then 1 else 0)"
  "pending copies = (\<lambda>_. 0)"
  "frac_of copies = (\<lambda>n. if n = 0 then Some 1 else if n = 4 then Some (1 / 10) else if n < 6 then Some 0 else None)"
  by (auto simp: fun_eq_iff copies_def twin_node_def children_of_def parent_of_def class_of_def
      members_def weight_of_def pending_def frac_of_def less_Suc_eq numeral_eq_Suc)

lemma copies_dom: "dom (h_nodes copies) = {0, 1, 2, 3, 4, 5}"
  by (auto simp: copies_def)

lemma copies_next: "h_next_node copies = 6" "h_next_class copies = 4" "dom (h_classes copies) = {0, 1, 2, 3}"
  by (auto simp: copies_def)

lemma copies_ok: "heap_ok copies"
proof -
  have "tree_ok copies"
  proof (rule tree_okI)
    show "n < h_next_node copies" if "n \<in> dom (h_nodes copies)" for n
      using that by (simp only: copies_dom copies_next) auto
    show "n < c \<and> c \<in> dom (h_nodes copies) \<and> parent_of copies c = Some n" if "c \<in> set (children_of copies n)" for n c
      using that by (simp only: copies_dom copies_views) (auto split: if_splits)
    show "n \<in> set (children_of copies p)" if "parent_of copies n = Some p" for n p
      using that by (auto simp: copies_views split: if_splits)
    show "distinct (children_of copies n)" for n by (simp add: copies_views)
  qed (auto simp: copies_def twin_node_def split: if_splits)
  moreover have "classes_ok copies" unfolding classes_ok_def copies_views copies_next by auto
  moreover have "counters_ok copies" unfolding counters_ok_def copies_views by auto
  ultimately show ?thesis by (simp add: heap_ok_def)
qed

lemma copies_below: "nodes_below copies 0 = [1, 3, 2, 5, 4, 0]"
  by (simp add: nodes_below_def copies_next copies_views numeral_eq_Suc)

lemma copies_storable: "storable_results of_nat (\<lambda>n. of_nat (n + 100)) 0 [0, 1, 2, 3] copies"
proof -
  have "spans copies 0" unfolding spans_def copies_below copies_dom by auto
  moreover have "all_evaluated copies" unfolding all_evaluated_def copies_dom copies_views by simp
  moreover have "listed [0, 1, 2, 3] copies" by (auto simp: listed_def copies_views)
  ultimately show ?thesis
    using copies_ok unfolding storable_results_def copies_dom copies_views
    by (auto simp: inj_on_def intro: exI [of _ "1 / 10"])
qed

lemma copies_path:
  "path_of list_paths copies 1 = ''d/x''" "path_of list_paths copies 2 = ''d/a''" "path_of list_paths copies 3 = ''d/a/y''"
  "path_of list_paths copies 4 = ''d/b''" "path_of list_paths copies 5 = ''d/b/z''"
proof -
  let ?j = "\<lambda>a b. p_append list_paths a b" and ?p = "p_of list_paths"
  have "p_native list_paths (?j (?p ''d'') (?p ''x'')) = ''d/x''" "p_native list_paths (?j (?p ''d'') (?p ''a'')) = ''d/a''"
    "p_native list_paths (?j (?j (?p ''d'') (?p ''a'')) (?p ''y'')) = ''d/a/y''"
    "p_native list_paths (?j (?p ''d'') (?p ''b'')) = ''d/b''"
    "p_native list_paths (?j (?j (?p ''d'') (?p ''b'')) (?p ''z'')) = ''d/b/z''" by code_simp+
  moreover have "name_of copies 0 = ''d''" "name_of copies 1 = ''x''" "name_of copies 2 = ''a''" "name_of copies 3 = ''y''"
    "name_of copies 4 = ''b''" "name_of copies 5 = ''z''"
    by (simp_all add: name_of_def copies_def twin_node_def)
  ultimately show
    "path_of list_paths copies 1 = ''d/x''" "path_of list_paths copies 2 = ''d/a''" "path_of list_paths copies 3 = ''d/a/y''"
    "path_of list_paths copies 4 = ''d/b''" "path_of list_paths copies 5 = ''d/b/z''"
    by (simp_all add: path_of_def copies_next copies_views numeral_eq_Suc)
qed

theorem results_printed_witness:
  "PrintEqClassses list_paths copies [0] = Inr [''*** Classes of similar directories or files:'', ''d/a/y d/b/z d/x''] \<and>
    PrintScatteredDirectories list_paths (insertion_env test_conf) copies 0 =
      Inr [''*** Directories consisting of mostly duplicates of files scattered elsewhere:'', ''d/b'', ''d/a'']"
proof -
  have pct: "dbl 0 < of_int (conf_tolerable_diff_pct test_conf)" "dbl 10 < of_int (conf_tolerable_diff_pct test_conf)"
    "\<not> dbl 100 < of_int (conf_tolerable_diff_pct test_conf)" by code_simp+
  have files: "\<not> is_file copies 0" "is_file copies 1" "\<not> is_file copies 2" "is_file copies 3" "\<not> is_file copies 4" "is_file copies 5"
    by (simp_all add: is_file_def copies_def twin_node_def)
  have env: "env_conf (insertion_env test_conf) = test_conf" by (simp add: insertion_env_def)
  let ?s = "\<lambda>n. \<not> is_file copies n \<and> dbl (the (frac_of copies n) * 100) < of_int (conf_tolerable_diff_pct test_conf) \<and>
      length (members copies (the (class_of copies n))) = 1"
  have each: "\<not> ?s 0" "\<not> ?s 1" "?s 2" "\<not> ?s 3" "?s 4" "\<not> ?s 5"
    using files pct by (simp_all add: copies_views)
  have found: "{n \<in> dom (h_nodes copies). ?s n} = {2, 4}"
    unfolding copies_dom using each by blast
  note r = results_printed [OF insertion.unordered_env_axioms copies_storable, of "[0]" list_paths test_conf, unfolded env found]
  from r obtain ns where ns: "PrintScatteredDirectories list_paths (insertion_env test_conf) copies 0 =
      Inr (''*** Directories consisting of mostly duplicates of files scattered elsewhere:'' # map (path_of list_paths copies) ns)"
    "distinct ns" "sorted_wrt (\<lambda>n m. the (frac_of copies m) \<le> the (frac_of copies n)) ns" "set ns = {2, 4}" by auto
  have "length ns = 2" using distinct_card [OF ns(2)] ns(4) by simp
  then obtain n m where nm: "ns = [n, m]" by (auto simp: numeral_eq_Suc length_Suc_conv)
  with ns(3,4) have "ns = [4, 2]" by (auto simp: copies_views doubleton_eq_iff)
  with ns(1) r show ?thesis by (simp add: copies_views copies_path del: One_nat_def)
qed

end
