(* ===== verification/Compare_Db.thy ===== *)
theory Compare_Db
  imports Dir_Compare Sql_Statements
begin

text \<open>
  The stream that stores a comparison in a database (\<open>DirCompDBStream\<close>, src/src/db_output.h and
  src/src/db_output.cpp), and what the tables hold after a comparison.
\<close>

section \<open>\<open>DirCompDBStream\<close>\<close>

text \<open>The members; \<open>dc_conn\<close> is the state of the connection, \<open>dc_trans\<close> the flag of the transaction.\<close>

record ('db, 'stmt) DirCompDBStream =
  dc_conn :: 'db
  dc_trans :: bool
  dc_removed :: 'stmt
  dc_new_file :: 'stmt
  dc_content_changed :: 'stmt
  dc_overwritten_by :: 'stmt
  dc_copied_from :: 'stmt
  dc_rename_to :: 'stmt

text \<open>The constructor: when it throws, the transaction that is already constructed is destroyed.\<close>

definition prepare_members :: "('db, 'stmt) sqlite_api \<Rightarrow> bool \<Rightarrow> (('db, 'stmt) DirCompDBStream, 'db) dbm" where
  "prepare_members A ongoing =
     dbind (Exec A create_comparison) (\<lambda>_.
     dbind (Prepare A insert_removed) (\<lambda>removed.
     dbind (Prepare A insert_new_file) (\<lambda>new_file.
     dbind (Prepare A insert_content_changed) (\<lambda>content_changed.
     dbind (Prepare A insert_overwritten_by) (\<lambda>overwritten_by.
     dbind (Prepare A insert_copied_from) (\<lambda>copied_from.
     dbind (Prepare A insert_rename_to) (\<lambda>rename_to conn.
       (Inr \<lparr>dc_conn = conn, dc_trans = ongoing, dc_removed = removed, dc_new_file = new_file,
          dc_content_changed = content_changed, dc_overwritten_by = overwritten_by,
          dc_copied_from = copied_from, dc_rename_to = rename_to\<rparr>, conn))))))))"

definition new_DirCompDBStream :: "('db, 'stmt) sqlite_api \<Rightarrow> (('db, 'stmt) DirCompDBStream, 'db) dbm" where
  "new_DirCompDBStream A =
     dbind (new_DBTransaction A) (\<lambda>ongoing conn.
       case prepare_members A ongoing conn of
         (Inr s, conn') \<Rightarrow> (Inr s, conn')
       | (Inl e, conn') \<Rightarrow> dbind (delete_DBTransaction A ongoing) (\<lambda>_. dthrow e) conn')"

text \<open>\<open>Write\<close> on the stream in a member, which is given by its selector and update.\<close>

definition write_member ::
  "('db, 'stmt) sqlite_api \<Rightarrow> (('db, 'stmt) DirCompDBStream \<Rightarrow> 'stmt) \<Rightarrow>
   (('stmt \<Rightarrow> 'stmt) \<Rightarrow> ('db, 'stmt) DirCompDBStream \<Rightarrow> ('db, 'stmt) DirCompDBStream) \<Rightarrow>
   field list \<Rightarrow> ('db, 'stmt) DirCompDBStream \<Rightarrow> ('db, 'stmt) DirCompDBStream res" where
  "write_member A get put args s =
     (case Write A args (get s) (dc_conn s) of
        (Inl e, _) \<Rightarrow> Inl e
      | (Inr stmt, conn) \<Rightarrow> Inr (put (\<lambda>_. stmt) (s\<lparr>dc_conn := conn\<rparr>)))"

definition DirCompDBStream_calls ::
  "('db, 'stmt) sqlite_api \<Rightarrow> ('db, 'stmt) DirCompDBStream CompareOutputStream" where
  "DirCompDBStream_calls A = \<lparr>
     OverwrittenBy = (\<lambda>f candidates. foldR (\<lambda>c. write_member A dc_overwritten_by dc_overwritten_by_update
       [StringField f, StringField c]) candidates),
     CopiedFrom = (\<lambda>f candidates. foldR (\<lambda>c. write_member A dc_copied_from dc_copied_from_update
       [StringField f, StringField c]) candidates),
     RenameTo = (\<lambda>f candidates. foldR (\<lambda>c. write_member A dc_rename_to dc_rename_to_update
       [StringField f, StringField c]) candidates),
     ContentChanged = (\<lambda>f. write_member A dc_content_changed dc_content_changed_update [StringField f]),
     Removed = (\<lambda>f. write_member A dc_removed dc_removed_update [StringField f]),
     NewFile = (\<lambda>f. write_member A dc_new_file dc_new_file_update [StringField f])\<rparr>"

definition DirCompDBStream_Commit ::
  "('db, 'stmt) sqlite_api \<Rightarrow> ('db, 'stmt) DirCompDBStream \<Rightarrow> ('db, 'stmt) DirCompDBStream res" where
  "DirCompDBStream_Commit A s =
     (case Commit A (dc_conn s) of
        (Inl e, _) \<Rightarrow> Inl e
      | (Inr ongoing, conn) \<Rightarrow> Inr (s\<lparr>dc_conn := conn, dc_trans := ongoing\<rparr>))"

text \<open>The destructor, which destroys the transaction.\<close>

definition delete_DirCompDBStream ::
  "('db, 'stmt) sqlite_api \<Rightarrow> ('db, 'stmt) DirCompDBStream \<Rightarrow> 'db res" where
  "delete_DirCompDBStream A s =
     (case delete_DBTransaction A (dc_trans s) (dc_conn s) of (Inl e, _) \<Rightarrow> Inl e | (Inr _, conn) \<Rightarrow> Inr conn)"

section \<open>What the tables hold\<close>

fun event_table :: "compare_event \<Rightarrow> table" where
  "event_table (EvOverwrittenBy f cs) = OverwrittenByTable"
| "event_table (EvCopiedFrom f cs) = CopiedFromTable"
| "event_table (EvRenameTo f cs) = RenameToTable"
| "event_table (EvContentChanged f) = ContentChangedTable"
| "event_table (EvRemoved f) = RemovedTable"
| "event_table (EvNewFile f) = NewFileTable"

text \<open>One row per reported path, or per candidate.\<close>

fun event_rows :: "compare_event \<Rightarrow> sql_value list list" where
  "event_rows (EvOverwrittenBy f cs) = map (\<lambda>c. [SqlText (strncpy f), SqlText (strncpy c)]) cs"
| "event_rows (EvCopiedFrom f cs) = map (\<lambda>c. [SqlText (strncpy f), SqlText (strncpy c)]) cs"
| "event_rows (EvRenameTo f cs) = map (\<lambda>c. [SqlText (strncpy f), SqlText (strncpy c)]) cs"
| "event_rows (EvContentChanged f) = [[SqlText (strncpy f)]]"
| "event_rows (EvRemoved f) = [[SqlText (strncpy f)]]"
| "event_rows (EvNewFile f) = [[SqlText (strncpy f)]]"

definition comparison_tables :: "table list" where
  "comparison_tables = [RemovedTable, NewFileTable, ContentChangedTable, OverwrittenByTable, CopiedFromTable,
     RenameToTable]"

definition store_event :: "compare_event \<Rightarrow> tables \<Rightarrow> tables" where
  "store_event ev T = T(event_table ev \<mapsto> the (T (event_table ev)) @ event_rows ev)"

text \<open>An event fits tables that exist and whose unique column does not have its path yet.\<close>

definition storable_event :: "tables \<Rightarrow> compare_event \<Rightarrow> bool" where
  "storable_event T ev \<longleftrightarrow> set comparison_tables \<subseteq> dom T \<and>
     (unique_first (event_table ev) \<longrightarrow> SqlText (strncpy (subject ev)) \<notin> hd ` set (the (T (event_table ev))))"

text \<open>The tables of a report.\<close>

definition report_tables :: "compare_event list \<Rightarrow> tables \<Rightarrow> tables" where
  "report_tables evs T = (\<lambda>t.
     if t \<in> set comparison_tables then Some (concat (map event_rows (filter (\<lambda>ev. event_table ev = t) evs))) else T t)"

text \<open>The members that hold streams: writing to one leaves the others alone.\<close>

locale stream_member =
  fixes get :: "('db, 'stmt) DirCompDBStream \<Rightarrow> 'stmt"
    and put :: "('stmt \<Rightarrow> 'stmt) \<Rightarrow> ('db, 'stmt) DirCompDBStream \<Rightarrow> ('db, 'stmt) DirCompDBStream"
  assumes get_put: "get (put f s) = f (get s)"
    and put_put: "put f (put g s) = put (f \<circ> g) s"
    and put_get: "put (\<lambda>_. get s) s = s"
    and get_conn: "get (s\<lparr>dc_conn := c\<rparr>) = get s"
    and conn_put: "dc_conn (put f s) = dc_conn s"
    and put_conn: "(put f s)\<lparr>dc_conn := c\<rparr> = put f (s\<lparr>dc_conn := c\<rparr>)"
begin

text \<open>A loop of writes is a transformation of the sequence into the stream.\<close>

lemma write_loop:
  "foldR (\<lambda>c. write_member A get put (f c)) cs s =
   (case transform_to A f cs (get s) (dc_conn s) of
      (Inl e, _) \<Rightarrow> Inl e
    | (Inr stmt, conn) \<Rightarrow> Inr (put (\<lambda>_. stmt) (s\<lparr>dc_conn := conn\<rparr>)))"
proof (induction cs arbitrary: s)
  case Nil
  then show ?case by (simp add: transform_to_def put_get)
next
  case (Cons c cs)
  obtain r conn where w: "Write A (f c) (get s) (dc_conn s) = (r, conn)" by (cases "Write A (f c) (get s) (dc_conn s)")
  then have "write_member A get put (f c) s =
      (case r of Inl e \<Rightarrow> Inl e | Inr stmt \<Rightarrow> Inr (put (\<lambda>_. stmt) (s\<lparr>dc_conn := conn\<rparr>)))"
    by (simp add: write_member_def split: sum.split)
  with w show ?case
    by (cases r) (simp_all add: transform_to_def Cons.IH [unfolded transform_to_def]
        get_put put_put get_conn conn_put put_conn comp_def split: sum.split prod.split)
qed

end

interpretation member_removed: stream_member dc_removed dc_removed_update by unfold_locales (auto simp: comp_def)
interpretation member_new_file: stream_member dc_new_file dc_new_file_update by unfold_locales (auto simp: comp_def)
interpretation member_content_changed: stream_member dc_content_changed dc_content_changed_update
  by unfold_locales (auto simp: comp_def)
interpretation member_overwritten_by: stream_member dc_overwritten_by dc_overwritten_by_update
  by unfold_locales (auto simp: comp_def)
interpretation member_copied_from: stream_member dc_copied_from dc_copied_from_update
  by unfold_locales (auto simp: comp_def)
interpretation member_rename_to: stream_member dc_rename_to dc_rename_to_update by unfold_locales (auto simp: comp_def)

section \<open>The stream keeps its promise\<close>

definition statements_ready ::
  "('stmt \<Rightarrow> string \<Rightarrow> sql_value list \<Rightarrow> bool) \<Rightarrow> ('db, 'stmt) DirCompDBStream \<Rightarrow> bool" where
  "statements_ready ready s \<longleftrightarrow>
     ready (dc_removed s) insert_removed [] \<and> ready (dc_new_file s) insert_new_file [] \<and>
     ready (dc_content_changed s) insert_content_changed [] \<and>
     ready (dc_overwritten_by s) insert_overwritten_by [] \<and>
     ready (dc_copied_from s) insert_copied_from [] \<and> ready (dc_rename_to s) insert_rename_to []"

text \<open>What the stream has stored, provided that its statements can be executed.\<close>

definition stored_content ::
  "('db \<Rightarrow> database) \<Rightarrow> ('stmt \<Rightarrow> string \<Rightarrow> sql_value list \<Rightarrow> bool) \<Rightarrow>
   ('db, 'stmt) DirCompDBStream \<Rightarrow> database option" where
  "stored_content tables_of ready s = (if statements_ready ready s then Some (tables_of (dc_conn s)) else None)"

definition event_fits :: "database option \<Rightarrow> compare_event \<Rightarrow> bool" where
  "event_fits ob ev \<longleftrightarrow> (\<exists>T b. ob = Some (T, b) \<and> storable_event T ev)"

lemma comparison_table_rows [simp]: "t \<in> set comparison_tables \<Longrightarrow> new_row t vs = vs"
  by (rule new_row_other) (auto simp: comparison_tables_def)

lemma comparison_references [simp]: "t \<in> set comparison_tables \<Longrightarrow> references_ok t row T"
  by (auto simp: references_ok_def comparison_tables_def)

lemma event_table_comparison [simp]: "event_table ev \<in> set comparison_tables"
  by (cases ev) (simp_all add: comparison_tables_def)

context dupa_sqlite
begin

lemma member_loop:
  assumes "stream_member get put" and "ready (get s) sql []" and "statement_of sql = Some (Insert t)"
    and "\<And>c. sql_params sql = Some (length (f c))" and "t \<in> set comparison_tables"
    and "content (dc_conn s) = (T, b)" and "T t = Some rows"
    and "unique_first t \<Longrightarrow> distinct (map (\<lambda>c. hd (map bind_value (f c))) cs) \<and>
      hd ` set rows \<inter> (\<lambda>c. hd (map bind_value (f c))) ` set cs = {}"
  shows "\<exists>stmt conn. foldR (\<lambda>c. write_member A get put (f c)) cs s = Inr (put (\<lambda>_. stmt) (s\<lparr>dc_conn := conn\<rparr>)) \<and>
    ready stmt sql [] \<and> content conn = (T(t \<mapsto> rows @ map (\<lambda>c. map bind_value (f c)) cs), b)"
proof -
  from insert_all [where f = f and xs = cs, OF assms(2,3,4,6,7)] assms(5,8) obtain stmt conn where
    "transform_to A f cs (get s) (dc_conn s) = (Inr stmt, conn)" "ready stmt sql []"
    "content conn = (T(t \<mapsto> rows @ map (\<lambda>c. map bind_value (f c)) cs), b)" by auto
  then show ?thesis
    unfolding stream_member.write_loop [OF assms(1)] by (intro exI [of _ stmt] exI [of _ conn]) simp
qed

text \<open>Writing rows by one member stores them and leaves the stream ready.\<close>

lemma member_stored:
  assumes "stored_content content ready st = Some (T, b)" and "T t = Some rows" and "t \<in> set comparison_tables"
    and "stream_member get put" and "statement_of sql = Some (Insert t)" and "\<And>c. sql_params sql = Some (length (f c))"
    and "\<And>s. statements_ready ready s \<Longrightarrow> ready (get s) sql []"
    and "\<And>s conn stmt. statements_ready ready s \<Longrightarrow> ready stmt sql [] \<Longrightarrow>
      statements_ready ready (put (\<lambda>_. stmt) (s\<lparr>dc_conn := conn\<rparr>)) \<and> dc_conn (put (\<lambda>_. stmt) (s\<lparr>dc_conn := conn\<rparr>)) = conn"
    and "unique_first t \<Longrightarrow> distinct (map (\<lambda>c. hd (map bind_value (f c))) cs) \<and>
      hd ` set rows \<inter> (\<lambda>c. hd (map bind_value (f c))) ` set cs = {}"
  shows "\<exists>st'. foldR (\<lambda>c. write_member A get put (f c)) cs st = Inr st' \<and>
    stored_content content ready st' = Some (T(t \<mapsto> rows @ map (\<lambda>c. map bind_value (f c)) cs), b)"
proof -
  have st: "statements_ready ready st" "content (dc_conn st) = (T, b)"
    using assms(1) by (auto simp: stored_content_def split: if_splits)
  from member_loop [OF assms(4) assms(7) [OF st(1)] assms(5,6,3) st(2) assms(2,9)] obtain stmt conn where
    w: "foldR (\<lambda>c. write_member A get put (f c)) cs st = Inr (put (\<lambda>_. stmt) (st\<lparr>dc_conn := conn\<rparr>))"
    "ready stmt sql []" "content conn = (T(t \<mapsto> rows @ map (\<lambda>c. map bind_value (f c)) cs), b)" by blast
  then show ?thesis using assms(8) [OF st(1) w(2)] by (auto simp: stored_content_def)
qed

text \<open>Every call stores its rows, and the statements are ready for the next call.\<close>

lemma emit_stored:
  assumes "stored_content content ready st = Some (T, b)" and "storable_event T ev"
  shows "\<exists>st'. emit (DirCompDBStream_calls A) ev st = Inr st' \<and>
    stored_content content ready st' = Some (store_event ev T, b)"
proof -
  have "event_table ev \<in> dom T" using assms(2) event_table_comparison unfolding storable_event_def by blast
  then obtain rows where rows: "T (event_table ev) = Some rows" by blast
  have fresh: "SqlText (strncpy (subject ev)) \<notin> hd ` set rows"
    if "unique_first (event_table ev)"
    using that assms(2) rows unfolding storable_event_def by auto
  note stored = member_stored [OF assms(1) rows event_table_comparison]
  show ?thesis
  proof (cases ev)
    case (EvOverwrittenBy f cs)
    from stored [OF member_overwritten_by.stream_member_axioms, of insert_overwritten_by "\<lambda>c. [StringField f, StringField c]" cs] show ?thesis
      by (simp add: EvOverwrittenBy DirCompDBStream_calls_def statements_ready_def store_event_def unique_first_def rows [unfolded EvOverwrittenBy, simplified])
  next
    case (EvCopiedFrom f cs)
    from stored [OF member_copied_from.stream_member_axioms, of insert_copied_from "\<lambda>c. [StringField f, StringField c]" cs] show ?thesis
      by (simp add: EvCopiedFrom DirCompDBStream_calls_def statements_ready_def store_event_def unique_first_def rows [unfolded EvCopiedFrom, simplified])
  next
    case (EvRenameTo f cs)
    from stored [OF member_rename_to.stream_member_axioms, of insert_rename_to "\<lambda>c. [StringField f, StringField c]" cs] show ?thesis
      by (simp add: EvRenameTo DirCompDBStream_calls_def statements_ready_def store_event_def unique_first_def rows [unfolded EvRenameTo, simplified])
  next
    case (EvContentChanged f)
    from stored [OF member_content_changed.stream_member_axioms, of insert_content_changed "\<lambda>_. [StringField f]" "[()]"] fresh show ?thesis
      by (simp add: EvContentChanged DirCompDBStream_calls_def statements_ready_def store_event_def unique_first_def rows [unfolded EvContentChanged, simplified])
  next
    case (EvRemoved f)
    from stored [OF member_removed.stream_member_axioms, of insert_removed "\<lambda>_. [StringField f]" "[()]"] fresh show ?thesis
      by (simp add: EvRemoved DirCompDBStream_calls_def statements_ready_def store_event_def unique_first_def rows [unfolded EvRemoved, simplified])
  next
    case (EvNewFile f)
    from stored [OF member_new_file.stream_member_axioms, of insert_new_file "\<lambda>_. [StringField f]" "[()]"] fresh show ?thesis
      by (simp add: EvNewFile DirCompDBStream_calls_def statements_ready_def store_event_def unique_first_def rows [unfolded EvNewFile, simplified])
  qed
qed

end

definition store_in :: "compare_event \<Rightarrow> database option \<Rightarrow> database option" where
  "store_in ev ob = map_option (\<lambda>(T, b). (store_event ev T, b)) ob"

sublocale dupa_sqlite \<subseteq> db_stream: compare_stream "DirCompDBStream_calls A" "stored_content content ready"
  store_in event_fits
proof
  fix st ev
  assume "event_fits (stored_content content ready st) ev"
  then obtain T b where ob: "stored_content content ready st = Some (T, b)" "storable_event T ev"
    unfolding event_fits_def by blast
  from emit_stored [OF ob] ob(1)
  show "\<exists>st'. emit (DirCompDBStream_calls A) ev st = Inr st' \<and>
      stored_content content ready st' = store_in ev (stored_content content ready st)"
    by (simp add: store_in_def)
qed

section \<open>The tables of a report\<close>

lemma store_event_domain: "set comparison_tables \<subseteq> dom T \<Longrightarrow> set comparison_tables \<subseteq> dom (store_event ev T)"
  by (auto simp: store_event_def)

lemma fold_store_event:
  "set comparison_tables \<subseteq> dom T \<Longrightarrow>
   fold store_event evs T t =
   (if t \<in> set comparison_tables
    then Some (the (T t) @ concat (map event_rows (filter (\<lambda>ev. event_table ev = t) evs))) else T t)"
proof (induction evs arbitrary: T)
  case (Cons ev evs)
  from Cons.IH [OF store_event_domain [OF Cons.prems, of ev]] show ?case
    by (auto simp: store_event_def)
qed auto

lemma unique_event_row:
  "unique_first (event_table ev) \<Longrightarrow> event_rows ev = [[SqlText (strncpy (subject ev))]]"
  by (cases ev) (simp_all add: unique_first_def)

text \<open>Events about different paths fit.\<close>

lemma fitting_events:
  assumes "set comparison_tables \<subseteq> dom T" and "distinct (map (\<lambda>ev. strncpy (subject ev)) evs)"
    and "\<And>ev. ev \<in> set evs \<Longrightarrow> unique_first (event_table ev) \<Longrightarrow>
      SqlText (strncpy (subject ev)) \<notin> hd ` set (the (T (event_table ev)))"
  shows "compare_stream.fits_all store_in event_fits (Some (T, b)) evs"
    and "fold store_in evs (Some (T, b)) = Some (fold store_event evs T, b)"
proof -
  have "mem.db_stream.fits_all (Some (T, b)) evs \<and> fold store_in evs (Some (T, b)) = Some (fold store_event evs T, b)"
    using assms
  proof (induction evs arbitrary: T)
    case (Cons ev evs)
    have "SqlText (strncpy (subject e)) \<notin> hd ` set (the (store_event ev T (event_table e)))"
      if "e \<in> set evs" "unique_first (event_table e)" for e
      using that Cons.prems(2) Cons.prems(3) [of e] unique_event_row [of ev]
      by (auto simp: store_event_def image_iff)
    with Cons.IH [OF store_event_domain [OF Cons.prems(1)], of ev] Cons.prems(2)
    have "mem.db_stream.fits_all (Some (store_event ev T, b)) evs \<and>
        fold store_in evs (Some (store_event ev T, b)) = Some (fold store_event (ev # evs) T, b)" by simp
    moreover have "event_fits (Some (T, b)) ev"
      using Cons.prems(1) Cons.prems(3) [of ev] by (simp add: event_fits_def storable_event_def)
    moreover have "store_in ev (Some (T, b)) = Some (store_event ev T, b)" by (simp add: store_in_def)
    ultimately show ?case by simp
  qed (simp)
  then show "mem.db_stream.fits_all (Some (T, b)) evs" "fold store_in evs (Some (T, b)) = Some (fold store_event evs T, b)"
    by auto
qed


text \<open>A report into empty tables.\<close>

lemma report_fits:
  assumes "distinct (map (\<lambda>ev. strncpy (subject ev)) evs)"
  defines E: "E \<equiv> (\<lambda>T t. if t \<in> set comparison_tables then Some [] else T t)"
  shows "compare_stream.fits_all store_in event_fits (Some (E T, b)) evs"
    and "fold store_in evs (Some (E T, b)) = Some (report_tables evs T, b)"
proof -
  have dom: "set comparison_tables \<subseteq> dom (E T)" by (auto simp: E split: if_splits)
  have fresh: "SqlText (strncpy (subject ev)) \<notin> hd ` set (the (E T (event_table ev)))" for ev by (simp add: E)
  show "compare_stream.fits_all store_in event_fits (Some (E T, b)) evs"
    by (rule fitting_events(1) [OF dom assms(1) fresh])
  have "fold store_event evs (E T) = report_tables evs T"
    by (rule ext) (simp add: fold_store_event [OF dom] report_tables_def, simp add: E)
  then show "fold store_in evs (Some (E T, b)) = Some (report_tables evs T, b)"
    using fitting_events(2) [OF dom assms(1) fresh, of b] by simp
qed

text \<open>Paths without NUL are stored as they are, so that the keys of a report differ.\<close>

lemma report_keys_distinct:
  assumes "path_hashes MI invar" and "invar c1" and "invar c2"
    and "\<And>p. p \<in> dom (content MI c1) \<union> dom (content MI c2) \<Longrightarrow> no_nul p"
  shows "distinct (map (\<lambda>ev. strncpy (subject ev)) (report MI conf c1 c2))"
proof -
  have "no_nul (subject ev)" if "ev \<in> set (report MI conf c1 c2)" for ev
  proof -
    have "ev \<in> set (path_hashes.path_events MI conf c1 c2 (subject ev))"
      using that path_hashes.report_subject [OF assms(1-3)] by blast
    then have "subject ev \<in> dom (content MI c1) \<union> dom (content MI c2)"
      unfolding path_hashes.path_events_def [OF assms(1)]
      by (cases "content MI c1 (subject ev)"; cases "content MI c2 (subject ev)") auto
    then show ?thesis by (rule assms(4))
  qed
  then have "map (\<lambda>ev. strncpy (subject ev)) (report MI conf c1 c2) = map subject (report MI conf c1 c2)" by simp
  then show ?thesis using path_hashes.report_distinct [OF assms(1-3), of conf] by (simp del: map_eq_conv)
qed

section \<open>A whole comparison\<close>

context dupa_sqlite
begin

text \<open>The constructor empties the tables within a transaction.\<close>

lemma new_DirCompDBStream_ok:
  assumes "content db = (T, False)"
  shows "\<exists>s conn. new_DirCompDBStream A db = (Inr s, conn) \<and> dc_trans s \<and>
    stored_content content ready s = Some (\<lambda>t. if t \<in> set comparison_tables then Some [] else T t, True)"
proof -
  let ?T = "\<lambda>t. if t \<in> set comparison_tables then Some [] else T t"
  have "sql_effect begin_sql [] (content db) = Some (T, True)" by (simp add: assms)
  from Exec_ok [OF this] obtain db1 where b: "new_DBTransaction A db = (Inr True, db1)" "content db1 = (T, True)"
    by (auto simp: new_DBTransaction_def begin_sql_def)
  have "sql_effect create_comparison [] (content db1) = Some (?T, True)"
    by (simp add: sql_effect_def b(2) comparison_tables_def)
  from Exec_ok [OF this] obtain db2 where c: "Exec A create_comparison db1 = (Inr (), db2)" "content db2 = (?T, True)"
    by blast
  have prep: "\<exists>st. Prepare A sql db2 = (Inr st, db2) \<and> ready st sql []"
    if "statement_of sql = Some (Insert t)" "t \<in> set comparison_tables" "sql_params sql = Some n" for sql t n
    by (rule Prepare_ok [OF that(3)]) (use that(1,2) in \<open>simp add: sql_valid_def c(2) dom_def\<close>)
  obtain s1 where s1: "Prepare A insert_removed db2 = (Inr s1, db2)" "ready s1 insert_removed []"
    using prep [of insert_removed] by (auto simp: comparison_tables_def)
  obtain s2 where s2: "Prepare A insert_new_file db2 = (Inr s2, db2)" "ready s2 insert_new_file []"
    using prep [of insert_new_file] by (auto simp: comparison_tables_def)
  obtain s3 where s3: "Prepare A insert_content_changed db2 = (Inr s3, db2)" "ready s3 insert_content_changed []"
    using prep [of insert_content_changed] by (auto simp: comparison_tables_def)
  obtain s4 where s4: "Prepare A insert_overwritten_by db2 = (Inr s4, db2)" "ready s4 insert_overwritten_by []"
    using prep [of insert_overwritten_by] by (auto simp: comparison_tables_def)
  obtain s5 where s5: "Prepare A insert_copied_from db2 = (Inr s5, db2)" "ready s5 insert_copied_from []"
    using prep [of insert_copied_from] by (auto simp: comparison_tables_def)
  obtain s6 where s6: "Prepare A insert_rename_to db2 = (Inr s6, db2)" "ready s6 insert_rename_to []"
    using prep [of insert_rename_to] by (auto simp: comparison_tables_def)
  show ?thesis
    using b(1) c s1 s2 s3 s4 s5 s6
    by (simp add: new_DirCompDBStream_def prepare_members_def stored_content_def statements_ready_def)
qed

lemma DirCompDBStream_Commit_ok:
  assumes "stored_content content ready s = Some (T, True)"
  shows "\<exists>s'. DirCompDBStream_Commit A s = Inr s' \<and> \<not> dc_trans s' \<and> content (dc_conn s') = (T, False)"
proof -
  have "content (dc_conn s) = (T, True)" using assms by (auto simp: stored_content_def split: if_splits)
  then have "sql_effect commit_sql [] (content (dc_conn s)) = Some (T, False)" by simp
  from Exec_ok [OF this] show ?thesis by (auto simp: DirCompDBStream_Commit_def Commit_def commit_sql_def)
qed

text \<open>A comparison into a new stream.\<close>

lemma comparison_into_database:
  assumes "content db = (T, False)" and "distinct (map (\<lambda>ev. strncpy (subject ev)) (report MI conf c1 c2))"
  shows "\<exists>s conn s1 s2. new_DirCompDBStream A db = (Inr s, conn) \<and>
    compare_hashes MI conf (DirCompDBStream_calls A) c1 c2 s = Inr s1 \<and>
    DirCompDBStream_Commit A s1 = Inr s2 \<and> delete_DirCompDBStream A s2 = Inr (dc_conn s2) \<and>
    content (dc_conn s2) = (report_tables (report MI conf c1 c2) T, False)"
proof -
  let ?T = "\<lambda>t. if t \<in> set comparison_tables then Some [] else T t"
  from new_DirCompDBStream_ok [OF assms(1)] obtain s conn where
    s: "new_DirCompDBStream A db = (Inr s, conn)" "stored_content content ready s = Some (?T, True)" by blast
  note fits = report_fits [OF assms(2), where T = T and b = True]
  have "db_stream.fits_all (stored_content content ready s) (report MI conf c1 c2)"
    unfolding s(2) by (rule fits(1))
  from db_stream.comparison_written [OF this] obtain s1 where
    s1: "compare_hashes MI conf (DirCompDBStream_calls A) c1 c2 s = Inr s1"
      "stored_content content ready s1 = fold store_in (report MI conf c1 c2) (stored_content content ready s)"
    by blast
  have "stored_content content ready s1 = Some (report_tables (report MI conf c1 c2) T, True)"
    using s1(2) fits(2) s(2) by simp
  from DirCompDBStream_Commit_ok [OF this] obtain s2 where s2: "DirCompDBStream_Commit A s1 = Inr s2" "\<not> dc_trans s2"
    "content (dc_conn s2) = (report_tables (report MI conf c1 c2) T, False)" by blast
  then have "delete_DirCompDBStream A s2 = Inr (dc_conn s2)"
    by (simp add: delete_DirCompDBStream_def delete_DBTransaction_def)
  with s(1) s1(1) s2 show ?thesis by blast
qed

end

section \<open>Properties\<close>

text \<open>C18: A comparison into a database succeeds: from the constructor to the destructor of the stream
  nothing throws, the UNIQUE columns are never violated, and after the commit each of the six tables
  holds exactly the rows of the reported actions, in their order; other tables are as before.\<close>

theorem comparison_stored:
  assumes "dupa_sqlite A db_content result_rows ready finished pending" and "db_content db = (T, False)"
    and "path_hashes MI invar" and "invar c1" and "invar c2" and "reported MI conf c1 c2 = Inr evs"
    and "\<And>p. p \<in> dom (content MI c1) \<union> dom (content MI c2) \<Longrightarrow> no_nul p"
  shows "\<exists>s conn s1 s2. new_DirCompDBStream A db = (Inr s, conn) \<and>
    compare_hashes MI conf (DirCompDBStream_calls A) c1 c2 s = Inr s1 \<and>
    DirCompDBStream_Commit A s1 = Inr s2 \<and> delete_DirCompDBStream A s2 = Inr (dc_conn s2) \<and>
    db_content (dc_conn s2) = (report_tables evs T, False)"
proof -
  have evs: "report MI conf c1 c2 = evs" using assms(6) by (simp add: reported_report)
  have "distinct (map (\<lambda>ev. strncpy (subject ev)) (report MI conf c1 c2))"
    by (rule report_keys_distinct [OF assms(3-5,7)])
  from dupa_sqlite.comparison_into_database [OF assms(1,2) this] evs show ?thesis by simp
qed

theorem comparison_stored_witness:
  "\<exists>s conn s1 s2. new_DirCompDBStream mem_api (Map.empty, False) = (Inr s, conn) \<and>
    compare_hashes list_table test_conf (DirCompDBStream_calls mem_api) table_before table_after s = Inr s1 \<and>
    DirCompDBStream_Commit mem_api s1 = Inr s2 \<and> delete_DirCompDBStream mem_api s2 = Inr (dc_conn s2) \<and>
    fst (dc_conn s2) RenameToTable = Some [[SqlText ''b'', SqlText ''a'']]"
proof -
  have nul: "no_nul p" if "p \<in> dom (content list_table table_before) \<union> dom (content list_table table_after)" for p
    using that by (auto simp: content_def list_table_def table_before_def table_after_def no_nul_def split: if_splits)
  have rows: "report_tables events_between T RenameToTable = Some [[SqlText ''b'', SqlText ''a'']]" for T
    by (simp add: report_tables_def comparison_tables_def events_between_def no_nul_def)
  show ?thesis
    using comparison_stored [OF mem.dupa_sqlite_axioms refl list_hashes.path_hashes_axioms sorted_tables
        reported_between nul] rows by fastforce
qed

end
