(* ===== verification/Cache_Db.thy ===== *)
theory Cache_Db
  imports Hash_Cache Sql_Statements
begin

text \<open>
  The checksum cache in its database (src/src/hash_cache.cpp): \<open>StoreCksums\<close> writes the entries into
  an emptied table within a transaction, \<open>ReadCacheFromDb\<close> reads them back, and nothing is lost on
  the way through SQLite.
\<close>

section \<open>\<open>StoreCksums\<close> and \<open>ReadCacheFromDb\<close> on a connection\<close>

text \<open>The tuple of an entry; off_t and time_t are signed 64-bit integers.\<close>

definition file_fields :: "string \<times> FileInfo \<Rightarrow> field list" where
  "file_fields file =
     [StringField (fst file), IntField (fi_sum (snd file)),
      IntField (word_of_int (fi_size (snd file))), IntField (word_of_int (fi_mtime (snd file)))]"

definition CreateOrEmptyTable :: "('db, 'stmt) sqlite_api \<Rightarrow> (unit, 'db) dbm" where
  "CreateOrEmptyTable A = Exec A create_file_list"

text \<open>\<open>db_\<close> is null if there is no database to write to; the entries come in the iteration order of the
  cache.\<close>

definition StoreCksums_db ::
  "('db, 'stmt) sqlite_api \<Rightarrow> bool \<Rightarrow> (string \<times> FileInfo) list \<Rightarrow> (unit, 'db) dbm" where
  "StoreCksums_db A has_db cache =
     (if \<not> has_db then dreturn ()
      else dbind (CreateOrEmptyTable A) (\<lambda>_.
        transaction A (
          dbind (Prepare A insert_file) (\<lambda>out.
          dbind (transform_to A file_fields cache out) (\<lambda>_. dreturn ())))))"

text \<open>The rows that the loop of \<open>ReadCacheFromDb\<close> sees: path, cksum, size, mtime; the first argument
  bounds their number.\<close>

definition file_list_types :: "coltype list" where
  "file_list_types = [StringCol, IntCol, IntCol, IntCol]"

fun row_of_fields :: "field list \<Rightarrow> db_row" where
  "row_of_fields [StringField path, IntField cksum, IntField size', IntField mtime] =
     (path, sint cksum, sint size', sint mtime)"
| "row_of_fields _ = ([], 0, 0, 0)"

definition file_list_rows ::
  "nat \<Rightarrow> ('db, 'stmt) sqlite_api \<Rightarrow> (string \<Rightarrow> int \<times> 'db) \<Rightarrow> string \<Rightarrow> db_row list res" where
  "file_list_rows k A open_db path =
     rbind (new_DBConnection A open_db path) (\<lambda>db.
       fst (for_query k A file_list_types select_files (\<lambda>fs rows. rows @ [row_of_fields fs]) [] db))"

text \<open>The constructor and the destructor of the cache, with the databases they use.\<close>

definition open_HashCache ::
  "nat \<Rightarrow> ('db, 'stmt) sqlite_api \<Rightarrow> (string \<Rightarrow> int \<times> 'db) \<Rightarrow> string \<Rightarrow> string \<Rightarrow> (HashCache \<times> 'db option) res" where
  "open_HashCache k A open_db read_cache_from dump_cache_to =
     rbind (new_HashCache (file_list_rows k A open_db) read_cache_from) (\<lambda>hc.
       if dump_cache_to \<noteq> [] then rbind (new_DBConnection A open_db dump_cache_to) (\<lambda>db. Inr (hc, Some db))
       else Inr (hc, None))"

section \<open>The round trip\<close>

text \<open>What may be stored: each path once and without NUL, 64-bit sizes and times.\<close>

definition int64 :: "int \<Rightarrow> bool" where
  "int64 x \<longleftrightarrow> - (2 ^ 63) \<le> x \<and> x < 2 ^ 63"

lemma sint_int64 [simp]: "int64 x \<Longrightarrow> sint (word_of_int x :: 64 word) = x"
  by (simp add: int64_def signed_of_int signed_take_bit_int_eq_self)

definition storable :: "(string \<times> FileInfo) list \<Rightarrow> bool" where
  "storable cache \<longleftrightarrow> distinct (map fst cache) \<and>
     (\<forall>e \<in> set cache. no_nul (fst e) \<and> int64 (fi_size (snd e)) \<and> int64 (fi_mtime (snd e)))"

definition file_row :: "string \<times> FileInfo \<Rightarrow> sql_value list" where
  "file_row e = [SqlText (fst e), SqlInt (sint (fi_sum (snd e))), SqlInt (fi_size (snd e)), SqlInt (fi_mtime (snd e))]"

lemma file_row_bound:
  "storable cache \<Longrightarrow> e \<in> set cache \<Longrightarrow> map bind_value (file_fields e) = file_row e"
  by (simp add: storable_def file_fields_def file_row_def)

lemma file_row_stored:
  assumes "storable cache" and "e \<in> set cache"
  shows "row_stored file_list_types (file_row e) (file_fields e)"
proof -
  have whole: "takeWhile (\<lambda>c. c \<noteq> NUL) (fst e) = fst e"
    using assms unfolding storable_def no_nul_def takeWhile_eq_all_conv by auto
  show ?thesis
    unfolding file_list_types_def file_row_def file_fields_def row_stored_simps stored.simps whole by simp
qed

lemma row_of_file_fields:
  "storable cache \<Longrightarrow> e \<in> set cache \<Longrightarrow> row_of_fields (file_fields e) = store_row e"
  by (simp add: storable_def file_fields_def store_row_def)

lemma fold_collect: "fold (\<lambda>x ys. ys @ [f x]) xs ys = ys @ map f xs"
  by (induction xs arbitrary: ys) simp_all

lemma mset_map_permuted:
  "mset ys = mset (map f xs) \<Longrightarrow> \<exists>zs. ys = map f zs \<and> mset zs = mset xs"
proof (induction ys arbitrary: xs)
  case (Cons y ys)
  then have "y \<in> set (map f xs)" by (metis list.set_intros(1) set_mset_mset)
  then obtain as x bs where xs: "xs = as @ x # bs" "y = f x" by (auto dest: split_list)
  with Cons.prems have "mset ys = mset (map f (as @ bs))" by simp
  from Cons.IH [OF this] obtain zs where "ys = map f zs" "mset zs = mset (as @ bs)" by blast
  with xs show ?case by (intro exI [of _ "x # zs"]) simp
qed simp

context dupa_sqlite
begin

lemma StoreCksums_ok:
  assumes "storable cache" and "content db = (T, False)"
  shows "\<exists>db'. StoreCksums_db A True cache db = (Inr (), db') \<and>
    content db' = (T(FileList \<mapsto> map file_row cache), False)"
proof -
  let ?T = "T(FileList \<mapsto> [])" and ?T' = "T(FileList \<mapsto> map file_row cache)"
  have "(\<lambda>t. if t \<in> set [FileList] then Some [] else T t) = ?T" by auto
  then have "sql_effect create_file_list [] (content db) = Some (?T, False)"
    by (simp add: sql_effect_def assms(2))
  from Exec_ok [OF this] obtain db1 where c: "CreateOrEmptyTable A db = (Inr (), db1)" "content db1 = (?T, False)"
    unfolding CreateOrEmptyTable_def by blast
  let ?body = "dbind (Prepare A insert_file) (\<lambda>out. dbind (transform_to A file_fields cache out) (\<lambda>_. dreturn ()))"
  have row: "map bind_value (file_fields x) = file_row x" if "x \<in> set cache" for x
    by (rule file_row_bound [OF assms(1) that])
  have keys: "distinct (map (\<lambda>x. hd (map bind_value (file_fields x))) cache)"
    using assms(1) row by (simp add: storable_def distinct_map inj_on_def file_row_def cong: map_cong)
  have body: "\<exists>x db3. ?body db2 = (Inr x, db3) \<and> content db3 = (?T', True)"
    if db2: "content db2 = (?T, True)" for db2
  proof -
    have "sql_valid insert_file (content db2)" using db2 by (simp add: sql_valid_def)
    from Prepare_ok [OF _ this, of 4] obtain st where st: "Prepare A insert_file db2 = (Inr st, db2)"
      "ready st insert_file []" by auto
    have "\<exists>st' db3. transform_to A file_fields cache st db2 = (Inr st', db3) \<and> ready st' insert_file [] \<and>
        content db3 = (?T(FileList \<mapsto> [] @ map (\<lambda>x. new_row FileList (map bind_value (file_fields x))) cache), True)"
      by (rule insert_all [OF st(2) _ _ db2])
        (use keys in \<open>simp_all add: references_ok_def, simp add: file_fields_def\<close>)
    then obtain st' db3 where "transform_to A file_fields cache st db2 = (Inr st', db3)" "content db3 = (?T', True)"
      using row by (auto cong: map_cong)
    with st(1) show ?thesis by (simp add: dbind_def dreturn_def)
  qed
  have "\<exists>x db'. transaction A ?body db1 = (Inr x, db') \<and> content db' = (?T', False)"
    by (rule transaction_body [OF c(2) body])
  then show ?thesis using c(1) by (auto simp: StoreCksums_db_def dbind_def)
qed

lemma new_DBConnection_ok:
  assumes "open_db path = (SQLITE_OK, db)"
  shows "\<exists>db1. new_DBConnection A open_db path = Inr db1 \<and> content db1 = content db"
proof -
  have "sql_effect connection_pragmas [] (content db) = Some (content db)" by (cases "content db") (simp add: sql_effect_def)
  from Exec_ok [OF this] obtain db1 where e: "Exec A connection_pragmas db = (Inr (), db1)" "content db1 = content db"
    by blast
  then have "new_DBConnection A open_db path = Inr db1"
    using assms by (auto simp: new_DBConnection_def Exec_def split: prod.splits if_splits)
  with e(2) show ?thesis by blast
qed

lemma file_list_rows_ok:
  assumes "open_db path = (SQLITE_OK, db)" and "fst (content db) FileList = Some (map file_row cache)"
    and "storable cache" and "Suc (length cache) < k"
  shows "\<exists>rows. file_list_rows k A open_db path = Inr (map store_row rows) \<and> mset rows = mset cache"
proof -
  from new_DBConnection_ok [where open_db = open_db and path = path, OF assms(1)] obtain db1 where
    conn: "new_DBConnection A open_db path = Inr db1" and e: "content db1 = content db" by blast
  from select_rows assms(2) e obtain rs where rs: "result_rows select_files (content db1) = Some rs"
    "mset rs = mset (map file_row cache)" by metis
  then obtain rows where rows: "rs = map file_row rows" "mset rows = mset cache"
    using mset_map_permuted by blast
  have set: "set rows = set cache" using rows(2) by (metis set_mset_mset)
  have len: "length rows = length cache" using rows(2) by (metis size_mset)
  have typed: "list_all2 (row_stored file_list_types) rs (map file_fields rows)"
    unfolding rows(1) list.rel_map using file_row_stored [OF assms(3)] set
    by (auto intro!: list.rel_refl_strong)
  have "sql_valid select_files (content db1)" using assms(2) e by (auto simp: sql_valid_def)
  from for_query_ok [OF _ this rs(1) typed, where k = k and body = "\<lambda>fs rows. rows @ [row_of_fields fs]" and acc = "[]"]
  have "fst (for_query k A file_list_types select_files (\<lambda>fs rows. rows @ [row_of_fields fs]) [] db1) =
      Inr (map (\<lambda>e. row_of_fields (file_fields e)) rows)"
    using len assms(4) by (auto simp: fold_collect comp_def)
  moreover have "map (\<lambda>e. row_of_fields (file_fields e)) rows = map store_row rows"
    using row_of_file_fields [OF assms(3)] set by simp
  ultimately show ?thesis using conn rows(2) by (auto simp: file_list_rows_def)
qed

end

lemma stored_cache_read:
  assumes "dupa_sqlite A content result_rows ready finished pending" and "content db = (T, False)"
    and "storable cache"
  shows "\<exists>db'. StoreCksums_db A True cache db = (Inr (), db') \<and> content db' = (T(FileList \<mapsto> map file_row cache), False) \<and>
    (\<forall>k open_db path db2. Suc (length cache) < k \<longrightarrow> open_db path = (SQLITE_OK, db2) \<longrightarrow> content db2 = content db' \<longrightarrow>
      (\<exists>cache'. ReadCacheFromDb (file_list_rows k A open_db) path = Inr cache' \<and> mset cache' = mset cache))"
proof -
  from dupa_sqlite.StoreCksums_ok [OF assms(1,3,2)] obtain db' where
    s: "StoreCksums_db A True cache db = (Inr (), db')"
      "content db' = (T(FileList \<mapsto> map file_row cache), False)" by blast
  have "\<exists>cache'. ReadCacheFromDb (file_list_rows k A open_db) path = Inr cache' \<and> mset cache' = mset cache"
    if k: "Suc (length cache) < k" and o: "open_db path = (SQLITE_OK, db2)" "content db2 = content db'" for k open_db path db2
  proof -
    have "fst (content db2) FileList = Some (map file_row cache)" using o(2) s(2) by simp
    from dupa_sqlite.file_list_rows_ok [where open_db = open_db, OF assms(1) o(1) this assms(3) k] obtain rows where
      r: "file_list_rows k A open_db path = Inr (map store_row rows)" "mset rows = mset cache" by blast
    have "mset (map fst rows) = mset (map fst cache)" using r(2) by simp
    then have "distinct (map fst rows)"
      using assms(3) mset_eq_imp_distinct_iff unfolding storable_def by blast
    moreover have "file_list_rows k A open_db path = Inr (StoreCksums rows)" using r(1) by (simp add: StoreCksums_def)
    ultimately have "ReadCacheFromDb (file_list_rows k A open_db) path = Inr rows"
      by (rule ReadCacheFromDb_StoreCksums)
    with r(2) show ?thesis by blast
  qed
  with s show ?thesis by blast
qed

section \<open>Properties\<close>

text \<open>C16: What \<open>StoreCksums\<close> writes, \<open>ReadCacheFromDb\<close> reads back on any later connection to the same
  content: every entry of the cache with its checksum, size and time, and nothing else, in some
  order. Neither fails, although SQLite keeps the unsigned checksums as signed integers.\<close>

theorem cache_survives_database:
  assumes "dupa_sqlite A content result_rows ready finished pending" and "content db = (T, False)"
    and "storable cache"
    and "Suc (length cache) < k"
  shows "\<exists>db'. StoreCksums_db A True cache db = (Inr (), db') \<and>
    (\<forall>open_db path db2. open_db path = (SQLITE_OK, db2) \<longrightarrow> content db2 = content db' \<longrightarrow>
      (\<exists>cache'. ReadCacheFromDb (file_list_rows k A open_db) path = Inr cache' \<and> mset cache' = mset cache))"
  using stored_cache_read [OF assms(1-3)] assms(4) by blast

definition small_cache :: "(string \<times> FileInfo) list" where
  "small_cache = [(''/d/a'', \<lparr>fi_size = 10, fi_mtime = 5, fi_sum = - 1\<rparr>), (''/d/b'', \<lparr>fi_size = 0, fi_mtime = 6, fi_sum = 0\<rparr>)]"

theorem cache_survives_database_witness:
  "\<exists>T cache'. StoreCksums_db mem_api True small_cache (Map.empty, False) = (Inr (), T) \<and>
    ReadCacheFromDb (file_list_rows 9 mem_api (\<lambda>_. (SQLITE_OK, T))) ''c.db'' = Inr cache' \<and>
    mset cache' = mset small_cache"
proof -
  have "storable small_cache" "Suc (length small_cache) < 9"
    by (simp_all add: storable_def small_cache_def no_nul_def int64_def)
  from cache_survives_database [OF mem.dupa_sqlite_axioms refl this] obtain T where
    "StoreCksums_db mem_api True small_cache (Map.empty, False) = (Inr (), T)"
    "\<forall>open_db path db2. open_db path = (SQLITE_OK, db2) \<longrightarrow> db2 = T \<longrightarrow>
      (\<exists>cache'. ReadCacheFromDb (file_list_rows 9 mem_api open_db) path = Inr cache' \<and>
        mset cache' = mset small_cache)" by blast
  then show ?thesis by (metis (no_types))
qed

text \<open>Every typed value survives being bound and read back: integers of either signedness by their
  bits, doubles, and strings up to their first NUL.\<close>

lemma value_survives_binding:
  "stored (bind_value v) t w \<longleftrightarrow> has_type v t \<and>
    w = (case v of StringField s \<Rightarrow> StringField (takeWhile (\<lambda>c. c \<noteq> NUL) s) | _ \<Rightarrow> v)"
  by (cases v) (auto simp: takeWhile_strncpy)

end
