(* ===== verification/Cached_Scan.thy ===== *)
theory Cached_Scan
  imports Cache_Threads Scan_Termination
begin

text \<open>
  The scan of a directory together with the checksum cache (\<open>ScanDirectory\<close> in src/src/scanner_int.h and
  \<open>HashCache::operator()\<close> in src/src/hash_cache.cpp). The tasks of the workers are lookups, whose critical
  sections interleave with each other, with the walk of the main thread and, in a comparison, with a
  second scan that uses the same cache.
\<close>

section \<open>The steps\<close>

text \<open>A scan together with the lookups of its submitted tasks, in the same order; or the fault that ended
  it. The cache is shared, so it is not part of the scan.\<close>

type_synonym ('p, 'h, 's) cached_scan = "(('p, 'h, 's) scan_state \<times> 'p lookup list) res"

text \<open>What a worker does with the result of its lookup; an exception is logged.\<close>

definition report_lookup ::
  "'p path_api \<Rightarrow> ('p, 'h, 's) ScanProcessor \<Rightarrow> bool \<Rightarrow> 'p \<times> 'h \<Rightarrow> FileInfo res \<Rightarrow> 's \<Rightarrow> 's res" where
  "report_lookup P processor lockable task r s =
     (case r of
        Inl e \<Rightarrow> Inr s
      | Inr f_info \<Rightarrow>
          if fi_sum f_info \<noteq> 0 then
            (if lockable then sp_File processor (p_filename P (fst task)) (snd task) f_info s
             else Inl (Undefined ''lock of a destroyed mutex''))
          else Inr s)"

text \<open>A new task starts with its lookup.\<close>

definition with_lookups :: "'p lookup list \<Rightarrow> ('p, 'h, 's) scan_state \<Rightarrow> ('p, 'h, 's) cached_scan" where
  "with_lookups ls st = Inr (st, ls @ map (\<lambda>t. Start (fst t)) (drop (length ls) (submitted st)))"

inductive cached_step ::
  "'p path_api \<Rightarrow> os_api \<Rightarrow> 'p file_system \<Rightarrow> ('p, 'h, 's) ScanProcessor \<Rightarrow>
   ('p, 'h, 's) cached_scan \<times> HashCache \<Rightarrow> ('p, 'h, 's) cached_scan \<times> HashCache \<Rightarrow> bool" for P os FS processor where
  c_pop: "current_dir st = None \<Longrightarrow> dirs_to_process st = entry # rest \<Longrightarrow>
    cached_step P os FS processor (Inr (st, ls), hc)
      (rbind (open_directory P FS processor entry (st\<lparr>dirs_to_process := rest\<rparr>)) (\<lambda>st'. Inr (st', ls)), hc)"
| c_visit: "current_dir st = Some (handle, it # its) \<Longrightarrow>
    cached_step P os FS processor (Inr (st, ls), hc)
      (with_lookups ls (visit_entry FS handle it (st\<lparr>current_dir := Some (handle, its)\<rparr>)), hc)"
| c_leave: "current_dir st = Some (handle, []) \<Longrightarrow>
    cached_step P os FS processor (Inr (st, ls), hc) (Inr (st\<lparr>current_dir := None\<rparr>, ls), hc)"
| c_section: "i < length ls \<Longrightarrow> sections_left (ls ! i) \<noteq> 0 \<Longrightarrow> lookup_section P os (ls ! i) hc = (l', hc') \<Longrightarrow>
    cached_step P os FS processor (Inr (st, ls), hc) (Inr (st, ls[i := l']), hc')"
| c_report: "ls = ls1 @ Answer p r # ls2 \<Longrightarrow> submitted st = ts1 @ task # ts2 \<Longrightarrow> length ls1 = length ts1 \<Longrightarrow>
    cached_step P os FS processor (Inr (st, ls), hc)
      (rbind (report_lookup P processor (can_lock FS st) task r (proc_state st))
        (\<lambda>s. Inr (st\<lparr>submitted := ts1 @ ts2, proc_state := s\<rparr>, ls1 @ ls2)), hc)"
| c_destroy: "current_dir st = None \<Longrightarrow> dirs_to_process st = [] \<Longrightarrow> mutex_alive st \<Longrightarrow>
    cached_step P os FS processor (Inr (st, ls), hc) (Inr (st\<lparr>mutex_alive := False\<rparr>, ls), hc)"

text \<open>A scan has stopped when it failed or has nothing left to do; then it has an outcome.\<close>

definition stopped :: "('p, 'h, 's) cached_scan \<Rightarrow> bool" where
  "stopped x = (case x of Inl e \<Rightarrow> True | Inr (st, ls) \<Rightarrow> scan_done st)"

definition outcome :: "('p, 'h, 's) cached_scan \<Rightarrow> 's res" where
  "outcome x = rbind x (\<lambda>(st, ls). Inr (proc_state st))"

text \<open>The construction of the pool may already fail.\<close>

definition begin_scan :: "int \<Rightarrow> 'p \<Rightarrow> 's \<Rightarrow> ('p, 'h, 's) cached_scan" where
  "begin_scan n root s = rbind (start_scan n root s) (\<lambda>st. Inr (st, []))"

lemma begin_scan_cases:
  "begin_scan n root s = (if 0 < n then Inr (scan_locals root s, []) else Inl (Assertion ''concurrency > 0''))"
  by (simp add: begin_scan_def start_scan_cases)

text \<open>The possible outcomes of a scan, each with the cache it leaves.\<close>

definition cached_ScanDirectory ::
  "'p path_api \<Rightarrow> os_api \<Rightarrow> 'p file_system \<Rightarrow> ('p, 'h, 's) ScanProcessor \<Rightarrow> int \<Rightarrow> 'p \<Rightarrow> 's \<Rightarrow> HashCache \<Rightarrow>
   ('s res \<times> HashCache) set" where
  "cached_ScanDirectory P os FS processor n root s hc =
     {(outcome x, hc') | x hc'. (cached_step P os FS processor)\<^sup>*\<^sup>* (begin_scan n root s, hc) (x, hc') \<and> stopped x}"

text \<open>Two scans at once.\<close>

inductive two_scans_step ::
  "'p path_api \<Rightarrow> os_api \<Rightarrow> 'p file_system \<Rightarrow> ('p, 'h, 's) ScanProcessor \<Rightarrow>
   (('p, 'h, 's) cached_scan \<times> ('p, 'h, 's) cached_scan) \<times> HashCache \<Rightarrow>
   (('p, 'h, 's) cached_scan \<times> ('p, 'h, 's) cached_scan) \<times> HashCache \<Rightarrow> bool" for P os FS processor where
  first_scan: "cached_step P os FS processor (x, hc) (x', hc') \<Longrightarrow>
    two_scans_step P os FS processor ((x, y), hc) ((x', y), hc')"
| second_scan: "cached_step P os FS processor (y, hc) (y', hc') \<Longrightarrow>
    two_scans_step P os FS processor ((x, y), hc) ((x, y'), hc')"

definition two_cached_scans ::
  "'p path_api \<Rightarrow> os_api \<Rightarrow> 'p file_system \<Rightarrow> ('p, 'h, 's) ScanProcessor \<Rightarrow> int \<Rightarrow> 'p \<Rightarrow> 'p \<Rightarrow> 's \<Rightarrow> HashCache \<Rightarrow>
   (('s res \<times> 's res) \<times> HashCache) set" where
  "two_cached_scans P os FS processor n root1 root2 s hc =
     {((outcome x, outcome y), hc') | x y hc'.
        (two_scans_step P os FS processor)\<^sup>*\<^sup>* ((begin_scan n root1 s, begin_scan n root2 s), hc) ((x, y), hc') \<and>
        stopped x \<and> stopped y}"

section \<open>A scan with the cache is a scan of plain files\<close>

text \<open>The file system as the scan sees it through a correct cache: the files as they are read without
  any cache.\<close>

definition plain_files :: "'p path_api \<Rightarrow> os_api \<Rightarrow> 'p file_system \<Rightarrow> 'p file_system" where
  "plain_files P os FS = FS\<lparr>fs_info := \<lambda>p. case plain_info P os p of Inl e \<Rightarrow> None | Inr fi \<Rightarrow> Some fi\<rparr>"

lemma plain_files_simps [simp]:
  "fs_list (plain_files P os FS) = fs_list FS" "fs_is_symlink (plain_files P os FS) = fs_is_symlink FS"
  "fs_is_directory (plain_files P os FS) = fs_is_directory FS" "fs_is_regular (plain_files P os FS) = fs_is_regular FS"
  "fs_info (plain_files P os FS) = (\<lambda>p. case plain_info P os p of Inl e \<Rightarrow> None | Inr fi \<Rightarrow> Some fi)"
  "fs_late_lock (plain_files P os FS) = fs_late_lock FS"
  by (simp_all add: plain_files_def)

lemma plain_open [simp]: "open_directory P (plain_files P' os FS) = open_directory P FS"
  by (intro ext) (simp add: open_directory_def)

lemma plain_visit [simp]: "visit_entry (plain_files P os FS) = visit_entry FS"
  by (intro ext) (simp add: visit_entry_def split: option.split bool.split)

lemma plain_lock [simp]: "can_lock (plain_files P os FS) = can_lock FS"
  by (intro ext) (simp add: can_lock_def)

lemma plain_below [simp]: "below (plain_files P os FS) = below FS"
  by (simp add: below_def is_subdir_def)

lemma report_plain:
  "report_lookup P processor lockable t (plain_info P os (fst t)) s =
    run_task P (plain_files P os FS) processor lockable t s"
  by (simp add: report_lookup_def run_task_def split: sum.split)

text \<open>What holds during a scan: a correct lookup for every submitted task.\<close>

definition scan_ok :: "'p path_api \<Rightarrow> os_api \<Rightarrow> ('p, 'h, 's) cached_scan \<Rightarrow> bool" where
  "scan_ok P os x = (case x of Inl e \<Rightarrow> True | Inr (st, ls) \<Rightarrow>
     map path_of_lookup ls = map fst (submitted st) \<and> list_all (lookup_ok P os) ls)"

definition the_scan :: "('p, 'h, 's) cached_scan \<Rightarrow> ('p, 'h, 's) scan_state res" where
  "the_scan x = rbind x (\<lambda>(st, ls). Inr st)"

definition open_sections :: "('p, 'h, 's) cached_scan \<Rightarrow> nat" where
  "open_sections x = (case x of Inl e \<Rightarrow> 0 | Inr (st, ls) \<Rightarrow> sum_list (map sections_left ls))"

text \<open>A step of the plain scan between states and faults.\<close>

definition plain_step where
  "plain_step P FS processor x x' = (case x of Inl e \<Rightarrow> False | Inr st \<Rightarrow> scan_step P FS processor st x')"

lemma the_scan_simps [simp]: "the_scan (Inl e) = Inl e" "the_scan (Inr (st, ls)) = Inr st"
  by (simp_all add: the_scan_def)

lemma plain_step_simps [simp]:
  "\<not> plain_step P FS processor (Inl e) x'" "plain_step P FS processor (Inr st) x' = scan_step P FS processor st x'"
  by (simp_all add: plain_step_def)

lemma scan_ok_simps [simp]:
  "scan_ok P os (Inl e)"
  "scan_ok P os (Inr (st, ls)) \<longleftrightarrow> map path_of_lookup ls = map fst (submitted st) \<and> list_all (lookup_ok P os) ls"
  by (simp_all add: scan_ok_def)

lemma visit_entry_submitted:
  "submitted (visit_entry FS handle it st) = (if is_task FS it then submitted st @ [(it, handle)] else submitted st)"
  by (simp add: visit_entry_def is_task_def Let_def split: option.split bool.split)

lemma with_lookups_visit:
  assumes "map path_of_lookup ls = map fst (submitted st)"
  shows "with_lookups ls (visit_entry FS handle it st) =
    Inr (visit_entry FS handle it st, ls @ (if is_task FS it then [Start it] else []))"
proof -
  have "length ls = length (submitted st)" using arg_cong [OF assms, of length] by simp
  then show ?thesis by (simp add: with_lookups_def visit_entry_submitted)
qed

lemma open_directory_submitted:
  "open_directory P FS processor entry st = Inr st' \<Longrightarrow> submitted st' = submitted st"
  by (auto simp: open_directory_def res_simps split: option.splits)

text \<open>A section of one lookup in a list of them.\<close>

lemma lookup_section_in_list:
  assumes "os_ok os" and "cache_ok os hc" and "list_all (lookup_ok P os) ls" and "i < length ls"
    and "sections_left (ls ! i) \<noteq> 0" and "lookup_section P os (ls ! i) hc = (l', hc')"
  shows "cache_ok os hc' \<and> list_all (lookup_ok P os) (ls[i := l']) \<and>
    map path_of_lookup (ls[i := l']) = map path_of_lookup ls \<and>
    sum_list (map sections_left (ls[i := l'])) < sum_list (map sections_left ls)"
proof -
  have "cache_step P os (ls, hc) (ls[i := l'], hc')" by (rule turn [OF assms(4-6)])
  moreover have "lookups_ok P os (map path_of_lookup ls) (ls, hc)" using assms(2,3) by (simp add: lookups_ok_def)
  ultimately have "lookups_ok P os (map path_of_lookup ls) (ls[i := l'], hc') \<and>
      sum_list (map sections_left (fst (ls[i := l'], hc'))) < sum_list (map sections_left (fst (ls, hc)))"
    by (intro cache_step_ok [OF assms(1)])
  then show ?thesis unfolding lookups_ok_def fst_conv snd_conv by blast
qed

text \<open>Every step keeps the cache and the scan correct, and is a step of the plain scan or brings a lookup
  closer to its answer.\<close>

lemma cached_step_ok:
  assumes "os_ok os" and "cached_step P os FS processor (x, hc) (x', hc')" and "scan_ok P os x" and "cache_ok os hc"
  shows "scan_ok P os x' \<and> cache_ok os hc' \<and>
    (plain_step P (plain_files P os FS) processor (the_scan x) (the_scan x') \<or>
      the_scan x' = the_scan x \<and> open_sections x' < open_sections x)"
  using assms(2)
proof cases
  case (c_pop st entry rest ls)
  let ?open = "open_directory P FS processor entry (st\<lparr>dirs_to_process := rest\<rparr>)"
  have s: "scan_step P (plain_files P os FS) processor st ?open"
    using scan_step.pop [of st entry rest P "plain_files P os FS" processor] c_pop by simp
  have "scan_ok P os x'" using c_pop assms(3) by (cases ?open) (auto dest: open_directory_submitted)
  moreover have "the_scan x' = ?open" using c_pop by (cases ?open) simp_all
  ultimately show ?thesis using c_pop s assms(4) by simp
next
  case (c_visit st handle it its ls)
  let ?st = "st\<lparr>current_dir := Some (handle, its)\<rparr>"
  have "map path_of_lookup ls = map fst (submitted ?st)" using c_visit assms(3) by simp
  from with_lookups_visit [OF this, of FS handle it]
  have x': "x' = Inr (visit_entry FS handle it ?st, ls @ (if is_task FS it then [Start it] else []))"
    using c_visit by simp
  have "scan_step P (plain_files P os FS) processor st (Inr (visit_entry FS handle it ?st))"
    using scan_step.visit [of st handle it its P "plain_files P os FS" processor] c_visit by simp
  moreover have "scan_ok P os x'" using x' c_visit(1) assms(3) by (simp add: visit_entry_submitted)
  ultimately show ?thesis using x' c_visit(1,3) assms(4) by simp
next
  case (c_leave st handle ls)
  then show ?thesis using scan_step.leave [of st handle P "plain_files P os FS" processor] assms(3,4) by simp
next
  case (c_section i ls l' st)
  have "list_all (lookup_ok P os) ls" using assms(3) c_section(1) by simp
  from lookup_section_in_list [OF assms(1,4) this c_section(3-5)] show ?thesis
    using assms(3) c_section(1,2) by (simp add: open_sections_def)
next
  case (c_report ls ls1 p r ls2 st ts1 task ts2)
  have l: "map path_of_lookup ls1 @ p # map path_of_lookup ls2 = map fst ts1 @ fst task # map fst ts2"
    "r = plain_info P os p" "list_all (lookup_ok P os) ls1" "list_all (lookup_ok P os) ls2"
    using assms(3) c_report by simp_all
  then have p: "map path_of_lookup ls1 = map fst ts1" "fst task = p" "map path_of_lookup ls2 = map fst ts2"
    using c_report(6) by (auto simp: append_eq_append_conv)
  let ?run = "run_task P (plain_files P os FS) processor (can_lock FS st) task (proc_state st)"
  have run: "report_lookup P processor (can_lock FS st) task r (proc_state st) = ?run"
    using l(2) p(2) report_plain [of P processor "can_lock FS st" task os] by simp
  have "scan_step P (plain_files P os FS) processor st (rbind ?run (\<lambda>s. Inr (st\<lparr>submitted := ts1 @ ts2, proc_state := s\<rparr>)))"
    using scan_step.work [OF c_report(5), of P "plain_files P os FS" processor] by simp
  moreover have "the_scan x' = rbind ?run (\<lambda>s. Inr (st\<lparr>submitted := ts1 @ ts2, proc_state := s\<rparr>))"
    using c_report(2) run by (cases ?run) simp_all
  moreover have "scan_ok P os x'" using c_report(2) run l(3,4) p by (cases ?run) simp_all
  ultimately show ?thesis using c_report(1,3) assms(4) by simp
next
  case (c_destroy st ls)
  then show ?thesis using scan_step.destroy [of st P "plain_files P os FS" processor] assms(3,4) by simp
qed

text \<open>A scan that has not stopped can always go on, also when only the workers have something to do.\<close>

lemma cached_step_exists:
  assumes "scan_ok P os x" and "\<not> stopped x"
  shows "\<exists>x' hc'. cached_step P os FS processor (x, hc) (x', hc')"
proof -
  obtain st ls where x: "x = Inr (st, ls)" using assms(2) by (cases x) (auto simp: stopped_def)
  then have "\<not> scan_done st" using assms(2) by (simp add: stopped_def)
  from not_done_step [OF this, of P FS processor] obtain q where "scan_step P FS processor st q" ..
  then show ?thesis
  proof cases
    case (pop entry rest)
    then show ?thesis using x cached_step.c_pop by blast
  next
    case (visit handle it its)
    show ?thesis unfolding x
      by (intro exI) (rule cached_step.c_visit [OF visit(2), unfolded with_lookups_def])
  next
    case (leave handle)
    show ?thesis unfolding x by (intro exI) (rule cached_step.c_leave [OF leave(2)])
  next
    case (work ts1 task ts2)
    have len: "length ls = length (submitted st)" using assms(1) x by (auto dest: arg_cong [of _ _ length])
    then have i: "length ts1 < length ls" using work by simp
    show ?thesis
    proof (cases "sections_left (ls ! length ts1) = 0")
      case True
      then obtain p r where "ls ! length ts1 = Answer p r" by (auto simp: sections_left_0)
      then have "ls = take (length ts1) ls @ Answer p r # drop (Suc (length ts1)) ls"
        using i id_take_nth_drop [OF i] by simp
      from cached_step.c_report [OF this work(2)] show ?thesis using x i by fastforce
    next
      case False
      then show ?thesis using x cached_step.c_section [OF i False] by (metis surj_pair)
    qed
  next
    case destroy
    show ?thesis unfolding x by (intro exI) (rule cached_step.c_destroy [OF destroy(2-4)])
  qed
qed

lemma begin_scan_ok: "scan_ok P os (begin_scan n root s)" "the_scan (begin_scan n root s) = start_scan n root s"
  by (simp_all add: begin_scan_cases start_scan_cases scan_locals_def)

text \<open>The outcomes of runs of the plain scan, once more as a reflexive transitive closure.\<close>

definition scan_end :: "('p, 'h, 's) scan_state res \<Rightarrow> bool" where
  "scan_end x = (case x of Inl e \<Rightarrow> True | Inr st \<Rightarrow> scan_done st)"

lemma scan_run_closure:
  "scan_run P FS processor st r \<longleftrightarrow>
    (\<exists>x. (plain_step P FS processor)\<^sup>*\<^sup>* (Inr st) x \<and> scan_end x \<and> r = rbind x (\<lambda>st. Inr (proc_state st)))"
    (is "?run st r \<longleftrightarrow> ?closure (Inr st) r")
proof
  assume "?run st r"
  then show "?closure (Inr st) r"
  proof induction
    case (finished st)
    then show ?case by (intro exI [of _ "Inr st"]) (simp add: scan_end_def)
  next
    case (stepped st st' r)
    then have "plain_step P FS processor (Inr st) (Inr st')" by simp
    moreover from stepped.IH obtain x where "(plain_step P FS processor)\<^sup>*\<^sup>* (Inr st') x" "scan_end x"
      "r = rbind x (\<lambda>st. Inr (proc_state st))" by blast
    ultimately show ?case by (blast intro: converse_rtranclp_into_rtranclp)
  next
    case (failed st e)
    then show ?case by (intro exI [of _ "Inl e"]) (auto simp: scan_end_def)
  qed
next
  have "case x of Inl e \<Rightarrow> r = Inl e | Inr st \<Rightarrow> ?run st r"
    if "(plain_step P FS processor)\<^sup>*\<^sup>* x y" "scan_end y" "r = rbind y (\<lambda>st. Inr (proc_state st))" for x y
    using that
  proof (induction rule: converse_rtranclp_induct)
    case base
    then show ?case by (auto simp: scan_end_def intro: scan_run.finished split: sum.split)
  next
    case (step x x')
    then show ?case by (cases x; cases x') (auto intro: scan_run.stepped scan_run.failed)
  qed
  then show "?run st r" if "?closure (Inr st) r" using that by fastforce
qed

lemma ScanDirectory_closure:
  fixes processor :: "('p, 'h, 's) ScanProcessor"
  shows "out \<in> ScanDirectory P FS processor n r s \<longleftrightarrow>
    (\<exists>x. (plain_step P FS processor)\<^sup>*\<^sup>* (start_scan n r s) x \<and> scan_end x \<and> out = rbind x (\<lambda>st. Inr (proc_state st)))"
proof (cases "start_scan n r s :: ('p, 'h, 's) scan_state res")
  case (Inl e)
  have "x = Inl e" if "(plain_step P FS processor)\<^sup>*\<^sup>* (Inl e) x" for x
    using that by (cases rule: converse_rtranclpE) simp_all
  then have "(\<exists>x. (plain_step P FS processor)\<^sup>*\<^sup>* (Inl e) x \<and> scan_end x \<and> out = rbind x (\<lambda>st. Inr (proc_state st))) \<longleftrightarrow>
      out = Inl e" by (metis rbind.simps(1) rtranclp.rtrancl_refl scan_end_def sum.case(1))
  then show ?thesis by (simp add: ScanDirectory_def Inl)
next
  case (Inr st)
  then show ?thesis by (simp add: ScanDirectory_def scan_run_closure)
qed

lemma scan_run_outcome: "scan_end (the_scan x) = stopped x" "rbind (the_scan x) (\<lambda>st. Inr (proc_state st)) = outcome x"
  by (cases x; auto simp: the_scan_def scan_end_def stopped_def outcome_def)+

lemma cached_steps_ok:
  assumes "os_ok os" and "(cached_step P os FS processor)\<^sup>*\<^sup>* (x, hc) (x', hc')" and "scan_ok P os x" and "cache_ok os hc"
  shows "scan_ok P os x' \<and> cache_ok os hc' \<and>
    (plain_step P (plain_files P os FS) processor)\<^sup>*\<^sup>* (the_scan x) (the_scan x')"
  using assms(2)
proof (induction rule: rtranclp_induct2)
  case refl
  then show ?case using assms(3,4) by simp
next
  case (step x1 hc1 x2 hc2)
  with cached_step_ok [OF assms(1) step(2)] show ?case by (metis rtranclp.rtrancl_into_rtrancl)
qed

section \<open>Every run of the plain scan is one with the cache\<close>

text \<open>A lookup runs to its end while everything else waits.\<close>

lemma lookup_runs:
  assumes "os_ok os" and "cache_ok os hc" and "list_all (lookup_ok P os) ls" and "i < length ls"
  shows "\<exists>hc'. (cached_step P os FS processor)\<^sup>*\<^sup>* (Inr (st, ls), hc)
      (Inr (st, ls[i := Answer (path_of_lookup (ls ! i)) (plain_info P os (path_of_lookup (ls ! i)))]), hc') \<and>
    cache_ok os hc'"
  using assms(2-4)
proof (induction "sections_left (ls ! i)" arbitrary: ls hc rule: less_induct)
  case less
  show ?case
  proof (cases "sections_left (ls ! i) = 0")
    case True
    then obtain p r where a: "ls ! i = Answer p r" by (auto simp: sections_left_0)
    moreover have "lookup_ok P os (ls ! i)" using less.prems(2,3) by (simp add: list_all_length)
    ultimately have "ls[i := Answer (path_of_lookup (ls ! i)) (plain_info P os (path_of_lookup (ls ! i)))] = ls"
      using list_update_id [of ls i] by simp
    then show ?thesis using less.prems(1) by auto
  next
    case False
    obtain l' hc1 where s: "lookup_section P os (ls ! i) hc = (l', hc1)" by (cases "lookup_section P os (ls ! i) hc")
    have "lookup_ok P os (ls ! i)" using less.prems(2,3) by (simp add: list_all_length)
    from lookup_section_ok [OF assms(1) less.prems(1) this s] have l':
      "cache_ok os hc1" "path_of_lookup l' = path_of_lookup (ls ! i)" "sections_left l' < sections_left (ls ! i)"
      using False by simp_all
    have ok: "list_all (lookup_ok P os) (ls[i := l'])"
      using lookup_section_in_list [OF assms(1) less.prems(1,2,3) False s] by simp
    from less.hyps [of "ls[i := l']" hc1] l' ok less.prems(3) obtain hc' where
      "(cached_step P os FS processor)\<^sup>*\<^sup>* (Inr (st, ls[i := l']), hc1)
        (Inr (st, ls[i := Answer (path_of_lookup (ls ! i)) (plain_info P os (path_of_lookup (ls ! i)))]), hc')"
      "cache_ok os hc'" by auto
    with cached_step.c_section [OF less.prems(3) False s, of FS processor st] show ?thesis
      by (blast intro: converse_rtranclp_into_rtranclp)
  qed
qed

text \<open>No lookup has begun.\<close>

definition no_lookup :: "('p, 'h, 's) cached_scan \<Rightarrow> bool" where
  "no_lookup x = (case x of Inl e \<Rightarrow> True | Inr (st, ls) \<Rightarrow> ls = map (\<lambda>t. Start (fst t)) (submitted st))"

lemma no_lookup_simps [simp]:
  "no_lookup (Inl e)" "no_lookup (Inr (st, ls)) \<longleftrightarrow> ls = map (\<lambda>t. Start (fst t)) (submitted st)"
  by (simp_all add: no_lookup_def)

lemma start_lookups [simp]:
  "list_all (lookup_ok P os) (map (\<lambda>t. Start (fst t)) ts)" "map path_of_lookup (map (\<lambda>t. Start (fst t)) ts) = map fst ts"
  by (simp_all add: list_all_iff)

lemma plain_step_cached:
  assumes "os_ok os" and "cache_ok os hc" and "no_lookup x"
    and "plain_step P (plain_files P os FS) processor (the_scan x) q"
  shows "\<exists>x' hc'. (cached_step P os FS processor)\<^sup>*\<^sup>* (x, hc) (x', hc') \<and> the_scan x' = q \<and> no_lookup x' \<and> cache_ok os hc'"
proof -
  obtain st where x: "x = Inr (st, map (\<lambda>t. Start (fst t)) (submitted st))" (is "_ = Inr (st, ?ls)")
    using assms(3,4) by (cases x) auto
  have "scan_step P (plain_files P os FS) processor st q" using assms(4) x by simp
  then show ?thesis
  proof cases
    case (pop entry rest)
    let ?x' = "rbind (open_directory P FS processor entry (st\<lparr>dirs_to_process := rest\<rparr>)) (\<lambda>st'. Inr (st', ?ls))"
    have "cached_step P os FS processor (x, hc) (?x', hc)" unfolding x by (rule cached_step.c_pop [OF pop(2,3)])
    moreover have "the_scan ?x' = q \<and> no_lookup ?x'"
      using pop(1) by (cases "open_directory P FS processor entry (st\<lparr>dirs_to_process := rest\<rparr>)")
        (auto dest: open_directory_submitted)
    ultimately show ?thesis using assms(2) by blast
  next
    case (visit handle it its)
    let ?st = "visit_entry FS handle it (st\<lparr>current_dir := Some (handle, its)\<rparr>)"
    have "cached_step P os FS processor (x, hc) (with_lookups ?ls ?st, hc)" unfolding x
      by (rule cached_step.c_visit [OF visit(2)])
    moreover have "with_lookups ?ls ?st = Inr (?st, map (\<lambda>t. Start (fst t)) (submitted ?st))"
      by (subst with_lookups_visit) (simp_all add: visit_entry_submitted comp_def)
    ultimately show ?thesis using assms(2) visit(1) by (intro exI [of _ "with_lookups ?ls ?st"] exI [of _ hc]) simp
  next
    case (leave handle)
    then show ?thesis using cached_step.c_leave [OF leave(2), of P os FS processor ?ls hc] assms(2) x
      by (intro exI [of _ "Inr (st\<lparr>current_dir := None\<rparr>, ?ls)"] exI [of _ hc]) simp
  next
    case (work ts1 task ts2)
    let ?ls1 = "map (\<lambda>t. Start (fst t)) ts1" and ?ls2 = "map (\<lambda>t. Start (fst t)) ts2"
    have ls: "?ls = ?ls1 @ Start (fst task) # ?ls2" using work(2) by simp
    then have i: "length ts1 < length ?ls" "?ls ! length ts1 = Start (fst task)"
      by (simp_all add: nth_append)
    have "?ls[length ts1 := Answer (fst task) (plain_info P os (fst task))] =
        ?ls1 @ Answer (fst task) (plain_info P os (fst task)) # ?ls2"
      unfolding ls by (simp add: list_update_append)
    with lookup_runs [OF assms(1,2) _ i(1), of P FS processor st] i(2) obtain hc' where
      r: "(cached_step P os FS processor)\<^sup>*\<^sup>* (x, hc)
        (Inr (st, ?ls1 @ Answer (fst task) (plain_info P os (fst task)) # ?ls2), hc')" "cache_ok os hc'"
      unfolding x by auto
    let ?run = "run_task P (plain_files P os FS) processor (can_lock FS st) task (proc_state st)"
    let ?x' = "rbind ?run
      (\<lambda>s. Inr (st\<lparr>submitted := ts1 @ ts2, proc_state := s\<rparr>, ?ls1 @ ?ls2))"
    have "cached_step P os FS processor (Inr (st, ?ls1 @ Answer (fst task) (plain_info P os (fst task)) # ?ls2), hc') (?x', hc')"
      unfolding report_plain [symmetric] by (rule cached_step.c_report [OF refl work(2)]) simp
    moreover have "the_scan ?x' = q \<and> no_lookup ?x'"
      unfolding work(1) by (cases ?run) simp_all
    ultimately show ?thesis
      using rtranclp.rtrancl_into_rtrancl [OF r(1)] r(2) by (intro exI [of _ ?x'] exI [of _ hc']) blast
  next
    case destroy
    then show ?thesis using cached_step.c_destroy [OF destroy(2-4), of P os FS processor ?ls hc] assms(2) x
      by (intro exI [of _ "Inr (st\<lparr>mutex_alive := False\<rparr>, ?ls)"] exI [of _ hc]) simp
  qed
qed

lemma plain_steps_cached:
  assumes "os_ok os" and "cache_ok os hc" and "no_lookup x"
    and "(plain_step P (plain_files P os FS) processor)\<^sup>*\<^sup>* (the_scan x) q"
  shows "\<exists>x' hc'. (cached_step P os FS processor)\<^sup>*\<^sup>* (x, hc) (x', hc') \<and> the_scan x' = q \<and> no_lookup x' \<and> cache_ok os hc'"
  using assms(4)
proof (induction rule: rtranclp_induct)
  case base
  then show ?case using assms(2,3) by blast
next
  case (step y z)
  from step.IH obtain x1 hc1 where 1: "(cached_step P os FS processor)\<^sup>*\<^sup>* (x, hc) (x1, hc1)"
    "the_scan x1 = y" "no_lookup x1" "cache_ok os hc1" by blast
  from plain_step_cached [OF assms(1) 1(4,3)] step.hyps(2) 1(2) obtain x2 hc2 where
    "(cached_step P os FS processor)\<^sup>*\<^sup>* (x1, hc1) (x2, hc2)" "the_scan x2 = z" "no_lookup x2" "cache_ok os hc2"
    by blast
  note 2 = this
  show ?case by (intro exI [of _ x2] exI [of _ hc2] conjI rtranclp_trans [OF 1(1) 2(1)]) (rule 2)+
qed

lemma cached_ScanDirectory_plain:
  assumes "os_ok os" and "cache_ok os hc"
  shows "fst ` cached_ScanDirectory P os FS processor n r s hc = ScanDirectory P (plain_files P os FS) processor n r s"
proof (intro equalityI subsetI)
  fix out assume "out \<in> fst ` cached_ScanDirectory P os FS processor n r s hc"
  then obtain x hc' where x: "(cached_step P os FS processor)\<^sup>*\<^sup>* (begin_scan n r s, hc) (x, hc')" "stopped x" "out = outcome x"
    by (auto simp: cached_ScanDirectory_def)
  from cached_steps_ok [OF assms(1) x(1) begin_scan_ok(1) assms(2)] x(2,3)
  show "out \<in> ScanDirectory P (plain_files P os FS) processor n r s"
    unfolding ScanDirectory_closure
    by (intro exI [of _ "the_scan x"]) (simp add: scan_run_outcome begin_scan_ok)
next
  fix out assume "out \<in> ScanDirectory P (plain_files P os FS) processor n r s"
  then obtain y where y: "(plain_step P (plain_files P os FS) processor)\<^sup>*\<^sup>* (the_scan (begin_scan n r s)) y" "scan_end y"
    "out = rbind y (\<lambda>st. Inr (proc_state st))"
    unfolding ScanDirectory_closure begin_scan_ok by blast
  have "no_lookup (begin_scan n r s)" by (simp add: begin_scan_cases scan_locals_def)
  from plain_steps_cached [OF assms this y(1)] obtain x hc' where
    "(cached_step P os FS processor)\<^sup>*\<^sup>* (begin_scan n r s, hc) (x, hc')" "the_scan x = y" by blast
  moreover from this y have "stopped x" "out = outcome x" by (auto simp flip: scan_run_outcome)
  ultimately have "(out, hc') \<in> cached_ScanDirectory P os FS processor n r s hc"
    unfolding cached_ScanDirectory_def by blast
  then show "out \<in> fst ` cached_ScanDirectory P os FS processor n r s hc" by force
qed

section \<open>The cache is filled\<close>

text \<open>The regular files that a scan comes to.\<close>

inductive_set regular_files :: "'p file_system \<Rightarrow> ('p \<times> 'p) set" for FS where
  in_directory: "fs_list FS r = Some es \<Longrightarrow> e \<in> set es \<Longrightarrow> is_task FS e \<Longrightarrow> (r, e) \<in> regular_files FS"
| in_subdirectory: "fs_list FS r = Some es \<Longrightarrow> d \<in> set es \<Longrightarrow> is_subdir FS d \<Longrightarrow> (d, e) \<in> regular_files FS \<Longrightarrow>
    (r, e) \<in> regular_files FS"

definition regular_below :: "'p file_system \<Rightarrow> 'p \<Rightarrow> 'p set" where
  "regular_below FS r = {e. (r, e) \<in> regular_files FS}"

definition regular_at :: "'p file_system \<Rightarrow> 'p \<Rightarrow> 'p set" where
  "regular_at FS e = (if is_task FS e then {e} else {}) \<union> (if is_subdir FS e then regular_below FS e else {})"

lemma regular_below_rec: "regular_below FS r = (case fs_list FS r of None \<Rightarrow> {} | Some es \<Rightarrow> (\<Union>e \<in> set es. regular_at FS e))"
proof -
  have "x \<in> regular_below FS r \<longleftrightarrow> (\<exists>es e. fs_list FS r = Some es \<and> e \<in> set es \<and> x \<in> regular_at FS e)" for x
    unfolding regular_below_def regular_at_def mem_Collect_eq by (subst regular_files.simps) auto
  then show ?thesis by (auto split: option.split)
qed

text \<open>The files the rest of the scan will come to.\<close>

definition regular_ahead :: "'p file_system \<Rightarrow> ('p, 'h, 's) scan_state \<Rightarrow> 'p set" where
  "regular_ahead FS st =
     (\<Union>x \<in> set (dirs_to_process st). regular_below FS (fst x)) \<union>
     (case current_dir st of None \<Rightarrow> {} | Some (h, es) \<Rightarrow> \<Union>e \<in> set es. regular_at FS e) \<union>
     fst ` set (submitted st)"

text \<open>The cache has the current size, time and checksum of a file, if it can be read.\<close>

definition is_cached :: "'p path_api \<Rightarrow> os_api \<Rightarrow> HashCache \<Rightarrow> 'p \<Rightarrow> bool" where
  "is_cached P os hc p \<longleftrightarrow> (\<forall>fi. plain_info P os p = Inr fi \<longrightarrow> hc_cache hc (p_native P p) = Some fi)"

definition answers_cached :: "'p path_api \<Rightarrow> os_api \<Rightarrow> HashCache \<Rightarrow> 'p lookup list \<Rightarrow> bool" where
  "answers_cached P os hc ls \<longleftrightarrow> (\<forall>p r. Answer p r \<in> set ls \<longrightarrow> is_cached P os hc p)"

text \<open>An entry that is current stays so while other files are looked up; an answered file has one.\<close>

lemma plain_info_native: "p_native P p = p_native P q \<Longrightarrow> plain_info P os p = plain_info P os q"
  by (simp only: plain_info_def)

lemma lookup_section_change:
  "lookup_section P os l hc = (l', hc') \<Longrightarrow> hc_cache hc' = hc_cache hc \<or>
    (\<exists>fi. l' = Answer (path_of_lookup l) (Inr fi) \<and> hc_cache hc' = (hc_cache hc)(p_native P (path_of_lookup l) \<mapsto> fi))"
  by (cases l) (auto simp: Let_def split: sum.splits option.splits if_splits)

lemma lookup_section_cached:
  assumes "os_ok os" and "cache_ok os hc" and "lookup_ok P os l" and "lookup_section P os l hc = (l', hc')"
  shows "is_cached P os hc p \<Longrightarrow> is_cached P os hc' p"
    and "sections_left l \<noteq> 0 \<Longrightarrow> sections_left l' = 0 \<Longrightarrow> is_cached P os hc' (path_of_lookup l)"
proof -
  note ok = lookup_section_ok [OF assms]
  note cases' = lookup_section_change [OF assms(4)]
  show "is_cached P os hc' p" if "is_cached P os hc p"
    using cases'
  proof (elim disjE exE conjE)
    fix fi assume l': "l' = Answer (path_of_lookup l) (Inr fi)"
      and hc': "hc_cache hc' = (hc_cache hc)(p_native P (path_of_lookup l) \<mapsto> fi)"
    have "plain_info P os (path_of_lookup l) = Inr fi" using ok l' by simp
    then show ?thesis
      using that hc' plain_info_native [of P p "path_of_lookup l" os] by (auto simp: is_cached_def)
  qed (use that in \<open>simp add: is_cached_def\<close>)
  show "is_cached P os hc' (path_of_lookup l)" if left: "sections_left l \<noteq> 0" "sections_left l' = 0"
  proof -
    obtain r where l': "l' = Answer (path_of_lookup l) r" using left(2) ok by (auto simp: sections_left_0)
    then have r: "r = plain_info P os (path_of_lookup l)" using ok by simp
    show ?thesis
    proof (cases l)
      case (Start q)
      with assms(4) l' r show ?thesis
        by (auto simp: is_cached_def Let_def split: sum.splits option.splits if_splits)
    qed (use assms(4) l' r left in \<open>auto simp: is_cached_def Let_def split: sum.splits if_splits\<close>)
  qed
qed

text \<open>What a scan has come to is ahead of it or cached.\<close>

definition fills_cache :: "'p path_api \<Rightarrow> os_api \<Rightarrow> 'p file_system \<Rightarrow> 'p \<Rightarrow> ('p, 'h, 's) cached_scan \<Rightarrow> HashCache \<Rightarrow> bool" where
  "fills_cache P os FS root x hc =
     (case x of Inl e \<Rightarrow> True | Inr (st, ls) \<Rightarrow>
        (\<forall>p \<in> regular_below FS root. p \<in> regular_ahead FS st \<or> is_cached P os hc p) \<and> answers_cached P os hc ls)"

lemma fills_cache_simps [simp]:
  "fills_cache P os FS root (Inl e) hc"
  "fills_cache P os FS root (Inr (st, ls)) hc \<longleftrightarrow>
    (\<forall>p \<in> regular_below FS root. p \<in> regular_ahead FS st \<or> is_cached P os hc p) \<and> answers_cached P os hc ls"
  by (simp_all add: fills_cache_def)

lemma fills_cache_more:
  assumes "fills_cache P os FS root x hc" and "\<And>p. is_cached P os hc p \<Longrightarrow> is_cached P os hc' p"
  shows "fills_cache P os FS root x hc'"
  using assms(1)
proof (cases x)
  case (Inr y)
  obtain st ls where "y = (st, ls)" by (cases y)
  with assms(1) Inr have "p \<in> regular_below FS root \<Longrightarrow> p \<in> regular_ahead FS st \<or> is_cached P os hc p"
    "Answer p r \<in> set ls \<Longrightarrow> is_cached P os hc p" for p r by (auto simp: answers_cached_def)
  with assms(2) show ?thesis unfolding Inr \<open>y = (st, ls)\<close> fills_cache_simps answers_cached_def by blast
qed simp

lemma visit_entry_ahead: "regular_ahead FS (visit_entry FS handle it st) = regular_ahead FS st \<union> regular_at FS it"
  by (auto simp: regular_ahead_def regular_at_def visit_entry_def is_task_def is_subdir_def Let_def
      split: option.splits bool.splits if_splits)

text \<open>The cache only changes by critical sections of correct lookups. So what they keep is kept.\<close>

definition kept_by_sections :: "'p path_api \<Rightarrow> os_api \<Rightarrow> (HashCache \<Rightarrow> bool) \<Rightarrow> bool" where
  "kept_by_sections P os Q \<longleftrightarrow>
     (\<forall>l hc l' hc'. lookup_ok P os l \<longrightarrow> cache_ok os hc \<longrightarrow> lookup_section P os l hc = (l', hc') \<longrightarrow> Q hc \<longrightarrow> Q hc')"

lemma cached_step_keeps:
  assumes "kept_by_sections P os Q" and "cached_step P os FS processor (x, hc) (x', hc')" and "scan_ok P os x"
    and "cache_ok os hc" and "Q hc"
  shows "Q hc'"
  using assms(2)
proof cases
  case (c_section i ls l' st)
  have "lookup_ok P os (ls ! i)" using assms(3) c_section(1,3) by (simp add: list_all_length)
  then show ?thesis using assms(1,4,5) c_section(5) unfolding kept_by_sections_def by blast
qed (use assms(5) in simp_all)

lemma is_cached_kept: "os_ok os \<Longrightarrow> kept_by_sections P os (\<lambda>hc. is_cached P os hc p)"
  unfolding kept_by_sections_def by (intro allI impI) (rule lookup_section_cached(1))

lemmas cached_step_cache = cached_step_keeps [OF is_cached_kept]

text \<open>A cache that was empty holds only what files gave.\<close>

definition from_files :: "'p path_api \<Rightarrow> os_api \<Rightarrow> HashCache \<Rightarrow> bool" where
  "from_files P os hc \<longleftrightarrow> finite (dom (hc_cache hc)) \<and>
     (\<forall>path fi. hc_cache hc path = Some fi \<longrightarrow> (\<exists>p. path = p_native P p \<and> plain_info P os p = Inr fi))"

lemma from_files_kept:
  assumes "os_ok os"
  shows "kept_by_sections P os (from_files P os)"
  unfolding kept_by_sections_def
proof (intro allI impI)
  fix l hc l' hc' assume l: "lookup_ok P os l" "cache_ok os hc" "lookup_section P os l hc = (l', hc')"
    and hc: "from_files P os hc"
  from lookup_section_change [OF l(3)] show "from_files P os hc'"
  proof (elim disjE exE conjE)
    fix fi assume l': "l' = Answer (path_of_lookup l) (Inr fi)"
      and hc': "hc_cache hc' = (hc_cache hc)(p_native P (path_of_lookup l) \<mapsto> fi)"
    have "plain_info P os (path_of_lookup l) = Inr fi" using lookup_section_ok [OF assms l(2,1,3)] l' by simp
    with hc hc' show ?thesis by (auto simp: from_files_def)
  qed (use hc in \<open>simp add: from_files_def\<close>)
qed

lemma cached_step_fills:
  assumes "os_ok os" and "cached_step P os FS processor (x, hc) (x', hc')" and "scan_ok P os x" and "cache_ok os hc"
    and "fills_cache P os FS root x hc"
  shows "fills_cache P os FS root x' hc'"
  using assms(2)
proof cases
  case (c_pop st entry rest ls)
  let ?open = "open_directory P FS processor entry (st\<lparr>dirs_to_process := rest\<rparr>)"
  have "regular_ahead FS st \<subseteq> regular_ahead FS st'" if "?open = Inr st'" for st'
    using that c_pop(4,5)
    by (auto simp: open_directory_def res_simps regular_ahead_def regular_below_rec [of FS "fst entry"] split: option.splits)
  then show ?thesis using c_pop assms(5) by (cases ?open) auto
next
  case (c_visit st handle it its ls)
  let ?st = "st\<lparr>current_dir := Some (handle, its)\<rparr>"
  have "map path_of_lookup ls = map fst (submitted ?st)" using c_visit assms(3) by simp
  from with_lookups_visit [OF this, of FS handle it]
  have x': "x' = Inr (visit_entry FS handle it ?st, ls @ (if is_task FS it then [Start it] else []))"
    using c_visit by simp
  have "regular_ahead FS st = regular_ahead FS (visit_entry FS handle it ?st)"
    unfolding visit_entry_ahead using c_visit(4) by (auto simp: regular_ahead_def)
  then show ?thesis using x' c_visit(1,3) assms(5) by (auto simp: answers_cached_def)
next
  case (c_leave st handle ls)
  then show ?thesis using assms(5) by (simp add: regular_ahead_def)
next
  case (c_section i ls l' st)
  have l: "lookup_ok P os (ls ! i)" using assms(3) c_section(1,3) by (simp add: list_all_length)
  note keep = lookup_section_cached [OF assms(1,4) l c_section(5)]
  note ok = lookup_section_ok [OF assms(1,4) l c_section(5)]
  have "answers_cached P os hc' (ls[i := l'])"
    unfolding answers_cached_def
  proof (intro allI impI)
    fix p r assume "Answer p r \<in> set (ls[i := l'])"
    then have "Answer p r = l' \<or> Answer p r \<in> set ls" using set_update_subset_insert [of ls i l'] by blast
    then show "is_cached P os hc' p"
    proof
      assume l': "Answer p r = l'"
      then show ?thesis using keep(2) c_section(4) ok by (metis path_of_lookup.simps(5) sections_left.simps(5))
    next
      assume "Answer p r \<in> set ls"
      then show ?thesis using assms(5) c_section(1) keep(1) by (simp add: answers_cached_def) blast
    qed
  qed
  moreover have "fills_cache P os FS root x hc'" by (rule fills_cache_more [OF assms(5) keep(1)])
  ultimately show ?thesis using c_section(1,2) by simp
next
  case (c_report ls ls1 p r ls2 st ts1 task ts2)
  have "map path_of_lookup ls1 @ p # map path_of_lookup ls2 = map fst ts1 @ fst task # map fst ts2"
    using assms(3) c_report by simp
  then have "fst task = p" using c_report(6) by (auto simp: append_eq_append_conv)
  moreover have "is_cached P os hc p" using assms(5) c_report(1,4) by (auto simp: answers_cached_def)
  moreover have "answers_cached P os hc (ls1 @ ls2)" using assms(5) c_report(1,4) by (auto simp: answers_cached_def)
  ultimately show ?thesis
    using c_report assms(5)
    by (cases "report_lookup P processor (can_lock FS st) task r (proc_state st)") (auto simp: regular_ahead_def)
next
  case (c_destroy st ls)
  then show ?thesis using assms(5) by (simp add: regular_ahead_def)
qed

lemma begin_scan_fills: "fills_cache P os FS r (begin_scan n r s) hc"
  by (simp add: begin_scan_cases scan_locals_def regular_ahead_def answers_cached_def)

lemma stopped_filled:
  assumes "fills_cache P os FS r x hc" and "stopped x" and "outcome x = Inr s" and "p \<in> regular_below FS r"
  shows "is_cached P os hc p"
proof -
  obtain st ls where x: "x = Inr (st, ls)" using assms(3) by (cases x) (auto simp: outcome_def)
  then have "regular_ahead FS st = {}" using assms(2) by (auto simp: stopped_def scan_done_def regular_ahead_def)
  then show ?thesis using assms(1,4) x by auto
qed

section \<open>Scans with the cache end\<close>

lemma wf_plain_step:
  assumes "wf (below FS)"
  shows "wf {(x', x). plain_step P FS processor x x'}"
proof -
  have *: "(\<forall>y. (y, x) \<in> {(x', x). plain_step P FS processor x x'} \<longrightarrow> Q y) \<longrightarrow> Q x \<Longrightarrow>
    (\<forall>y. plain_step P FS processor x y \<longrightarrow> Q y) \<Longrightarrow> Q x" for Q x by blast
  show ?thesis
    unfolding wf_def
  proof (intro allI impI)
    fix Q x assume step: "\<forall>x. (\<forall>y. (y, x) \<in> {(x', x). plain_step P FS processor x x'} \<longrightarrow> Q y) \<longrightarrow> Q x"
    have l: "Q (Inl e)" for e using step by simp
    have "Q (Inr st)" for st
    proof (induction st rule: wf_induct_rule [OF wf_scan_step [OF assms, of P processor]])
      case (1 st)
      have "Q y" if "scan_step P FS processor st y" for y using 1 l that by (cases y) auto
      then show ?case using step by simp
    qed
    then show "Q x" using l by (cases x) auto
  qed
qed

definition correct_step where
  "correct_step P os FS processor =
     {((x', hc'), (x, hc)). scan_ok P os x \<and> cache_ok os hc \<and> cached_step P os FS processor (x, hc) (x', hc')}"

definition scan_order where
  "scan_order P os FS processor =
     inv_image ({(x', x). plain_step P (plain_files P os FS) processor x x'} <*lex*> less_than) (\<lambda>x. (the_scan x, open_sections x))"

lemma wf_scan_order: "wf (below FS) \<Longrightarrow> wf (scan_order P os FS processor)"
  unfolding scan_order_def by (intro wf_inv_image wf_lex_prod wf_plain_step wf_less_than) simp

lemma cached_step_order:
  assumes "os_ok os" and "cached_step P os FS processor (x, hc) (x', hc')" and "scan_ok P os x" and "cache_ok os hc"
  shows "(x', x) \<in> scan_order P os FS processor"
  using cached_step_ok [OF assms] by (simp add: scan_order_def)

lemma wf_correct_step:
  assumes "os_ok os" and "wf (below FS)"
  shows "wf (correct_step P os FS processor)"
  by (rule wf_subset [OF wf_inv_image [OF wf_scan_order [OF assms(2)], where f = fst]])
    (auto simp: correct_step_def intro: cached_step_order [OF assms(1)])

section \<open>Two scans at once\<close>

text \<open>What holds of one scan, whatever the other does to the cache.\<close>

definition scan_inv where
  "scan_inv P os FS processor n root s x hc \<longleftrightarrow>
     scan_ok P os x \<and> fills_cache P os FS root x hc \<and>
     (plain_step P (plain_files P os FS) processor)\<^sup>*\<^sup>* (start_scan n root s) (the_scan x)"

lemma begin_scan_inv: "scan_inv P os FS processor n root s (begin_scan n root s) hc"
  by (simp add: scan_inv_def begin_scan_ok begin_scan_fills)

lemma scan_inv_step:
  assumes "os_ok os" and "cached_step P os FS processor (x, hc) (x', hc')" and "cache_ok os hc"
    and "scan_inv P os FS processor n root s x hc"
  shows "scan_inv P os FS processor n root s x' hc'"
proof -
  have x: "scan_ok P os x" "fills_cache P os FS root x hc"
    "(plain_step P (plain_files P os FS) processor)\<^sup>*\<^sup>* (start_scan n root s) (the_scan x)"
    using assms(4) by (simp_all add: scan_inv_def)
  from cached_step_ok [OF assms(1,2) x(1) assms(3)] x(3)
  have "(plain_step P (plain_files P os FS) processor)\<^sup>*\<^sup>* (start_scan n root s) (the_scan x')"
    by (metis rtranclp.rtrancl_into_rtrancl)
  then show ?thesis
    using cached_step_ok [OF assms(1,2) x(1) assms(3)] cached_step_fills [OF assms(1,2) x(1) assms(3) x(2)]
    unfolding scan_inv_def by blast
qed

lemma scan_inv_other:
  assumes "os_ok os" and "cached_step P os FS processor (y, hc) (y', hc')" and "cache_ok os hc" and "scan_ok P os y"
    and "scan_inv P os FS processor n root s x hc"
  shows "scan_inv P os FS processor n root s x hc'"
  using assms(5) fills_cache_more [OF _ cached_step_cache [OF assms(1,2,4,3)]] unfolding scan_inv_def by blast

lemma scan_inv_outcome:
  assumes "scan_inv P os FS processor n root s x hc" and "stopped x"
  shows "outcome x \<in> ScanDirectory P (plain_files P os FS) processor n root s \<and>
    ((\<exists>s'. outcome x = Inr s') \<longrightarrow> (\<forall>p \<in> regular_below FS root. is_cached P os hc p))"
proof -
  have "outcome x \<in> ScanDirectory P (plain_files P os FS) processor n root s"
    unfolding ScanDirectory_closure using assms
    by (intro exI [of _ "the_scan x"]) (simp add: scan_inv_def scan_run_outcome)
  then show ?thesis using stopped_filled [OF _ assms(2)] assms(1) by (auto simp: scan_inv_def)
qed

lemma cached_steps_inv:
  assumes "os_ok os" and "cache_ok os hc"
    and "(cached_step P os FS processor)\<^sup>*\<^sup>* (begin_scan n root s, hc) (x', hc')"
  shows "scan_inv P os FS processor n root s x' hc' \<and> cache_ok os hc'"
  using assms(3)
proof (induction rule: rtranclp_induct2)
  case refl
  then show ?case using assms(2) by (simp add: begin_scan_inv)
next
  case (step x1 hc1 x2 hc2)
  then show ?case
    using scan_inv_step [OF assms(1) step(2)] cached_step_ok [OF assms(1) step(2)] unfolding scan_inv_def by blast
qed

lemma two_scans_inv:
  assumes "os_ok os" and "cache_ok os hc"
    and "(two_scans_step P os FS processor)\<^sup>*\<^sup>* ((begin_scan n r1 s, begin_scan n r2 s), hc) (xy, hc')"
  shows "scan_inv P os FS processor n r1 s (fst xy) hc' \<and> scan_inv P os FS processor n r2 s (snd xy) hc' \<and> cache_ok os hc'"
  using assms(3)
proof (induction rule: rtranclp_induct2)
  case refl
  then show ?case using assms(2) by (simp add: begin_scan_inv)
next
  case (step xy1 hc1 xy2 hc2)
  from step(2) show ?case
  proof cases
    case (first_scan x x' y)
    with step.IH have "scan_inv P os FS processor n r1 s x hc1" "scan_inv P os FS processor n r2 s y hc1" "cache_ok os hc1"
      "scan_ok P os x" by (simp_all add: scan_inv_def)
    then show ?thesis
      using scan_inv_step [OF assms(1) first_scan(3)] scan_inv_other [OF assms(1) first_scan(3)]
        cached_step_ok [OF assms(1) first_scan(3)] first_scan(2) by simp
  next
    case (second_scan y y' x)
    with step.IH have "scan_inv P os FS processor n r1 s x hc1" "scan_inv P os FS processor n r2 s y hc1" "cache_ok os hc1"
      "scan_ok P os y" by (simp_all add: scan_inv_def)
    then show ?thesis
      using scan_inv_step [OF assms(1) second_scan(3)] scan_inv_other [OF assms(1) second_scan(3)]
        cached_step_ok [OF assms(1) second_scan(3)] second_scan(2) by simp
  qed
qed

lemma first_scans:
  "(cached_step P os FS processor)\<^sup>*\<^sup>* (x, hc) (x', hc') \<Longrightarrow>
    (two_scans_step P os FS processor)\<^sup>*\<^sup>* ((x, y), hc) ((x', y), hc')"
  by (induction rule: rtranclp_induct2) (auto intro: two_scans_step.first_scan rtranclp.rtrancl_into_rtrancl)

lemma second_scans:
  "(cached_step P os FS processor)\<^sup>*\<^sup>* (y, hc) (y', hc') \<Longrightarrow>
    (two_scans_step P os FS processor)\<^sup>*\<^sup>* ((x, y), hc) ((x, y'), hc')"
  by (induction rule: rtranclp_induct2) (auto intro: two_scans_step.second_scan rtranclp.rtrancl_into_rtrancl)

lemma two_cached_scans_plain:
  assumes "os_ok os" and "cache_ok os hc"
  shows "fst ` two_cached_scans P os FS processor n r1 r2 s hc =
    ScanDirectory P (plain_files P os FS) processor n r1 s \<times> ScanDirectory P (plain_files P os FS) processor n r2 s"
proof (intro equalityI subsetI)
  fix out assume "out \<in> fst ` two_cached_scans P os FS processor n r1 r2 s hc"
  then obtain x y hc' where "(two_scans_step P os FS processor)\<^sup>*\<^sup>* ((begin_scan n r1 s, begin_scan n r2 s), hc) ((x, y), hc')"
    "stopped x" "stopped y" "out = (outcome x, outcome y)" by (auto simp: two_cached_scans_def)
  with two_scans_inv [OF assms this(1)] scan_inv_outcome [where P = P and os = os and FS = FS and processor = processor and s = s]
  show "out \<in> ScanDirectory P (plain_files P os FS) processor n r1 s \<times> ScanDirectory P (plain_files P os FS) processor n r2 s"
    by fastforce
next
  fix out assume "out \<in> ScanDirectory P (plain_files P os FS) processor n r1 s \<times> ScanDirectory P (plain_files P os FS) processor n r2 s"
  then obtain o1 o2 where o: "out = (o1, o2)" "o1 \<in> fst ` cached_ScanDirectory P os FS processor n r1 s hc"
    "o2 \<in> ScanDirectory P (plain_files P os FS) processor n r2 s"
    unfolding cached_ScanDirectory_plain [OF assms] by blast
  from o(2) obtain x hc1 where x: "(cached_step P os FS processor)\<^sup>*\<^sup>* (begin_scan n r1 s, hc) (x, hc1)" "stopped x" "o1 = outcome x"
    by (auto simp: cached_ScanDirectory_def)
  have hc1: "cache_ok os hc1" using cached_steps_inv [OF assms x(1)] by blast
  have "o2 \<in> fst ` cached_ScanDirectory P os FS processor n r2 s hc1"
    by (subst cached_ScanDirectory_plain [OF assms(1) hc1]) (rule o(3))
  then obtain y hc2 where y: "(cached_step P os FS processor)\<^sup>*\<^sup>* (begin_scan n r2 s, hc1) (y, hc2)" "stopped y" "o2 = outcome y"
    by (auto simp: cached_ScanDirectory_def)
  have "(two_scans_step P os FS processor)\<^sup>*\<^sup>* ((begin_scan n r1 s, begin_scan n r2 s), hc) ((x, y), hc2)"
    by (rule rtranclp_trans [OF first_scans [OF x(1)] second_scans [OF y(1)]])
  then have "(out, hc2) \<in> two_cached_scans P os FS processor n r1 r2 s hc"
    using x y o(1) unfolding two_cached_scans_def by blast
  then show "out \<in> fst ` two_cached_scans P os FS processor n r1 r2 s hc" by force
qed

definition correct_two_steps where
  "correct_two_steps P os FS processor =
     {((xy', hc'), (xy, hc)). scan_ok P os (fst xy) \<and> scan_ok P os (snd xy) \<and> cache_ok os hc \<and>
        two_scans_step P os FS processor (xy, hc) (xy', hc')}"

lemma wf_correct_two_steps:
  assumes "os_ok os" and "wf (below FS)"
  shows "wf (correct_two_steps P os FS processor)"
proof (rule wf_subset)
  let ?R = "scan_order P os FS processor"
  show "wf (inv_image (?R <*lex*> ?R) fst)"
    by (intro wf_inv_image wf_lex_prod wf_scan_order assms)
  have "(xy', xy) \<in> ?R <*lex*> ?R" if "two_scans_step P os FS processor (xy, hc) (xy', hc')"
    "scan_ok P os (fst xy)" "scan_ok P os (snd xy)" "cache_ok os hc" for xy xy' hc hc'
    using that(1)
  proof cases
    case (first_scan x x' y)
    then show ?thesis using cached_step_order [OF assms(1) first_scan(3)] that by simp
  next
    case (second_scan y y' x)
    then show ?thesis using cached_step_order [OF assms(1) second_scan(3)] that by simp
  qed
  then show "correct_two_steps P os FS processor \<subseteq> inv_image (?R <*lex*> ?R) fst"
    unfolding correct_two_steps_def by (intro subrelI) (auto simp: in_inv_image simp del: in_lex_prod)
qed

text \<open>The states that are reached from the start are among these.\<close>

lemma wf_reached_step:
  assumes "os_ok os" and "cache_ok os hc" and "wf (below FS)"
  shows "wf {(b, a). (cached_step P os FS processor)\<^sup>*\<^sup>* (begin_scan n r s, hc) a \<and> cached_step P os FS processor a b}"
proof (rule wf_subset [OF wf_correct_step [OF assms(1,3), of P processor]])
  show "{(b, a). (cached_step P os FS processor)\<^sup>*\<^sup>* (begin_scan n r s, hc) a \<and> cached_step P os FS processor a b}
      \<subseteq> correct_step P os FS processor"
    using cached_steps_inv [OF assms(1,2)] unfolding correct_step_def scan_inv_def by fast
qed

lemma reached_step_exists:
  assumes "os_ok os" and "cache_ok os hc" and "(cached_step P os FS processor)\<^sup>*\<^sup>* (begin_scan n r s, hc) (x, hc')"
  shows "stopped x \<or> (\<exists>b. cached_step P os FS processor (x, hc') b)"
proof -
  have "scan_ok P os x" using cached_steps_inv [OF assms] unfolding scan_inv_def by blast
  then show ?thesis using cached_step_exists by blast
qed

lemma wf_reached_two_steps:
  assumes "os_ok os" and "cache_ok os hc" and "wf (below FS)"
  shows "wf {(b, a). (two_scans_step P os FS processor)\<^sup>*\<^sup>* ((begin_scan n r1 s, begin_scan n r2 s), hc) a \<and>
    two_scans_step P os FS processor a b}"
proof (rule wf_subset [OF wf_correct_two_steps [OF assms(1,3), of P processor]])
  show "{(b, a). (two_scans_step P os FS processor)\<^sup>*\<^sup>* ((begin_scan n r1 s, begin_scan n r2 s), hc) a \<and>
      two_scans_step P os FS processor a b} \<subseteq> correct_two_steps P os FS processor"
    using two_scans_inv [OF assms(1,2)] unfolding correct_two_steps_def scan_inv_def by fast
qed

lemma reached_two_steps_exist:
  assumes "os_ok os" and "cache_ok os hc"
    and "(two_scans_step P os FS processor)\<^sup>*\<^sup>* ((begin_scan n r1 s, begin_scan n r2 s), hc) ((x, y), hc')"
  shows "(stopped x \<and> stopped y) \<or> (\<exists>b. two_scans_step P os FS processor ((x, y), hc') b)"
proof -
  have "scan_ok P os x" "scan_ok P os y" using two_scans_inv [OF assms] unfolding scan_inv_def by auto
  then show ?thesis using cached_step_exists two_scans_step.intros by metis
qed

section \<open>The cache after the scans\<close>

lemma cached_steps_keep:
  assumes "os_ok os" and "kept_by_sections P os Q" and "cache_ok os hc" and "Q hc"
    and "(cached_step P os FS processor)\<^sup>*\<^sup>* (begin_scan n root s, hc) (x', hc')"
  shows "Q hc'"
  using assms(5)
proof (induction rule: rtranclp_induct2)
  case refl
  show ?case by (rule assms(4))
next
  case (step x1 hc1 x2 hc2)
  have "scan_ok P os x1" "cache_ok os hc1"
    using cached_steps_inv [OF assms(1,3) step(1)] by (simp_all add: scan_inv_def)
  then show ?case by (rule cached_step_keeps [OF assms(2) step(2) _ _ step(3)])
qed

lemma two_scans_keep:
  assumes "os_ok os" and "kept_by_sections P os Q" and "cache_ok os hc" and "Q hc"
    and "(two_scans_step P os FS processor)\<^sup>*\<^sup>* ((begin_scan n r1 s, begin_scan n r2 s), hc) (xy, hc')"
  shows "Q hc'"
  using assms(5)
proof (induction rule: rtranclp_induct2)
  case refl
  show ?case by (rule assms(4))
next
  case (step xy1 hc1 xy2 hc2)
  have ok: "scan_ok P os (fst xy1)" "scan_ok P os (snd xy1)" "cache_ok os hc1"
    using two_scans_inv [OF assms(1,3) step(1)] by (simp_all add: scan_inv_def)
  from step(2) show ?case
  proof cases
    case (first_scan x x' y)
    then show ?thesis using cached_step_keeps [OF assms(2) first_scan(3) _ ok(3) step(3)] ok(1) by simp
  next
    case (second_scan y y' x)
    then show ?thesis using cached_step_keeps [OF assms(2) second_scan(3) _ ok(3) step(3)] ok(2) by simp
  qed
qed

text \<open>The cache stays correct and keeps what sections keep.\<close>

definition cache_used :: "'p path_api \<Rightarrow> os_api \<Rightarrow> HashCache \<Rightarrow> HashCache \<Rightarrow> bool" where
  "cache_used P os hc hc' \<longleftrightarrow> cache_ok os hc' \<and> (\<forall>Q. kept_by_sections P os Q \<longrightarrow> Q hc \<longrightarrow> Q hc')"

lemma cache_used_refl: "cache_ok os hc \<Longrightarrow> cache_used P os hc hc"
  by (simp add: cache_used_def)

lemma cache_used_trans: "cache_used P os hc hc1 \<Longrightarrow> cache_used P os hc1 hc2 \<Longrightarrow> cache_used P os hc hc2"
  unfolding cache_used_def by blast

lemma cache_used_ok: "cache_used P os hc hc' \<Longrightarrow> cache_ok os hc'"
  by (simp add: cache_used_def)

lemma cache_used_cached: "os_ok os \<Longrightarrow> cache_used P os hc hc' \<Longrightarrow> is_cached P os hc p \<Longrightarrow> is_cached P os hc' p"
  using is_cached_kept [of os P p] unfolding cache_used_def by blast

lemma cached_ScanDirectory_cache:
  assumes "os_ok os" and "cache_ok os hc" and "(out, hc') \<in> cached_ScanDirectory P os FS processor n r s hc"
  shows "cache_used P os hc hc' \<and> ((\<exists>s'. out = Inr s') \<longrightarrow> (\<forall>p \<in> regular_below FS r. is_cached P os hc' p))"
proof -
  obtain x where x: "(cached_step P os FS processor)\<^sup>*\<^sup>* (begin_scan n r s, hc) (x, hc')" "stopped x" "out = outcome x"
    using assms(3) by (auto simp: cached_ScanDirectory_def)
  have inv: "scan_inv P os FS processor n r s x hc'" "cache_ok os hc'"
    using cached_steps_inv [OF assms(1,2) x(1)] by simp_all
  have "cache_used P os hc hc'"
    unfolding cache_used_def using inv(2) cached_steps_keep [OF assms(1) _ assms(2) _ x(1)] by (intro conjI allI impI)
  then show ?thesis using scan_inv_outcome [OF inv(1) x(2)] x(3) by simp
qed

lemma two_cached_scans_cache:
  assumes "os_ok os" and "cache_ok os hc" and "((o1, o2), hc') \<in> two_cached_scans P os FS processor n r1 r2 s hc"
  shows "cache_used P os hc hc' \<and>
    ((\<exists>s1. o1 = Inr s1) \<longrightarrow> (\<forall>p \<in> regular_below FS r1. is_cached P os hc' p)) \<and>
    ((\<exists>s2. o2 = Inr s2) \<longrightarrow> (\<forall>p \<in> regular_below FS r2. is_cached P os hc' p))"
proof -
  obtain x y where x: "(two_scans_step P os FS processor)\<^sup>*\<^sup>* ((begin_scan n r1 s, begin_scan n r2 s), hc) ((x, y), hc')"
    "stopped x" "stopped y" "o1 = outcome x" "o2 = outcome y"
    using assms(3) by (auto simp: two_cached_scans_def)
  have inv: "scan_inv P os FS processor n r1 s x hc'" "scan_inv P os FS processor n r2 s y hc'" "cache_ok os hc'"
    using two_scans_inv [OF assms(1,2) x(1)] by simp_all
  have "cache_used P os hc hc'"
    unfolding cache_used_def using inv(3) two_scans_keep [OF assms(1) _ assms(2) _ x(1)] by (intro conjI allI impI)
  then show ?thesis
    using scan_inv_outcome [OF inv(1) x(2)] scan_inv_outcome [OF inv(2) x(3)] x(4,5) by simp
qed

text \<open>From every state of scans with the cache some end is reached.\<close>

lemma cached_ScanDirectory_exists:
  assumes "os_ok os" and "cache_ok os hc" and "wf (below FS)"
  shows "cached_ScanDirectory P os FS processor n r s hc \<noteq> {}"
proof -
  have "wf (below (plain_files P os FS))" using assms(3) by simp
  from scan_run_exists [OF this, of P processor "scan_locals r s"]
  have "ScanDirectory P (plain_files P os FS) processor n r s \<noteq> {}"
    by (simp add: ScanDirectory_def start_scan_cases)
  then show ?thesis using cached_ScanDirectory_plain [OF assms(1,2), of P FS processor n r s] by auto
qed

end
