(* ===== verification/Cached_Program.thy ===== *)
theory Cached_Program
  imports Cached_Scan Compare_Directories Dedup_Run
begin

text \<open>
  The users of the scans with the checksum cache threaded through: the scan of a directory or a database,
  warming up the cache and the comparison (src/src/dir_compare.cpp), and duplicate detection
  (src/src/fuzzy_dedup.cpp). Each is its counterpart on plain files, and what it does to the cache.
\<close>

section \<open>The operations\<close>

definition cached_scan_path ::
  "os_api \<Rightarrow> 'p world \<Rightarrow> ('p, 'h, 's) ScanProcessor \<Rightarrow> 's \<Rightarrow> string \<Rightarrow> HashCache \<Rightarrow> ('s res \<times> HashCache) set" where
  "cached_scan_path os W processor s path hc =
     ScanDirectoryOrDb (w_conf W) (\<lambda>db_path. {(scan_db_file W processor s db_path, hc)})
       (\<lambda>dir. cached_ScanDirectory (w_paths W) os (w_files W) processor (conf_concurrency (w_conf W)) (p_of (w_paths W) dir) s hc) path"

definition cached_FillPathHashes ::
  "os_api \<Rightarrow> 'p world \<Rightarrow> 'c path_hashes_api \<Rightarrow> string \<Rightarrow> HashCache \<Rightarrow> ('c res \<times> HashCache) set" where
  "cached_FillPathHashes os W MI start_dir hc =
     cached_scan_path os W (PathHashesFiller (w_paths W) MI) (mi_empty MI) start_dir hc"

definition cached_WarmupCache ::
  "os_api \<Rightarrow> 'p world \<Rightarrow> 'c path_hashes_api \<Rightarrow> string \<Rightarrow> HashCache \<Rightarrow> (unit res \<times> HashCache) set" where
  "cached_WarmupCache os W MI path hc =
     (\<lambda>(r, hc'). (rbind r (\<lambda>_. Inr ()), hc')) ` cached_FillPathHashes os W MI path hc"

text \<open>The two filler threads of a comparison. A database does not use the cache, so only two directories
  meet there.\<close>

definition cached_fillers ::
  "os_api \<Rightarrow> 'p world \<Rightarrow> 'c path_hashes_api \<Rightarrow> string \<Rightarrow> string \<Rightarrow> HashCache \<Rightarrow> (('c res \<times> 'c res) \<times> HashCache) set" where
  "cached_fillers os W MI dir1 dir2 hc =
     (if has_db_prefix W dir1 \<or> has_db_prefix W dir2
      then {((h1, h2), hc2) | h1 h2 hc1 hc2. (h1, hc1) \<in> cached_FillPathHashes os W MI dir1 hc \<and>
              (h2, hc2) \<in> cached_FillPathHashes os W MI dir2 hc1}
      else two_cached_scans (w_paths W) os (w_files W) (PathHashesFiller (w_paths W) MI)
             (conf_concurrency (w_conf W)) (p_of (w_paths W) dir1) (p_of (w_paths W) dir2) (mi_empty MI) hc)"

definition cached_DirCompare ::
  "os_api \<Rightarrow> 'p world \<Rightarrow> 'c path_hashes_api \<Rightarrow> 's CompareOutputStream \<Rightarrow> string \<Rightarrow> string \<Rightarrow> 's \<Rightarrow> HashCache \<Rightarrow>
   ('s res \<times> HashCache) set" where
  "cached_DirCompare os W MI stream dir1 dir2 st hc =
     (\<lambda>((hashes1, hashes2), hc').
        (rbind hashes1 (\<lambda>h1. rbind hashes2 (\<lambda>h2. compare_hashes MI (w_conf W) stream h1 h2 st)), hc')) `
       cached_fillers os W MI dir1 dir2 hc"

definition cached_FuzzyDedup ::
  "os_api \<Rightarrow> 'p world \<Rightarrow> dedup_env \<Rightarrow> string \<Rightarrow> HashCache \<Rightarrow> ((nid \<times> cid list \<times> heap) option res \<times> HashCache) set" where
  "cached_FuzzyDedup os W env dir hc =
     (\<lambda>(r, hc'). (rbind r (dedup_tree (env\<lparr>env_conf := w_conf W\<rparr>)), hc')) `
       cached_scan_path os W (TreeCtorProcessor (w_paths W)) empty_tree_ctor dir hc"

section \<open>The cache afterwards\<close>

text \<open>The regular files below a start path.\<close>

definition path_files :: "'p world \<Rightarrow> string \<Rightarrow> 'p set" where
  "path_files W path = (if has_db_prefix W path then {} else regular_below (w_files W) (p_of (w_paths W) path))"

section \<open>On plain files\<close>

definition plain_world :: "os_api \<Rightarrow> 'p world \<Rightarrow> 'p world" where
  "plain_world os W = W\<lparr>w_files := plain_files (w_paths W) os (w_files W)\<rparr>"

lemma plain_world_simps [simp]:
  "w_paths (plain_world os W) = w_paths W" "w_conf (plain_world os W) = w_conf W"
  "w_db_rows (plain_world os W) = w_db_rows W" "w_map_order (plain_world os W) = w_map_order W"
  "w_files (plain_world os W) = plain_files (w_paths W) os (w_files W)"
  "has_db_prefix (plain_world os W) = has_db_prefix W"
  "scan_db_file (plain_world os W) = scan_db_file W"
  by (simp_all add: plain_world_def has_db_prefix_def fun_eq_iff scan_db_file_def)

lemma cached_scan_path_cases:
  "cached_scan_path os W processor s path hc =
     (if has_db_prefix W path then {(scan_db_file W processor s (drop 3 path), hc)}
      else cached_ScanDirectory (w_paths W) os (w_files W) processor (conf_concurrency (w_conf W)) (p_of (w_paths W) path) s hc)"
  by (simp add: cached_scan_path_def ScanDirectoryOrDb_def has_db_prefix_def)

lemma cached_scan_path_plain:
  assumes "os_ok os" and "cache_ok os hc"
  shows "fst ` cached_scan_path os W processor s path hc = scan_path (plain_world os W) processor s path"
  by (simp add: cached_scan_path_cases scan_path_cases cached_ScanDirectory_plain [OF assms])

lemma cached_scan_path_cache:
  assumes "os_ok os" and "cache_ok os hc" and "(out, hc') \<in> cached_scan_path os W processor s path hc"
  shows "cache_used (w_paths W) os hc hc' \<and>
    ((\<exists>s'. out = Inr s') \<longrightarrow> (\<forall>p \<in> path_files W path. is_cached (w_paths W) os hc' p))"
proof (cases "has_db_prefix W path")
  case True
  then show ?thesis using assms by (auto simp: cached_scan_path_cases path_files_def intro: cache_used_refl)
next
  case False
  then have "(out, hc') \<in> cached_ScanDirectory (w_paths W) os (w_files W) processor (conf_concurrency (w_conf W)) (p_of (w_paths W) path) s hc"
    using assms(3) by (simp add: cached_scan_path_cases)
  from cached_ScanDirectory_cache [OF assms(1,2) this] False show ?thesis
    by (simp add: path_files_def)
qed

lemma cached_FillPathHashes_plain:
  assumes "os_ok os" and "cache_ok os hc"
  shows "fst ` cached_FillPathHashes os W MI path hc = FillPathHashes (plain_world os W) MI path"
  by (simp add: cached_FillPathHashes_def FillPathHashes_def cached_scan_path_plain [OF assms])

lemma cached_WarmupCache_plain:
  assumes "os_ok os" and "cache_ok os hc"
  shows "fst ` cached_WarmupCache os W MI path hc = WarmupCache (plain_world os W) MI path"
proof -
  have "fst ` cached_WarmupCache os W MI path hc = (\<lambda>r. rbind r (\<lambda>_. Inr ())) ` fst ` cached_FillPathHashes os W MI path hc"
    unfolding cached_WarmupCache_def image_image by (simp add: case_prod_beta)
  then show ?thesis unfolding cached_FillPathHashes_plain [OF assms] WarmupCache_def .
qed

lemma cached_FuzzyDedup_plain:
  assumes "os_ok os" and "cache_ok os hc"
  shows "fst ` cached_FuzzyDedup os W env dir hc = FuzzyDedup (plain_world os W) env dir"
proof -
  have "fst ` cached_FuzzyDedup os W env dir hc = (\<lambda>r. rbind r (dedup_tree (env\<lparr>env_conf := w_conf W\<rparr>))) `
      fst ` cached_scan_path os W (TreeCtorProcessor (w_paths W)) empty_tree_ctor dir hc"
    unfolding cached_FuzzyDedup_def image_image by (simp add: case_prod_beta)
  then show ?thesis
    unfolding cached_scan_path_plain [OF assms] FuzzyDedup_def ScanDirectory_tree_def by simp
qed

lemma cached_FuzzyDedup_cache:
  assumes "os_ok os" and "cache_ok os hc" and "(out, hc') \<in> cached_FuzzyDedup os W env dir hc"
  shows "cache_used (w_paths W) os hc hc'"
proof -
  obtain r where "(r, hc') \<in> cached_scan_path os W (TreeCtorProcessor (w_paths W)) empty_tree_ctor dir hc"
    using assms(3) by (auto simp: cached_FuzzyDedup_def)
  from cached_scan_path_cache [OF assms(1,2) this] show ?thesis ..
qed

lemma cached_fillers_plain:
  assumes "os_ok os" and "cache_ok os hc"
  shows "fst ` cached_fillers os W MI dir1 dir2 hc =
    FillPathHashes (plain_world os W) MI dir1 \<times> FillPathHashes (plain_world os W) MI dir2"
proof (cases "has_db_prefix W dir1 \<or> has_db_prefix W dir2")
  case True
  let ?F = "\<lambda>dir hc. cached_FillPathHashes os W MI dir hc"
  have used: "cache_ok os hc'" if "(h, hc') \<in> ?F dir hc" for h hc' dir
    by (rule cache_used_ok, rule conjunct1, rule cached_scan_path_cache [OF assms that [unfolded cached_FillPathHashes_def]])
  have "fst ` cached_fillers os W MI dir1 dir2 hc =
      {(h1, h2). \<exists>hc1. (h1, hc1) \<in> ?F dir1 hc \<and> h2 \<in> fst ` ?F dir2 hc1}"
    using True unfolding cached_fillers_def by force
  also have "\<dots> = {(h1, h2). h1 \<in> fst ` ?F dir1 hc \<and> h2 \<in> FillPathHashes (plain_world os W) MI dir2}"
    using cached_FillPathHashes_plain [OF assms(1) used, of _ _ dir1] by force
  finally show ?thesis unfolding cached_FillPathHashes_plain [OF assms] by auto
next
  case False
  then show ?thesis
    using two_cached_scans_plain [OF assms, of "w_paths W" "w_files W" "PathHashesFiller (w_paths W) MI"
        "conf_concurrency (w_conf W)" "p_of (w_paths W) dir1" "p_of (w_paths W) dir2" "mi_empty MI"]
    by (simp add: cached_fillers_def FillPathHashes_def scan_path_cases)
qed

lemma cached_fillers_cache:
  assumes "os_ok os" and "cache_ok os hc" and "((h1, h2), hc') \<in> cached_fillers os W MI dir1 dir2 hc"
  shows "cache_used (w_paths W) os hc hc'"
proof (cases "has_db_prefix W dir1 \<or> has_db_prefix W dir2")
  case True
  then obtain hc1 where f: "(h1, hc1) \<in> cached_FillPathHashes os W MI dir1 hc" "(h2, hc') \<in> cached_FillPathHashes os W MI dir2 hc1"
    using assms(3) by (auto simp: cached_fillers_def)
  have 1: "cache_used (w_paths W) os hc hc1"
    using cached_scan_path_cache [OF assms(1,2) f(1) [unfolded cached_FillPathHashes_def]] by simp
  have "cache_used (w_paths W) os hc1 hc'"
    using cached_scan_path_cache [OF assms(1) cache_used_ok [OF 1] f(2) [unfolded cached_FillPathHashes_def]] by simp
  with 1 show ?thesis by (rule cache_used_trans)
next
  case False
  then show ?thesis
    using two_cached_scans_cache [OF assms(1,2)] assms(3) unfolding cached_fillers_def if_False by metis
qed

lemma cached_DirCompare_plain:
  assumes "os_ok os" and "cache_ok os hc"
  shows "fst ` cached_DirCompare os W MI stream dir1 dir2 st hc = DirCompare (plain_world os W) MI stream dir1 dir2 st"
proof -
  let ?f = "\<lambda>(hashes1, hashes2). rbind hashes1 (\<lambda>h1. rbind hashes2 (\<lambda>h2. compare_hashes MI (w_conf W) stream h1 h2 st))"
  have "fst ` cached_DirCompare os W MI stream dir1 dir2 st hc = ?f ` fst ` cached_fillers os W MI dir1 dir2 hc"
    unfolding cached_DirCompare_def image_image by (simp add: case_prod_beta)
  then show ?thesis unfolding cached_fillers_plain [OF assms] DirCompare_def by auto
qed

lemma cached_DirCompare_cache:
  assumes "os_ok os" and "cache_ok os hc" and "(out, hc') \<in> cached_DirCompare os W MI stream dir1 dir2 st hc"
  shows "cache_used (w_paths W) os hc hc'"
  using assms(3) cached_fillers_cache [OF assms(1,2)] by (auto simp: cached_DirCompare_def)

section \<open>Warming up\<close>

text \<open>The loop over the directories.\<close>

fun cached_warm_up ::
  "os_api \<Rightarrow> 'p world \<Rightarrow> 'c path_hashes_api \<Rightarrow> string list \<Rightarrow> HashCache \<Rightarrow> (unit res \<times> HashCache) set" where
  "cached_warm_up os W MI [] hc = {(Inr (), hc)}"
| "cached_warm_up os W MI (dir # dirs) hc =
     (\<Union>(r, hc') \<in> cached_WarmupCache os W MI dir hc.
        case r of Inl e \<Rightarrow> {(Inl e, hc')} | Inr _ \<Rightarrow> cached_warm_up os W MI dirs hc')"

lemma cached_WarmupCache_cache:
  assumes "os_ok os" and "cache_ok os hc" and "(r, hc') \<in> cached_WarmupCache os W MI dir hc"
  shows "cache_used (w_paths W) os hc hc' \<and>
    ((\<exists>s'. r = Inr s') \<longrightarrow> (\<forall>p \<in> path_files W dir. is_cached (w_paths W) os hc' p))"
proof -
  obtain h where h: "(h, hc') \<in> cached_FillPathHashes os W MI dir hc" "r = rbind h (\<lambda>_. Inr ())"
    using assms(3) by (auto simp: cached_WarmupCache_def)
  from cached_scan_path_cache [OF assms(1,2) h(1) [unfolded cached_FillPathHashes_def]] h(2) show ?thesis
    by (cases h) auto
qed

text \<open>After it, every regular file below the directories is cached.\<close>

lemma cached_warm_up_cache:
  assumes "os_ok os" and "cache_ok os hc" and "(r, hc') \<in> cached_warm_up os W MI dirs hc"
  shows "cache_used (w_paths W) os hc hc' \<and>
    ((\<exists>s'. r = Inr s') \<longrightarrow> (\<forall>dir \<in> set dirs. \<forall>p \<in> path_files W dir. is_cached (w_paths W) os hc' p))"
  using assms(2,3)
proof (induction dirs arbitrary: hc)
  case Nil
  then show ?case by (simp add: cache_used_refl)
next
  case (Cons dir dirs)
  from Cons.prems(2) obtain q hc1 where q: "(q, hc1) \<in> cached_WarmupCache os W MI dir hc"
    "(r, hc') \<in> (case q of Inl e \<Rightarrow> {(Inl e, hc1)} | Inr _ \<Rightarrow> cached_warm_up os W MI dirs hc1)" by auto
  note dir = cached_WarmupCache_cache [OF assms(1) Cons.prems(1) q(1)]
  show ?case
  proof (cases q)
    case (Inl e)
    then show ?thesis using q(2) dir by simp
  next
    case (Inr u)
    then have r: "(r, hc') \<in> cached_warm_up os W MI dirs hc1" using q(2) by simp
    have "cache_ok os hc1" using dir cache_used_ok by blast
    note rest = Cons.IH [OF this r]
    show ?thesis
    proof (intro conjI impI ballI)
      show "cache_used (w_paths W) os hc hc'" using cache_used_trans dir rest by blast
      show "is_cached (w_paths W) os hc' p" if "\<exists>s'. r = Inr s'" "d \<in> set (dir # dirs)" "p \<in> path_files W d" for d p
        using that(2)
      proof (elim set_ConsD [THEN disjE])
        assume "d = dir"
        then have "is_cached (w_paths W) os hc1 p" using dir Inr that(3) by blast
        with cache_used_cached [OF assms(1) rest [THEN conjunct1]] show ?thesis .
      qed (use rest that in blast)
    qed
  qed
qed

end
