(* ===== verification/Dupa_Main.thy ===== *)
theory Dupa_Main
  imports Result_Printing Compare_Db Cache_Db Scan_Properties Cached_Program
begin

text \<open>
  The program (src/src/dupa.cpp): the life of the checksum cache, the choice between warming up the
  cache, duplicate detection and comparison, and the comparison that is printed and stored at once.
\<close>

section \<open>The instance of the checksum cache\<close>

text \<open>The static pointer \<open>HashCache::instance_\<close>: the cache and the connection it will be written to.\<close>

type_synonym 'db cache_instance = "(HashCache \<times> 'db option) option"

definition Initialize ::
  "nat \<Rightarrow> ('db, 'stmt) sqlite_api \<Rightarrow> (string \<Rightarrow> int \<times> 'db) \<Rightarrow> string \<Rightarrow> string \<Rightarrow> 'db cache_instance \<Rightarrow> 'db cache_instance res" where
  "Initialize k A open_db read_cache_from dump_cache_to inst =
     rassert (inst = None) ''!instance_''
       (rbind (open_HashCache k A open_db read_cache_from dump_cache_to) (\<lambda>hc. Inr (Some hc)))"

text \<open>The destructor of the cache must not throw; \<open>entries\<close> lists the map in its iteration order.\<close>

definition Finalize ::
  "('db, 'stmt) sqlite_api \<Rightarrow> ((string \<rightharpoonup> FileInfo) \<Rightarrow> (string \<times> FileInfo) list) \<Rightarrow> 'db cache_instance \<Rightarrow>
   ('db cache_instance \<times> 'db option) res" where
  "Finalize A entries inst =
     (case inst of
        None \<Rightarrow> Inl (Assertion ''instance_'')
      | Some (hc, None) \<Rightarrow> Inr (None, None)
      | Some (hc, Some db) \<Rightarrow>
          (case StoreCksums_db A True (entries (hc_cache hc)) db of
             (Inl e, _) \<Rightarrow> Inl (Terminated ''~HashCache'')
           | (Inr _, db') \<Rightarrow> Inr (None, Some db')))"

definition HashCache_Get :: "'db cache_instance \<Rightarrow> HashCache res" where
  "HashCache_Get inst =
     (case inst of None \<Rightarrow> Inl (Assertion ''HashCache::instance_'') | Some (hc, _) \<Rightarrow> Inr hc)"

section \<open>Two streams at once\<close>

text \<open>Streams over two separate states as streams over both.\<close>

definition on_first :: "'a CompareOutputStream \<Rightarrow> ('a \<times> 'b) CompareOutputStream" where
  "on_first S = \<lparr>
     OverwrittenBy = (\<lambda>f cs (x, y). rbind (OverwrittenBy S f cs x) (\<lambda>x'. Inr (x', y))),
     CopiedFrom = (\<lambda>f cs (x, y). rbind (CopiedFrom S f cs x) (\<lambda>x'. Inr (x', y))),
     RenameTo = (\<lambda>f cs (x, y). rbind (RenameTo S f cs x) (\<lambda>x'. Inr (x', y))),
     ContentChanged = (\<lambda>f (x, y). rbind (ContentChanged S f x) (\<lambda>x'. Inr (x', y))),
     Removed = (\<lambda>f (x, y). rbind (Removed S f x) (\<lambda>x'. Inr (x', y))),
     NewFile = (\<lambda>f (x, y). rbind (NewFile S f x) (\<lambda>x'. Inr (x', y)))\<rparr>"

definition on_second :: "'b CompareOutputStream \<Rightarrow> ('a \<times> 'b) CompareOutputStream" where
  "on_second S = \<lparr>
     OverwrittenBy = (\<lambda>f cs (x, y). rbind (OverwrittenBy S f cs y) (\<lambda>y'. Inr (x, y'))),
     CopiedFrom = (\<lambda>f cs (x, y). rbind (CopiedFrom S f cs y) (\<lambda>y'. Inr (x, y'))),
     RenameTo = (\<lambda>f cs (x, y). rbind (RenameTo S f cs y) (\<lambda>y'. Inr (x, y'))),
     ContentChanged = (\<lambda>f (x, y). rbind (ContentChanged S f y) (\<lambda>y'. Inr (x, y'))),
     Removed = (\<lambda>f (x, y). rbind (Removed S f y) (\<lambda>y'. Inr (x, y'))),
     NewFile = (\<lambda>f (x, y). rbind (NewFile S f y) (\<lambda>y'. Inr (x, y')))\<rparr>"

lemma emit_on_first: "emit (on_first S) ev (x, y) = rbind (emit S ev x) (\<lambda>x'. Inr (x', y))"
  by (cases ev) (simp_all add: on_first_def)

lemma emit_on_second: "emit (on_second S) ev (x, y) = rbind (emit S ev y) (\<lambda>y'. Inr (x, y'))"
  by (cases ev) (simp_all add: on_second_def)

text \<open>Two streams that keep their promises keep them when they are called one after the other.\<close>

locale stream_pair =
  a: compare_stream S1 obs1 upd1 fits1 + b: compare_stream S2 obs2 upd2 fits2
  for S1 :: "'a CompareOutputStream" and obs1 :: "'a \<Rightarrow> 'o1" and upd1 fits1
    and S2 :: "'b CompareOutputStream" and obs2 :: "'b \<Rightarrow> 'o2" and upd2 fits2

definition pair_obs :: "('a \<Rightarrow> 'o1) \<Rightarrow> ('b \<Rightarrow> 'o2) \<Rightarrow> 'a \<times> 'b \<Rightarrow> 'o1 \<times> 'o2" where
  "pair_obs obs1 obs2 st = (obs1 (fst st), obs2 (snd st))"

definition pair_upd ::
  "(compare_event \<Rightarrow> 'o1 \<Rightarrow> 'o1) \<Rightarrow> (compare_event \<Rightarrow> 'o2 \<Rightarrow> 'o2) \<Rightarrow> compare_event \<Rightarrow> 'o1 \<times> 'o2 \<Rightarrow> 'o1 \<times> 'o2" where
  "pair_upd upd1 upd2 ev ob = (upd1 ev (fst ob), upd2 ev (snd ob))"

definition pair_fits ::
  "('o1 \<Rightarrow> compare_event \<Rightarrow> bool) \<Rightarrow> ('o2 \<Rightarrow> compare_event \<Rightarrow> bool) \<Rightarrow> 'o1 \<times> 'o2 \<Rightarrow> compare_event \<Rightarrow> bool" where
  "pair_fits fits1 fits2 ob ev \<longleftrightarrow> fits1 (fst ob) ev \<and> fits2 (snd ob) ev"

sublocale stream_pair \<subseteq> both: compare_stream "CompareOutputStreams [on_first S1, on_second S2]"
  "pair_obs obs1 obs2" "pair_upd upd1 upd2" "pair_fits fits1 fits2"
proof
  fix st :: "'a \<times> 'b" and ev
  assume "pair_fits fits1 fits2 (pair_obs obs1 obs2 st) ev"
  then have f: "fits1 (obs1 (fst st)) ev" "fits2 (obs2 (snd st)) ev" by (simp_all add: pair_fits_def pair_obs_def)
  from a.emit_upd [OF f(1)] obtain x where x: "emit S1 ev (fst st) = Inr x" "obs1 x = upd1 ev (obs1 (fst st))" by blast
  from b.emit_upd [OF f(2)] obtain y where y: "emit S2 ev (snd st) = Inr y" "obs2 y = upd2 ev (obs2 (snd st))" by blast
  show "\<exists>st'. emit (CompareOutputStreams [on_first S1, on_second S2]) ev st = Inr st' \<and>
      pair_obs obs1 obs2 st' = pair_upd upd1 upd2 ev (pair_obs obs1 obs2 st)"
    using x y by (cases st) (simp add: emit_streams emit_on_first emit_on_second pair_obs_def pair_upd_def)
qed

sublocale dupa_sqlite \<subseteq> printed_and_stored: stream_pair PrintingOutputStream "\<lambda>out. out"
  "\<lambda>ev out. out @ [print_event ev]" "\<lambda>_ _. True"
  "DirCompDBStream_calls A" "stored_content content ready" store_in event_fits ..

context stream_pair
begin

lemma both_fits: "both.fits_all (x, y) evs \<longleftrightarrow> a.fits_all x evs \<and> b.fits_all y evs"
  by (induction evs arbitrary: x y) (auto simp: pair_fits_def pair_upd_def)

lemma fold_pair: "fold (pair_upd upd1 upd2) evs (x, y) = (fold upd1 evs x, fold upd2 evs y)"
  by (induction evs arbitrary: x y) (simp_all add: pair_upd_def)

end

section \<open>\<open>main\<close>\<close>

text \<open>What the program works with: the paths, databases and files, the containers, SQLite and the
  addresses of objects.\<close>

record ('p, 'c, 'db, 'stmt) program =
  pg_world :: "'p world"
  pg_tables :: "'c path_hashes_api"
  pg_env :: dedup_env
  pg_sqlite :: "('db, 'stmt) sqlite_api"
  pg_open :: "string \<Rightarrow> int \<times> 'db"
  pg_at_class :: "cid \<Rightarrow> 64 word"
  pg_at_node :: "nid \<Rightarrow> 64 word"

text \<open>The outcome: the printed lines and the database, if there is one.\<close>

type_synonym 'db outcome = "(stdout \<times> 'db option) res"

text \<open>The loop that warms up the cache.\<close>

fun warm_up :: "'p world \<Rightarrow> 'c path_hashes_api \<Rightarrow> string list \<Rightarrow> unit res set" where
  "warm_up W MI [] = {Inr ()}"
| "warm_up W MI (dir # dirs) =
     (\<Union>r \<in> WarmupCache W MI dir. case r of Inl e \<Rightarrow> {Inl e} | Inr _ \<Rightarrow> warm_up W MI dirs)"

text \<open>The database of the results; none without a path.\<close>

definition open_results :: "('p, 'c, 'db, 'stmt) program \<Rightarrow> string \<Rightarrow> 'db option res" where
  "open_results G path =
     (if path = [] then Inr None
      else rbind (new_DBConnection (pg_sqlite G) (pg_open G) path) (\<lambda>db. Inr (Some db)))"

text \<open>One directory: what happens with the result of \<open>FuzzyDedup\<close>.\<close>

definition show_duplicates ::
  "('p, 'c, 'db, 'stmt) program \<Rightarrow> 'db option \<Rightarrow> (nid \<times> cid list \<times> heap) option \<Rightarrow> 'db outcome" where
  "show_duplicates G db res =
     (case res of
        None \<Rightarrow> Inr ([''No files in specified location''], db)
      | Some (r, cs, h) \<Rightarrow>
          rbind (GetInteresingEqClasses h cs) (\<lambda>eq_classes.
          rbind (PrintEqClassses (w_paths (pg_world G)) h eq_classes) (\<lambda>lines1.
          rbind (PrintScatteredDirectories (w_paths (pg_world G))
              ((pg_env G)\<lparr>env_conf := w_conf (pg_world G)\<rparr>) h r) (\<lambda>lines2.
            case db of
              None \<Rightarrow> Inr (lines1 @ lines2, None)
            | Some conn \<Rightarrow>
                (case dbind (CreateResultsDatabase (pg_sqlite G)) (\<lambda>_.
                    dbind (DumpFuzzyDedupRes (pg_sqlite G) (w_paths (pg_world G)) (pg_at_class G) (pg_at_node G) r cs h) (\<lambda>_.
                      DumpInterestingEqClasses (pg_sqlite G) (pg_at_class G) eq_classes)) conn of
                   (Inl e, _) \<Rightarrow> Inl e
                 | (Inr _, conn') \<Rightarrow> Inr (lines1 @ lines2, Some conn'))))))"

definition run_dedup :: "('p, 'c, 'db, 'stmt) program \<Rightarrow> 'db option \<Rightarrow> string \<Rightarrow> 'db outcome set" where
  "run_dedup G db dir = (\<lambda>res. rbind res (show_duplicates G db)) ` FuzzyDedup (pg_world G) (pg_env G) dir"

text \<open>Two directories: what happens after the comparison, without and with a database. After an exception
  the program ends, whatever the destructors do.\<close>

definition print_only :: "stdout res \<Rightarrow> 'db outcome" where
  "print_only r = rbind r (\<lambda>out. Inr (out, None))"

definition print_and_store ::
  "('db, 'stmt) sqlite_api \<Rightarrow> (stdout \<times> ('db, 'stmt) DirCompDBStream) res \<Rightarrow> 'db outcome" where
  "print_and_store A r =
     rbind r (\<lambda>(out, s).
       rbind (DirCompDBStream_Commit A s) (\<lambda>s'.
       rbind (delete_DirCompDBStream A s') (\<lambda>conn'. Inr (out, Some conn'))))"

definition run_compare :: "('p, 'c, 'db, 'stmt) program \<Rightarrow> 'db option \<Rightarrow> string \<Rightarrow> string \<Rightarrow> 'db outcome set" where
  "run_compare G db dir1 dir2 =
     (case db of
        None \<Rightarrow>
          print_only ` DirCompare (pg_world G) (pg_tables G) (CompareOutputStreams [PrintingOutputStream]) dir1 dir2 []
      | Some conn \<Rightarrow>
          (case new_DirCompDBStream (pg_sqlite G) conn of
             (Inl e, _) \<Rightarrow> {Inl e}
           | (Inr db_stream, _) \<Rightarrow>
               print_and_store (pg_sqlite G) `
                 DirCompare (pg_world G) (pg_tables G)
                   (CompareOutputStreams [on_first PrintingOutputStream, on_second (DirCompDBStream_calls (pg_sqlite G))])
                   dir1 dir2 ([], db_stream)))"

text \<open>The body of the \<open>try\<close> block, between construction and destruction of the cache, for files whose
  checksums are given.\<close>

definition main_body :: "('p, 'c, 'db, 'stmt) program \<Rightarrow> 'db outcome set" where
  "main_body G =
     (let conf = w_conf (pg_world G); dirs = conf_dirs conf in
      if conf_cache_only conf then
        (\<lambda>r. rbind r (\<lambda>_. Inr ([], None))) ` warm_up (pg_world G) (pg_tables G) dirs
      else
        (case open_results G (conf_sql_out conf) of
           Inl e \<Rightarrow> {Inl e}
         | Inr db \<Rightarrow>
             if length dirs = 1 then run_dedup G db (dirs ! 0)
             else if length dirs = 2 then run_compare G db (dirs ! 0) (dirs ! 1)
             else {Inl (Assertion ''false'')}))"

text \<open>The same with the files of the operating system and the cache: every outcome comes with the cache
  that the scans leave.\<close>

definition cached_run_dedup ::
  "os_api \<Rightarrow> ('p, 'c, 'db, 'stmt) program \<Rightarrow> 'db option \<Rightarrow> string \<Rightarrow> HashCache \<Rightarrow> ('db outcome \<times> HashCache) set" where
  "cached_run_dedup os G db dir hc =
     apfst (\<lambda>res. rbind res (show_duplicates G db)) ` cached_FuzzyDedup os (pg_world G) (pg_env G) dir hc"

definition cached_run_compare ::
  "os_api \<Rightarrow> ('p, 'c, 'db, 'stmt) program \<Rightarrow> 'db option \<Rightarrow> string \<Rightarrow> string \<Rightarrow> HashCache \<Rightarrow> ('db outcome \<times> HashCache) set" where
  "cached_run_compare os G db dir1 dir2 hc =
     (case db of
        None \<Rightarrow>
          apfst print_only `
            cached_DirCompare os (pg_world G) (pg_tables G) (CompareOutputStreams [PrintingOutputStream]) dir1 dir2 [] hc
      | Some conn \<Rightarrow>
          (case new_DirCompDBStream (pg_sqlite G) conn of
             (Inl e, _) \<Rightarrow> {(Inl e, hc)}
           | (Inr db_stream, _) \<Rightarrow>
               apfst (print_and_store (pg_sqlite G)) `
                 cached_DirCompare os (pg_world G) (pg_tables G)
                   (CompareOutputStreams [on_first PrintingOutputStream, on_second (DirCompDBStream_calls (pg_sqlite G))])
                   dir1 dir2 ([], db_stream) hc))"

definition cached_main_body ::
  "os_api \<Rightarrow> ('p, 'c, 'db, 'stmt) program \<Rightarrow> HashCache \<Rightarrow> ('db outcome \<times> HashCache) set" where
  "cached_main_body os G hc =
     (let conf = w_conf (pg_world G); dirs = conf_dirs conf in
      if conf_cache_only conf then
        apfst (\<lambda>r. rbind r (\<lambda>_. Inr ([], None))) ` cached_warm_up os (pg_world G) (pg_tables G) dirs hc
      else
        (case open_results G (conf_sql_out conf) of
           Inl e \<Rightarrow> {(Inl e, hc)}
         | Inr db \<Rightarrow>
             if length dirs = 1 then cached_run_dedup os G db (dirs ! 0) hc
             else if length dirs = 2 then cached_run_compare os G db (dirs ! 0) (dirs ! 1) hc
             else {(Inl (Assertion ''false''), hc)}))"

text \<open>The warning of a debug build: whether it is printed, and the log level, which is restored.\<close>

definition PrintCompilationProfileWarning :: "conf_state \<Rightarrow> bool \<times> conf_state" where
  "PrintCompilationProfileWarning st =
     (let ll = cs_loglevel st; st1 = st\<lparr>cs_loglevel := DEBUG\<rparr>
      in (log_enabled (cs_loglevel st1) DEBUG, st1\<lparr>cs_loglevel := ll\<rparr>))"

lemma PrintCompilationProfileWarning_simps [simp]: "PrintCompilationProfileWarning st = (True, st)"
  by (simp add: PrintCompilationProfileWarning_def log_enabled_def less_eq_LogLevel_def)

text \<open>The whole program; \<open>entries\<close> lists a map in its iteration order.\<close>

datatype 'db program_end = Exited int | Failed fault | Finished stdout "'db option" "'db option"

definition leave_main ::
  "('db, 'stmt) sqlite_api \<Rightarrow> ((string \<rightharpoonup> FileInfo) \<Rightarrow> (string \<times> FileInfo) list) \<Rightarrow> 'db option \<Rightarrow>
   'db outcome \<times> HashCache \<Rightarrow> 'db program_end" where
  "leave_main A entries cache_db res =
     (case res of
        (Inl e, hc) \<Rightarrow> Failed e
      | (Inr (out, db), hc) \<Rightarrow>
          (case Finalize A entries (Some (hc, cache_db)) of
             Inl e \<Rightarrow> Failed e
           | Inr (_, cache_db') \<Rightarrow> Finished out db cache_db'))"

definition dupa_main ::
  "nat \<Rightarrow> option_parser \<Rightarrow> string list \<Rightarrow> os_api \<Rightarrow> ('p, 'c, 'db, 'stmt) program \<Rightarrow>
   ((string \<rightharpoonup> FileInfo) \<Rightarrow> (string \<times> FileInfo) list) \<Rightarrow> 'db program_end set" where
  "dupa_main k parse argv os G entries =
     (case ParseArgv parse argv (snd (PrintCompilationProfileWarning initial_conf_state)) of
        Exits code \<Rightarrow> {Exited code}
      | Continues st \<Rightarrow>
          (case Conf st of
             Inl e \<Rightarrow> {Failed e}
           | Inr conf \<Rightarrow>
               (case Initialize k (pg_sqlite G) (pg_open G) (conf_read_cache_from conf) (conf_dump_cache_to conf) None of
                  Inl e \<Rightarrow> {Failed e}
                | Inr inst \<Rightarrow>
                    (case HashCache_Get inst of
                       Inl e \<Rightarrow> {Failed e}
                     | Inr hc \<Rightarrow>
                         leave_main (pg_sqlite G) entries (snd (the inst)) `
                           cached_main_body os (G\<lparr>pg_world := (pg_world G)\<lparr>w_conf := conf\<rparr>\<rparr>) hc))))"

lemma Initialize_instance: "Initialize k A open_db read_from dump_to inst = Inr inst' \<Longrightarrow> \<exists>hc conn. inst' = Some (hc, conn)"
  by (auto simp: Initialize_def rassert_def res_simps split: if_splits)

section \<open>The program with the cache is the program on plain files\<close>

definition plain_program :: "os_api \<Rightarrow> ('p, 'c, 'db, 'stmt) program \<Rightarrow> ('p, 'c, 'db, 'stmt) program" where
  "plain_program os G = G\<lparr>pg_world := plain_world os (pg_world G)\<rparr>"

lemma plain_program_simps [simp]:
  "pg_world (plain_program os G) = plain_world os (pg_world G)" "pg_tables (plain_program os G) = pg_tables G"
  "pg_env (plain_program os G) = pg_env G" "pg_sqlite (plain_program os G) = pg_sqlite G"
  "pg_at_class (plain_program os G) = pg_at_class G" "pg_at_node (plain_program os G) = pg_at_node G"
  "open_results (plain_program os G) = open_results G"
  by (simp_all add: plain_program_def open_results_def fun_eq_iff)

lemma plain_show_duplicates [simp]: "show_duplicates (plain_program os G) = show_duplicates G"
  by (intro ext) (unfold show_duplicates_def plain_program_simps plain_world_simps, rule refl)

lemma fst_apfst_image: "fst ` apfst f ` X = f ` fst ` X"
  by (simp add: image_image)

lemma apfst_cache: "(r, hc') \<in> apfst f ` X \<Longrightarrow> \<exists>q. (q, hc') \<in> X"
  by (auto simp: apfst_def map_prod_def split: prod.splits)

lemma cached_warm_up_plain:
  assumes "os_ok os" and "cache_ok os hc"
  shows "fst ` cached_warm_up os W MI dirs hc = warm_up (plain_world os W) MI dirs"
  using assms(2)
proof (induction dirs arbitrary: hc)
  case (Cons dir dirs)
  let ?next = "\<lambda>r hc'. case r of Inl e \<Rightarrow> {(Inl e, hc')} | Inr _ \<Rightarrow> cached_warm_up os W MI dirs hc'"
  have "fst ` ?next r hc' = (case r of Inl e \<Rightarrow> {Inl e} | Inr _ \<Rightarrow> warm_up (plain_world os W) MI dirs)"
    if "(r, hc') \<in> cached_WarmupCache os W MI dir hc" for r hc'
    using Cons.IH [of hc'] cached_WarmupCache_cache [OF assms(1) Cons.prems that] by (auto split: sum.split dest: cache_used_ok)
  then have "fst ` cached_warm_up os W MI (dir # dirs) hc =
      (\<Union>r \<in> fst ` cached_WarmupCache os W MI dir hc. case r of Inl e \<Rightarrow> {Inl e} | Inr _ \<Rightarrow> warm_up (plain_world os W) MI dirs)"
    by (simp add: image_UN case_prod_beta)
  then show ?case by (simp add: cached_WarmupCache_plain [OF assms(1) Cons.prems])
qed simp

lemma cached_run_dedup_plain:
  assumes "os_ok os" and "cache_ok os hc"
  shows "fst ` cached_run_dedup os G db dir hc = run_dedup (plain_program os G) db dir"
  by (simp only: cached_run_dedup_def run_dedup_def fst_apfst_image cached_FuzzyDedup_plain [OF assms]
      plain_program_simps plain_show_duplicates)

lemma cached_run_compare_plain:
  assumes "os_ok os" and "cache_ok os hc"
  shows "fst ` cached_run_compare os G db dir1 dir2 hc = run_compare (plain_program os G) db dir1 dir2"
  by (simp add: cached_run_compare_def run_compare_def fst_apfst_image cached_DirCompare_plain [OF assms]
      split: option.split prod.split sum.split)

lemma cached_run_dedup_cache:
  assumes "os_ok os" and "cache_ok os hc" and "(r, hc') \<in> cached_run_dedup os G db dir hc"
  shows "cache_used (w_paths (pg_world G)) os hc hc'"
  using apfst_cache [OF assms(3) [unfolded cached_run_dedup_def]] cached_FuzzyDedup_cache [OF assms(1,2)] by blast

lemma cached_run_compare_cache:
  assumes "os_ok os" and "cache_ok os hc" and "(r, hc') \<in> cached_run_compare os G db dir1 dir2 hc"
  shows "cache_used (w_paths (pg_world G)) os hc hc'"
proof -
  have c: "cache_used (w_paths (pg_world G)) os hc hc'"
    if "(r, hc') \<in> apfst f ` cached_DirCompare os (pg_world G) MI stream dir1 dir2 st hc" for f MI stream st
    using apfst_cache [OF that] by (elim exE) (rule cached_DirCompare_cache [OF assms(1,2)])
  show ?thesis
    using assms(3) cache_used_refl [OF assms(2)]
    unfolding cached_run_compare_def by (auto split: option.splits prod.splits sum.splits intro: c)
qed

lemma cached_main_body_plain:
  assumes "os_ok os" and "cache_ok os hc"
  shows "fst ` cached_main_body os G hc = main_body (plain_program os G)"
  by (simp add: cached_main_body_def main_body_def Let_def fst_apfst_image cached_warm_up_plain [OF assms]
      cached_run_dedup_plain [OF assms] cached_run_compare_plain [OF assms] split: sum.split)

lemma cached_main_body_cache:
  assumes "os_ok os" and "cache_ok os hc" and "(r, hc') \<in> cached_main_body os G hc"
  shows "cache_used (w_paths (pg_world G)) os hc hc'"
proof (cases "conf_cache_only (w_conf (pg_world G))")
  case True
  then have "(r, hc') \<in> apfst (\<lambda>r. rbind r (\<lambda>_. Inr ([], None))) `
      cached_warm_up os (pg_world G) (pg_tables G) (conf_dirs (w_conf (pg_world G))) hc"
    using assms(3) by (simp add: cached_main_body_def Let_def)
  from apfst_cache [OF this] show ?thesis using cached_warm_up_cache [OF assms(1,2)] by blast
next
  case False
  show ?thesis
    using assms(3) False cached_run_dedup_cache [OF assms(1,2)] cached_run_compare_cache [OF assms(1,2)]
      cache_used_refl [OF assms(2)]
    unfolding cached_main_body_def Let_def by (auto split: sum.splits if_splits)
qed

section \<open>The comparison that is printed and stored\<close>

context dupa_sqlite
begin

lemma comparison_both:
  assumes "content conn = (T, False)" and "distinct (map (\<lambda>ev. strncpy (subject ev)) (report MI conf c1 c2))"
  shows "\<exists>s db s1 s2. new_DirCompDBStream A conn = (Inr s, db) \<and>
    compare_hashes MI conf (CompareOutputStreams [on_first PrintingOutputStream, on_second (DirCompDBStream_calls A)])
      c1 c2 ([], s) = Inr (map print_event (report MI conf c1 c2), s1) \<and>
    DirCompDBStream_Commit A s1 = Inr s2 \<and> delete_DirCompDBStream A s2 = Inr (dc_conn s2) \<and>
    content (dc_conn s2) = (report_tables (report MI conf c1 c2) T, False)"
proof -
  let ?T = "\<lambda>t. if t \<in> set comparison_tables then Some [] else T t"
  let ?evs = "report MI conf c1 c2"
  from new_DirCompDBStream_ok [OF assms(1)] obtain s db where
    s: "new_DirCompDBStream A conn = (Inr s, db)" "stored_content content ready s = Some (?T, True)" by blast
  note fits = report_fits [OF assms(2), where T = T and b = True]
  have obs: "pair_obs (\<lambda>out. out) (stored_content content ready) ([], s) = ([], Some (?T, True))"
    by (simp only: pair_obs_def fst_conv snd_conv s(2))
  have "printed_and_stored.both.fits_all (pair_obs (\<lambda>out. out) (stored_content content ready) ([], s)) ?evs"
    unfolding obs printed_and_stored.both_fits using printing_fits fits(1) by blast
  from printed_and_stored.both.comparison_written [OF this] obtain st where
    st: "compare_hashes MI conf (CompareOutputStreams [on_first PrintingOutputStream, on_second (DirCompDBStream_calls A)])
      c1 c2 ([], s) = Inr st"
      "pair_obs (\<lambda>out. out) (stored_content content ready) st =
        fold (pair_upd (\<lambda>ev out. out @ [print_event ev]) store_in) ?evs ([], Some (?T, True))"
    unfolding obs by blast
  obtain out s1 where o: "st = (out, s1)" by (cases st)
  have "out = map print_event ?evs" "stored_content content ready s1 = Some (report_tables ?evs T, True)"
    using st(2) unfolding printed_and_stored.fold_pair fits(2) fold_append_map by (simp_all add: o pair_obs_def)
  moreover from DirCompDBStream_Commit_ok [OF this(2)] obtain s2 where
    s2: "DirCompDBStream_Commit A s1 = Inr s2" "\<not> dc_trans s2" "content (dc_conn s2) = (report_tables ?evs T, False)" by blast
  moreover have "delete_DirCompDBStream A s2 = Inr (dc_conn s2)"
    using s2(2) by (simp add: delete_DirCompDBStream_def delete_DBTransaction_def)
  ultimately show ?thesis using s(1) st(1) unfolding o by blast
qed

end

text \<open>A comparison with a database prints and stores the report.\<close>

lemma run_compare_stored:
  assumes "dupa_sqlite (pg_sqlite G) db_content result_rows is_ready is_finished is_pending"
    and "db_content conn = (T, False)" and "path_table P (pg_tables G) invar" and "w_paths (pg_world G) = P"
    and "scannable (pg_world G)"
    and "\<And>dir. dir \<in> {dir1, dir2} \<Longrightarrow> \<not> has_db_prefix (pg_world G) dir \<and>
      unambiguous P (found_in P (w_files (pg_world G)) (p_of P dir) []) \<and>
      no_nul ` file_name P ` found_in P (w_files (pg_world G)) (p_of P dir) [] \<subseteq> {True}"
    and "out \<in> run_compare G (Some conn) dir1 dir2"
  shows "\<exists>c1 c2 evs conn'.
    holds_files P (content (pg_tables G) c1) (found_in P (w_files (pg_world G)) (p_of P dir1) []) \<and>
    holds_files P (content (pg_tables G) c2) (found_in P (w_files (pg_world G)) (p_of P dir2) []) \<and>
    reported (pg_tables G) (w_conf (pg_world G)) c1 c2 = Inr evs \<and>
    out = Inr (map print_event evs, Some conn') \<and> db_content conn' = (report_tables evs T, False)"
proof -
  let ?MI = "pg_tables G" and ?W = "pg_world G" and ?A = "pg_sqlite G"
  let ?X = "\<lambda>dir. found_in P (w_files ?W) (p_of P dir) []"
  let ?S = "CompareOutputStreams [on_first PrintingOutputStream, on_second (DirCompDBStream_calls ?A)]"
  let ?finish = "\<lambda>r. rbind r (\<lambda>(out, s). rbind (DirCompDBStream_Commit ?A s) (\<lambda>s'.
    rbind (delete_DirCompDBStream ?A s') (\<lambda>conn'. Inr (out, Some conn'))))"
  from dupa_sqlite.new_DirCompDBStream_ok [OF assms(1,2)] obtain s db where
    s: "new_DirCompDBStream ?A conn = (Inr s, db)" by blast
  then obtain o1 o2 where o: "o1 \<in> FillPathHashes ?W ?MI dir1" "o2 \<in> FillPathHashes ?W ?MI dir2"
    "out = ?finish (rbind o1 (\<lambda>h1. rbind o2 (\<lambda>h2. compare_hashes ?MI (w_conf ?W) ?S h1 h2 ([], s))))"
    using assms(7) by (auto simp: run_compare_def DirCompare_def print_and_store_def)
  have d: "\<not> has_db_prefix ?W dir" "unambiguous P (?X dir)" "f \<in> ?X dir \<Longrightarrow> no_nul (file_name P f)"
    if "dir \<in> {dir1, dir2}" for dir f
    using assms(6) [OF that] by blast+
  obtain c1 where c1: "o1 = Inr c1" "invar c1" "holds_files P (content ?MI c1) (?X dir1)"
    using path_table.FillPathHashes_directory [OF assms(3-5) d(1,2) o(1)] by blast
  obtain c2 where c2: "o2 = Inr c2" "invar c2" "holds_files P (content ?MI c2) (?X dir2)"
    using path_table.FillPathHashes_directory [OF assms(3-5) d(1,2) o(2)] by blast
  have mi: "path_hashes ?MI invar" using assms(3) unfolding path_table_def by blast
  have "no_nul p" if p: "p \<in> dom (content ?MI c1) \<union> dom (content ?MI c2)" for p
  proof -
    obtain f dir where "f \<in> ?X dir" "dir \<in> {dir1, dir2}" "file_name P f = p"
      using p c1(3) c2(3) unfolding holds_files_def by blast
    with d(3) show ?thesis by blast
  qed
  note keys = report_keys_distinct [OF mi c1(2) c2(2) this]
  from dupa_sqlite.comparison_both [OF assms(1,2) keys, of "w_conf ?W"] s obtain s1 s2 where
    "compare_hashes ?MI (w_conf ?W) ?S c1 c2 ([], s) = Inr (map print_event (report ?MI (w_conf ?W) c1 c2), s1)"
    "DirCompDBStream_Commit ?A s1 = Inr s2" "delete_DirCompDBStream ?A s2 = Inr (dc_conn s2)"
    "db_content (dc_conn s2) = (report_tables (report ?MI (w_conf ?W) c1 c2) T, False)" by auto
  then have "out = Inr (map print_event (report ?MI (w_conf ?W) c1 c2), Some (dc_conn s2))"
    unfolding o(3) c1(1) c2(1) by simp
  with c1(3) c2(3) \<open>db_content (dc_conn s2) = _\<close> show ?thesis
    by (intro exI [of _ c1] exI [of _ c2]) (simp add: reported_report)
qed

text \<open>The small world with the database in memory.\<close>

definition example_program :: "(string list, path_hash_list, database, mem_stmt) program" where
  "example_program =
     \<lparr>pg_world = example_world, pg_tables = list_table, pg_env = insertion_env test_conf, pg_sqlite = mem_api,
      pg_open = \<lambda>_. (SQLITE_OK, (Map.empty, False)), pg_at_class = of_nat, pg_at_node = of_nat\<rparr>"

lemma example_program_simps [simp]:
  "pg_world example_program = example_world" "pg_tables example_program = list_table"
  "pg_sqlite example_program = mem_api" "pg_open example_program = (\<lambda>_. (SQLITE_OK, (Map.empty, False)))"
  by (simp_all add: example_program_def)

lemma example_names: "no_nul ` file_name list_paths ` found_in list_paths example_files [''/'', ''d''] [] \<subseteq> {True}"
proof -
  have found: "fst ` found_in list_paths example_files [''/'', ''d''] [] \<subseteq> {[[''a'']], [[''s''], [''b'']]}"
  proof -
    have fn: "p_filename list_paths p = (if elements p = [] then [] else [last (elements p)])" for p
      by (simp add: list_paths_def)
    show ?thesis
      unfolding found_in_rec [of _ _ "[''/'', ''d'']"]
      by (auto simp: entry_files_def is_task_def task_files_def is_subdir_def example_files_def fn elements_def
          found_in_rec [of _ _ "[''/'', ''d'', ''s'']"] split: if_splits)
  qed
  have names: "p_native list_paths (relative_path list_paths [[''a'']]) = ''a''"
    "p_native list_paths (relative_path list_paths [[''s''], [''b'']]) = ''s/b''" by code_simp+
  have "no_nul (file_name list_paths x)" if "x \<in> found_in list_paths example_files [''/'', ''d''] []" for x
  proof -
    have "fst x = [[''a'']] \<or> fst x = [[''s''], [''b'']]" using imageI [OF that, of fst] found by blast
    then show ?thesis unfolding file_name_def
    proof
      assume x: "fst x = [[''a'']]"
      show "no_nul (p_native list_paths (relative_path list_paths (fst x)))"
        unfolding x names by (simp add: no_nul_def)
    next
      assume x: "fst x = [[''s''], [''b'']]"
      show "no_nul (p_native list_paths (relative_path list_paths (fst x)))"
        unfolding x names by (simp add: no_nul_def)
    qed
  qed
  then show ?thesis by blast
qed

section \<open>Properties\<close>

text \<open>C36: More than two directories on the command line: if more than two of them are positional arguments,
  \<open>ParseArgv\<close> ends the program with status 1. But \<open>-d\<close> may be repeated: with at most two positional
  arguments \<open>ParseArgv\<close> and the construction of the cache succeed, and then the program always fails, with
  the assertion at the end of \<open>main\<close>, next to a comment that the number was checked already, or because
  the database of the results cannot be opened. Only warming up the cache accepts more directories.\<close>

theorem third_directory_fails:
  assumes "parse argv = Inr vm" and "\<not> po_help vm" and "2 < length (po_directory vm)" and "\<not> po_cache_only vm"
    and "Initialize k (pg_sqlite G) (pg_open G) (conf_read_cache_from (po_notify vm))
      (conf_dump_cache_to (po_notify vm)) None = Inr inst"
  shows "if 2 < length (filter fst (po_directory vm)) then dupa_main k parse argv os G entries = {Exited 1}
    else \<exists>e. dupa_main k parse argv os G entries = {Failed e} \<and>
      (e = Assertion ''false'' \<or> open_results G (conf_sql_out (po_notify vm)) = Inl e)"
proof (cases "2 < length (filter fst (po_directory vm))")
  case True
  then have "ParseArgv parse argv initial_conf_state = Exits 1"
    using assms(1) by (simp add: ParseArgv_def po_run_def max_positional_def)
  with True show ?thesis by (simp add: dupa_main_def)
next
  case False
  then have run: "po_run parse argv = Inr vm" using assms(1) by (simp add: po_run_def max_positional_def)
  have conf: "length (conf_dirs (po_notify vm)) = length (po_directory vm)" "\<not> conf_cache_only (po_notify vm)"
    using assms(4) by (simp_all add: po_notify_def)
  then have "conf_dirs (po_notify vm) \<noteq> []" using assms(3) by auto
  then have "ParseArgv parse argv initial_conf_state =
      Continues \<lparr>cs_conf = Some (po_notify vm), cs_loglevel = (if po_verbose vm then DEBUG else WARNING)\<rparr>"
    using run assms(2) by (auto simp: ParseArgv_Continues initial_conf_state_def)
  moreover have "open_results (G\<lparr>pg_world := w\<rparr>) p = open_results G p" for w p
    by (simp add: open_results_def)
  moreover obtain hc conn where "inst = Some (hc, conn)" using Initialize_instance [OF assms(5)] by blast
  ultimately show ?thesis
    using assms(3,5) conf False
    by (cases "open_results G (conf_sql_out (po_notify vm))")
      (auto simp: dupa_main_def Conf_def cached_main_body_def HashCache_Get_def leave_main_def)
qed

text \<open>The command lines \<open>dupa a b c\<close> and \<open>dupa a b -d c\<close>.\<close>

theorem third_directory_fails_witness:
  "dupa_main 9 (\<lambda>_. Inr (only_dirs [''a'', ''b'', ''c''])) [''dupa'', ''a'', ''b'', ''c''] example_os example_program (\<lambda>_. []) =
      {Exited 1} \<and>
    dupa_main 9 (\<lambda>_. Inr ((only_dirs [])\<lparr>po_directory := [(True, ''a''), (True, ''b''), (False, ''c'')]\<rparr>))
      [''dupa'', ''a'', ''b'', ''-d'', ''c''] example_os example_program (\<lambda>_. []) = {Failed (Assertion ''false'')}"
proof -
  let ?three = "only_dirs [''a'', ''b'', ''c'']"
    and ?mixed = "(only_dirs [])\<lparr>po_directory := [(True, ''a''), (True, ''b''), (False, ''c'')]\<rparr>"
  have "Initialize 9 (pg_sqlite example_program) (pg_open example_program) (conf_read_cache_from (po_notify vm))
      (conf_dump_cache_to (po_notify vm)) None = Inr (Some (\<lparr>hc_cache = Map.empty, hc_ino_cache = Map.empty\<rparr>, None))"
    if "vm = ?three \<or> vm = ?mixed" for vm
    using that by (auto simp: Initialize_def open_HashCache_def new_HashCache_def po_notify_def only_dirs_def rassert_def)
  note init = this [OF disjI1 [OF refl]] this [OF disjI2 [OF refl]]
  have opts: "\<not> po_help vm" "2 < length (po_directory vm)" "\<not> po_cache_only vm" if "vm = ?three \<or> vm = ?mixed" for vm
    using that by (auto simp: only_dirs_def)
  note three = opts [OF disjI1 [OF refl]] and mixed = opts [OF disjI2 [OF refl]]
  have "2 < length (filter fst (po_directory ?three))" "\<not> 2 < length (filter fst (po_directory ?mixed))"
    by (simp_all add: only_dirs_def)
  moreover have "open_results example_program (conf_sql_out (po_notify ?mixed)) = Inr None"
    by (simp add: open_results_def po_notify_def only_dirs_def)
  ultimately show ?thesis
    using third_directory_fails [where parse = "\<lambda>_. Inr ?three" and argv = "[''dupa'', ''a'', ''b'', ''c'']" and k = 9
        and G = example_program and os = example_os and entries = "\<lambda>_. []", OF refl three init(1)]
      third_directory_fails [where parse = "\<lambda>_. Inr ?mixed" and argv = "[''dupa'', ''a'', ''b'', ''-d'', ''c'']" and k = 9
        and G = example_program and os = example_os and entries = "\<lambda>_. []", OF refl mixed init(2)]
    by auto
qed

end
