(* ===== verification/Cached_Properties.thy ===== *)
theory Cached_Properties
  imports Dupa_Main
begin

text \<open>
  The properties of the scans with the checksum cache, of the program that uses them, and of warming up
  the cache, with instances on a small file system.
\<close>

section \<open>Scans\<close>

text \<open>C5: A scan whose workers look up checksums in the shared cache, with all critical sections interleaved,
  has exactly the outcomes of a scan of the files as they are read without any cache, failures included.
  From the start every schedule ends: there is no infinite sequence of steps through states that are
  reached, and a reached state that is not the end of the scan has a next step. Afterwards the cache is
  correct and, unless the scan failed, has the current entry of every regular file the scan came to, also
  of empty ones, which it does not report.\<close>

theorem cached_scan_correct:
  assumes "os_ok os" and "cache_ok os hc" and "wf (below FS)"
  shows "fst ` cached_ScanDirectory P os FS processor n r s hc = ScanDirectory P (plain_files P os FS) processor n r s \<and>
    cached_ScanDirectory P os FS processor n r s hc \<noteq> {} \<and>
    wf {(b, a). (cached_step P os FS processor)\<^sup>*\<^sup>* (begin_scan n r s, hc) a \<and> cached_step P os FS processor a b} \<and>
    (\<forall>x hc'. (cached_step P os FS processor)\<^sup>*\<^sup>* (begin_scan n r s, hc) (x, hc') \<longrightarrow>
      stopped x \<or> (\<exists>b. cached_step P os FS processor (x, hc') b)) \<and>
    (\<forall>(out, hc') \<in> cached_ScanDirectory P os FS processor n r s hc. cache_ok os hc' \<and>
      ((\<exists>s'. out = Inr s') \<longrightarrow> (\<forall>p \<in> regular_below FS r. is_cached P os hc' p)))"
proof (intro conjI)
  show "fst ` cached_ScanDirectory P os FS processor n r s hc = ScanDirectory P (plain_files P os FS) processor n r s"
    by (rule cached_ScanDirectory_plain [OF assms(1,2)])
  show "cached_ScanDirectory P os FS processor n r s hc \<noteq> {}"
    by (rule cached_ScanDirectory_exists [OF assms])
  show "wf {(b, a). (cached_step P os FS processor)\<^sup>*\<^sup>* (begin_scan n r s, hc) a \<and> cached_step P os FS processor a b}"
    by (rule wf_reached_step [OF assms])
  show "\<forall>x hc'. (cached_step P os FS processor)\<^sup>*\<^sup>* (begin_scan n r s, hc) (x, hc') \<longrightarrow>
      stopped x \<or> (\<exists>b. cached_step P os FS processor (x, hc') b)"
    by (intro allI impI) (rule reached_step_exists [OF assms(1,2)])
  show "\<forall>(out, hc') \<in> cached_ScanDirectory P os FS processor n r s hc. cache_ok os hc' \<and>
      ((\<exists>s'. out = Inr s') \<longrightarrow> (\<forall>p \<in> regular_below FS r. is_cached P os hc' p))"
  proof (intro ballI case_prodI2)
    fix x out hc' assume "x \<in> cached_ScanDirectory P os FS processor n r s hc" "x = (out, hc')"
    then have "(out, hc') \<in> cached_ScanDirectory P os FS processor n r s hc" by simp
    from cached_ScanDirectory_cache [OF assms(1,2) this]
    show "cache_ok os hc' \<and> ((\<exists>s'. out = Inr s') \<longrightarrow> (\<forall>p \<in> regular_below FS r. is_cached P os hc' p))"
      by (simp add: cache_used_def)
  qed
qed

text \<open>The small file system, with files that the operating system of the example can read or not.\<close>

lemma example_os_ok: "os_ok example_os" "cache_ok example_os fresh_cache"
  by (simp_all add: os_ok_def example_os_def cache_ok_def ino_cache_ok_def path_cache_ok_def fresh_cache_def)

lemma example_plain_info:
  "plain_info list_paths example_os p =
    (if p_native list_paths p = ''/d/a'' then Inr \<lparr>fi_size = 2, fi_mtime = 5, fi_sum = 9\<rparr>
     else Inl (FsException example_os 2 (''open '' @ quoted (p_native list_paths p))))"
  by (simp add: plain_info_def example_os_def GetInodeInfo_def plain_cksum_def)

lemma example_plain_ok: "file_system_ok list_paths (plain_files list_paths example_os example_files)"
  using example_files_ok unfolding file_system_ok_def by (auto simp: example_plain_info split: sum.splits if_splits)

lemma example_plain_wf: "wf (below (plain_files list_paths example_os example_files))"
  using wf_example by simp

lemma example_plain_lock: "fs_late_lock (plain_files list_paths example_os example_files)"
  by (simp add: example_files_def)

lemma example_scan_returns:
  assumes "out \<in> ScanDirectory list_paths (plain_files list_paths example_os example_files)
      (TreeCtorProcessor list_paths) 2 [''/'', ''d''] empty_tree_ctor"
  shows "\<exists>s. out = Inr s"
proof -
  have root: "p_native list_paths [''/'', ''d''] \<noteq> []" by (simp add: list_paths_def elements_def)
  from list_path.tree_ScanDirectory [OF root example_plain_ok example_plain_wf example_plain_lock _ assms] show ?thesis
    by auto
qed

lemma example_a_below: "[''/'', ''d'', ''a''] \<in> regular_below example_files [''/'', ''d'']"
  unfolding regular_below_rec by (simp add: example_files_def regular_at_def is_task_def)

lemma example_a_native: "p_native list_paths [''/'', ''d'', ''a''] = ''/d/a''"
  by code_simp

theorem cached_scan_correct_witness:
  "\<exists>s hc. (Inr s, hc) \<in> cached_ScanDirectory list_paths example_os example_files (TreeCtorProcessor list_paths) 2
      [''/'', ''d''] empty_tree_ctor fresh_cache \<and>
    hc_cache hc ''/d/a'' = Some \<lparr>fi_size = 2, fi_mtime = 5, fi_sum = 9\<rparr>"
proof -
  let ?outs = "cached_ScanDirectory list_paths example_os example_files (TreeCtorProcessor list_paths) 2
      [''/'', ''d''] empty_tree_ctor fresh_cache"
  note c = cached_scan_correct [OF example_os_ok wf_example, of list_paths "TreeCtorProcessor list_paths" 2 "[''/'', ''d'']" empty_tree_ctor]
  from c have "?outs \<noteq> {}" by (elim conjE)
  then obtain out hc where o: "(out, hc) \<in> ?outs" by (metis ex_in_conv surj_pair)
  from o have "out \<in> fst ` ?outs" by force
  then have "out \<in> ScanDirectory list_paths (plain_files list_paths example_os example_files)
      (TreeCtorProcessor list_paths) 2 [''/'', ''d''] empty_tree_ctor" using c by simp
  from example_scan_returns [OF this] obtain s where s: "out = Inr s" ..
  from c o have "\<forall>p \<in> regular_below example_files [''/'', ''d'']. is_cached list_paths example_os hc p" unfolding s by blast
  with example_a_below have "is_cached list_paths example_os hc [''/'', ''d'', ''a'']" by blast
  then have "hc_cache hc ''/d/a'' = Some \<lparr>fi_size = 2, fi_mtime = 5, fi_sum = 9\<rparr>"
    by (simp add: is_cached_def example_plain_info example_a_native)
  with o s show ?thesis by blast
qed

text \<open>C8: Two scans that run at once and share the cache, as in a comparison, do not influence each other:
  the possible pairs of outcomes are all pairs of outcomes of the two scans on plain files, failures
  included. From the start every schedule of both ends: there is no infinite sequence of steps through
  states that are reached, and in a reached state in which one of them has not ended a step is possible.
  The cache afterwards is correct and has the files of both.\<close>

theorem two_scans_independent:
  assumes "os_ok os" and "cache_ok os hc" and "wf (below FS)"
  shows "fst ` two_cached_scans P os FS processor n r1 r2 s hc =
      ScanDirectory P (plain_files P os FS) processor n r1 s \<times> ScanDirectory P (plain_files P os FS) processor n r2 s \<and>
    wf {(b, a). (two_scans_step P os FS processor)\<^sup>*\<^sup>* ((begin_scan n r1 s, begin_scan n r2 s), hc) a \<and>
      two_scans_step P os FS processor a b} \<and>
    (\<forall>x y hc'. (two_scans_step P os FS processor)\<^sup>*\<^sup>* ((begin_scan n r1 s, begin_scan n r2 s), hc) ((x, y), hc') \<longrightarrow>
      (stopped x \<and> stopped y) \<or> (\<exists>b. two_scans_step P os FS processor ((x, y), hc') b)) \<and>
    (\<forall>o1 o2 hc'. ((Inr o1, Inr o2), hc') \<in> two_cached_scans P os FS processor n r1 r2 s hc \<longrightarrow> cache_ok os hc' \<and>
      (\<forall>p \<in> regular_below FS r1 \<union> regular_below FS r2. is_cached P os hc' p))"
proof (intro conjI)
  show "fst ` two_cached_scans P os FS processor n r1 r2 s hc =
      ScanDirectory P (plain_files P os FS) processor n r1 s \<times> ScanDirectory P (plain_files P os FS) processor n r2 s"
    by (rule two_cached_scans_plain [OF assms(1,2)])
  show "wf {(b, a). (two_scans_step P os FS processor)\<^sup>*\<^sup>* ((begin_scan n r1 s, begin_scan n r2 s), hc) a \<and>
      two_scans_step P os FS processor a b}"
    by (rule wf_reached_two_steps [OF assms])
  show "\<forall>x y hc'. (two_scans_step P os FS processor)\<^sup>*\<^sup>* ((begin_scan n r1 s, begin_scan n r2 s), hc) ((x, y), hc') \<longrightarrow>
      (stopped x \<and> stopped y) \<or> (\<exists>b. two_scans_step P os FS processor ((x, y), hc') b)"
    by (intro allI impI) (rule reached_two_steps_exist [OF assms(1,2)])
  show "\<forall>o1 o2 hc'. ((Inr o1, Inr o2), hc') \<in> two_cached_scans P os FS processor n r1 r2 s hc \<longrightarrow> cache_ok os hc' \<and>
      (\<forall>p \<in> regular_below FS r1 \<union> regular_below FS r2. is_cached P os hc' p)"
  proof (intro allI impI)
    fix o1 o2 hc' assume "((Inr o1, Inr o2), hc') \<in> two_cached_scans P os FS processor n r1 r2 s hc"
    from two_cached_scans_cache [OF assms(1,2) this]
    show "cache_ok os hc' \<and> (\<forall>p \<in> regular_below FS r1 \<union> regular_below FS r2. is_cached P os hc' p)"
      by (auto simp: cache_used_def)
  qed
qed

theorem two_scans_independent_witness:
  "\<exists>s1 s2 hc. ((Inr s1, Inr s2), hc) \<in> two_cached_scans list_paths example_os example_files (TreeCtorProcessor list_paths)
      2 [''/'', ''d''] [''/'', ''d''] empty_tree_ctor fresh_cache \<and>
    hc_cache hc ''/d/a'' = Some \<lparr>fi_size = 2, fi_mtime = 5, fi_sum = 9\<rparr>"
proof -
  let ?outs = "two_cached_scans list_paths example_os example_files (TreeCtorProcessor list_paths)
      2 [''/'', ''d''] [''/'', ''d''] empty_tree_ctor fresh_cache"
  let ?plain = "ScanDirectory list_paths (plain_files list_paths example_os example_files)
      (TreeCtorProcessor list_paths) 2 [''/'', ''d''] empty_tree_ctor"
  note c = two_scans_independent [OF example_os_ok wf_example, of list_paths "TreeCtorProcessor list_paths"
      2 "[''/'', ''d'']" "[''/'', ''d'']" empty_tree_ctor]
  from scan_run_exists [OF example_plain_wf, of list_paths "TreeCtorProcessor list_paths" "scan_locals [''/'', ''d''] empty_tree_ctor"]
  obtain out where out: "out \<in> ?plain" by (auto simp: ScanDirectory_def start_scan_cases)
  then have "(out, out) \<in> fst ` ?outs" using c [THEN conjunct1] by simp
  then obtain hc where "((out, out), hc) \<in> ?outs" by force
  moreover from example_scan_returns [OF out] obtain s where s: "out = Inr s" ..
  ultimately have o: "((Inr s, Inr s), hc) \<in> ?outs" by simp
  then have "is_cached list_paths example_os hc [''/'', ''d'', ''a'']" using c example_a_below by blast
  then have "hc_cache hc ''/d/a'' = Some \<lparr>fi_size = 2, fi_mtime = 5, fi_sum = 9\<rparr>"
    by (simp add: is_cached_def example_plain_info example_a_native)
  with o show ?thesis by blast
qed

section \<open>The program\<close>

text \<open>C7: The outcomes of the program between construction and destruction of a correct cache - what it
  prints and what it stores - are those of the program on the plain files, whatever the cache holds and
  whatever the schedules. The cache stays correct, and no current entry is lost.\<close>

theorem cached_program:
  assumes "os_ok os" and "cache_ok os hc"
  shows "fst ` cached_main_body os G hc = main_body (plain_program os G) \<and>
    (\<forall>r hc'. (r, hc') \<in> cached_main_body os G hc \<longrightarrow> cache_ok os hc' \<and>
      (\<forall>p. is_cached (w_paths (pg_world G)) os hc p \<longrightarrow> is_cached (w_paths (pg_world G)) os hc' p))"
proof (intro conjI allI impI)
  show "fst ` cached_main_body os G hc = main_body (plain_program os G)"
    by (rule cached_main_body_plain [OF assms])
  fix r hc' assume "(r, hc') \<in> cached_main_body os G hc"
  from cached_main_body_cache [OF assms this] have used: "cache_used (w_paths (pg_world G)) os hc hc'" .
  then show "cache_ok os hc'" by (rule cache_used_ok)
  show "is_cached (w_paths (pg_world G)) os hc' p" if "is_cached (w_paths (pg_world G)) os hc p" for p
    by (rule cache_used_cached [OF assms(1) used that])
qed

theorem cached_program_witness:
  "fst ` cached_main_body example_os example_program fresh_cache = main_body (plain_program example_os example_program) \<and>
    cached_main_body example_os example_program fresh_cache \<noteq> {}"
proof -
  note c = cached_program [OF example_os_ok, of example_program, THEN conjunct1]
  obtain t where "t \<in> FuzzyDedup (plain_world example_os example_world) (pg_env example_program) ''.''"
    using scan_run_exists [OF iffD2 [OF arg_cong [OF plain_below, of wf] wf_example]]
    by (fastforce simp: FuzzyDedup_def ScanDirectory_tree_def scan_path_cases ScanDirectory_def has_db_prefix_def test_conf_def
        po_notify_def only_dirs_def start_scan_cases)
  then have "main_body (plain_program example_os example_program) \<noteq> {}"
    by (auto simp: main_body_def Let_def test_conf_def po_notify_def only_dirs_def open_results_def run_dedup_def)
  with c show ?thesis by auto
qed

section \<open>Warming up the cache\<close>

text \<open>What is needed of the operating system: what can be opened has a path without NUL, and sizes and
  times are 64-bit.\<close>

definition files_storable :: "'p path_api \<Rightarrow> os_api \<Rightarrow> bool" where
  "files_storable P os \<longleftrightarrow>
     (\<forall>p fi. plain_info P os p = Inr fi \<longrightarrow> no_nul (p_native P p) \<and> int64 (fi_size fi) \<and> int64 (fi_mtime fi))"

text \<open>What is needed of the iteration over an unordered map.\<close>

definition lists_maps :: "((string \<rightharpoonup> FileInfo) \<Rightarrow> (string \<times> FileInfo) list) \<Rightarrow> bool" where
  "lists_maps entries \<longleftrightarrow> (\<forall>m. finite (dom m) \<longrightarrow> distinct (map fst (entries m)) \<and> map_of (entries m) = m)"

lemma from_files_storable:
  assumes "files_storable P os" and "lists_maps entries" and "from_files P os hc"
  shows "storable (entries (hc_cache hc))"
    and "(path, fi) \<in> set (entries (hc_cache hc)) \<longleftrightarrow> hc_cache hc path = Some fi"
proof -
  have e: "distinct (map fst (entries (hc_cache hc)))" "map_of (entries (hc_cache hc)) = hc_cache hc"
    using assms(2,3) by (simp_all add: lists_maps_def from_files_def)
  show "(path, fi) \<in> set (entries (hc_cache hc)) \<longleftrightarrow> hc_cache hc path = Some fi" for path fi
    using e by (metis map_of_SomeD map_of_is_SomeI)
  then show "storable (entries (hc_cache hc))"
    using e(1) assms(1,3) unfolding storable_def files_storable_def from_files_def by (metis prod.collapse)
qed

lemma empty_cache_ok: "cache_ok os \<lparr>hc_cache = Map.empty, hc_ino_cache = Map.empty\<rparr>"
    "from_files P os \<lparr>hc_cache = Map.empty, hc_ino_cache = Map.empty\<rparr>"
  by (simp_all add: cache_ok_def ino_cache_ok_def path_cache_ok_def from_files_def)

text \<open>Warming up has outcomes, and does not fail on directories that can be scanned.\<close>

lemma cached_warm_up_exists:
  assumes "os_ok os" and "cache_ok os hc" and "wf (below (w_files W))"
  shows "cached_warm_up os W MI dirs hc \<noteq> {}"
  using assms(2)
proof (induction dirs arbitrary: hc)
  case (Cons dir dirs)
  have "cached_scan_path os W (PathHashesFiller (w_paths W) MI) (mi_empty MI) dir hc \<noteq> {}"
    by (simp add: cached_scan_path_cases cached_ScanDirectory_exists [OF assms(1) Cons.prems assms(3)])
  then obtain r hc1 where r: "(r, hc1) \<in> cached_WarmupCache os W MI dir hc"
    by (fastforce simp: cached_WarmupCache_def cached_FillPathHashes_def)
  have "cache_ok os hc1" using cached_WarmupCache_cache [OF assms(1) Cons.prems r] cache_used_ok by blast
  from Cons.IH [OF this] r show ?case by (cases r) fastforce+
qed simp

lemma warm_up_returns:
  assumes "path_table P MI invar" and "w_paths W = P" and "scannable W"
    and "\<And>dir. dir \<in> set dirs \<Longrightarrow> \<not> has_db_prefix W dir" and "r \<in> warm_up W MI dirs"
  shows "r = Inr ()"
  using assms(4,5)
proof (induction dirs)
  case (Cons dir dirs)
  from Cons.prems(2) obtain h where h: "h \<in> FillPathHashes W MI dir"
    "r \<in> (case rbind h (\<lambda>_. Inr ()) of Inl e \<Rightarrow> {Inl e} | Inr _ \<Rightarrow> warm_up W MI dirs)"
    by (auto simp: WarmupCache_def)
  obtain c where "h = Inr c"
    using path_table.FillPathHashes_returns [OF assms(1-3) _ h(1)] Cons.prems(1) by auto
  with h(2) Cons show ?case by simp
qed simp

text \<open>The program on a command line that warms up the cache.\<close>

lemma dupa_main_warm_up:
  assumes "po_run parse argv = Inr vm" and "\<not> po_help vm" and "conf_dirs (po_notify vm) = dirs" and "dirs \<noteq> []"
    and "po_cache_only vm" and "conf_read_cache_from (po_notify vm) = []"
    and "conf_dump_cache_to (po_notify vm) = path" and "path \<noteq> []" and "new_DBConnection (pg_sqlite G) (pg_open G) path = Inr db"
  shows "dupa_main k parse argv os G entries =
    leave_main (pg_sqlite G) entries (Some db) ` apfst (\<lambda>r. rbind r (\<lambda>_. Inr ([], None))) `
      cached_warm_up os ((pg_world G)\<lparr>w_conf := po_notify vm\<rparr>) (pg_tables G) dirs
        \<lparr>hc_cache = Map.empty, hc_ino_cache = Map.empty\<rparr>"
proof -
  have only: "conf_cache_only (po_notify vm)" using assms(5) by (simp add: po_notify_def)
  have "Initialize k (pg_sqlite G) (pg_open G) (conf_read_cache_from (po_notify vm)) (conf_dump_cache_to (po_notify vm)) None =
      Inr (Some (\<lparr>hc_cache = Map.empty, hc_ino_cache = Map.empty\<rparr>, Some db))"
    using assms(6-9) by (simp add: Initialize_def rassert_def open_HashCache_def new_HashCache_def)
  moreover have "ParseArgv parse argv initial_conf_state =
      Continues \<lparr>cs_conf = Some (po_notify vm), cs_loglevel = (if po_verbose vm then DEBUG else WARNING)\<rparr>"
    using assms(1-4) by (auto simp: ParseArgv_Continues initial_conf_state_def)
  ultimately show ?thesis
    using only assms(3)
    by (simp add: dupa_main_def Conf_def HashCache_Get_def cached_main_body_def)
qed

text \<open>What a stored cache should hold.\<close>

definition caches_files :: "'p path_api \<Rightarrow> os_api \<Rightarrow> 'p file_system \<Rightarrow> string list \<Rightarrow> (string \<times> FileInfo) list \<Rightarrow> bool" where
  "caches_files P os FS dirs cache \<longleftrightarrow> distinct (map fst cache) \<and>
     (\<forall>dir \<in> set dirs. \<forall>p \<in> regular_below FS (p_of P dir).
        \<forall>fi. plain_info P os p = Inr fi \<longrightarrow> (p_native P p, fi) \<in> set cache) \<and>
     (\<forall>(path, fi) \<in> set cache. \<exists>p. path = p_native P p \<and> plain_info P os p = Inr fi)"

lemma stored_caches_files:
  assumes "from_files P os hc" and "\<forall>dir \<in> set dirs. \<forall>p \<in> regular_below FS (p_of P dir). is_cached P os hc p"
    and "files_storable P os" and "lists_maps entries" and "mset cache = mset (entries (hc_cache hc))"
  shows "caches_files P os FS dirs cache"
  unfolding caches_files_def
proof (intro conjI ballI allI impI)
  note listed = from_files_storable [OF assms(3,4,1)]
  have "set cache = set (entries (hc_cache hc))" using assms(5) by (rule mset_eq_setD)
  note here = this listed(2)
  show "distinct (map fst cache)"
    using listed(1) assms(5) mset_eq_imp_distinct_iff [of "map fst cache" "map fst (entries (hc_cache hc))"]
    by (simp add: storable_def)
  show "(p_native P p, fi) \<in> set cache" if "dir \<in> set dirs" "p \<in> regular_below FS (p_of P dir)"
    "plain_info P os p = Inr fi" for dir p fi
    using assms(2) that unfolding here(1) here(2) is_cached_def by blast
  show "case e of (path, fi) \<Rightarrow> \<exists>p. path = p_native P p \<and> plain_info P os p = Inr fi" if "e \<in> set cache" for e
  proof (cases e)
    case (Pair path fi)
    then have "hc_cache hc path = Some fi" using that here by simp
    then show ?thesis using assms(1) Pair by (simp add: from_files_def)
  qed
qed

text \<open>C6: With the option for warming up only, at least one thread, an empty cache to begin with and a
  database to write it to, the program on directories, none of them below itself, never fails under any
  schedule, prints nothing, and leaves a database from which any later connection reads back a cache with the current size, time and checksum of every
  readable regular file the scans came to, and with nothing but what files gave. The numbers bound the
  rows that the loops of the model read.\<close>

theorem warmed_cache_stored:
  assumes "dupa_sqlite (pg_sqlite G) db_content result_rows is_ready is_finished is_pending"
    and "path_table P (pg_tables G) invar" and "w_paths (pg_world G) = P" and "os_ok os" and "files_storable P os"
    and "file_system_ok P (plain_files P os (w_files (pg_world G)))" and "lists_maps entries"
    and "po_run parse argv = Inr vm" and "\<not> po_help vm" and "conf_dirs (po_notify vm) = dirs" and "dirs \<noteq> []"
    and "\<forall>dir \<in> set dirs. take 3 dir \<noteq> ''db:''"
    and "po_cache_only vm" and "conf_read_cache_from (po_notify vm) = []"
    and "conf_dump_cache_to (po_notify vm) = path" and "path \<noteq> []"
    and "pg_open G path = (SQLITE_OK, db)" and "db_content db = (T, False)"
    and "wf (below (w_files (pg_world G)))" and "fs_late_lock (w_files (pg_world G))"
    and "0 < conf_concurrency (po_notify vm)"
  shows "dupa_main k parse argv os G entries \<noteq> {} \<and>
    (\<forall>out \<in> dupa_main k parse argv os G entries. \<exists>db'. out = Finished [] None (Some db') \<and>
      (\<exists>n. \<forall>k' open_db path' db2. n < k' \<longrightarrow> open_db path' = (SQLITE_OK, db2) \<longrightarrow> db_content db2 = db_content db' \<longrightarrow>
        (\<exists>cache. ReadCacheFromDb (file_list_rows k' (pg_sqlite G) open_db) path' = Inr cache \<and>
          caches_files P os (w_files (pg_world G)) dirs cache)))"
proof (intro conjI ballI)
  let ?A = "pg_sqlite G" and ?hc0 = "\<lparr>hc_cache = Map.empty, hc_ino_cache = Map.empty\<rparr>"
  let ?W = "(pg_world G)\<lparr>w_conf := po_notify vm\<rparr>"
  have W: "w_paths ?W = P" "w_files ?W = w_files (pg_world G)" using assms(3) by simp_all
  from dupa_sqlite.new_DBConnection_ok [where open_db = "pg_open G" and path = path, OF assms(1,17)] obtain db1 where
    db1: "new_DBConnection ?A (pg_open G) path = Inr db1" "db_content db1 = (T, False)" using assms(18) by auto
  note main = dupa_main_warm_up [where parse = parse and argv = argv and G = G, OF assms(8-11,13-16) db1(1)]
  show "dupa_main k parse argv os G entries \<noteq> {}"
    unfolding main by (simp add: cached_warm_up_exists [OF assms(4) empty_cache_ok(1)] assms(19))
  fix out assume "out \<in> dupa_main k parse argv os G entries"
  then obtain r hc where
    r: "(r, hc) \<in> cached_warm_up os ?W (pg_tables G) dirs ?hc0"
      "out = leave_main ?A entries (Some db1) (rbind r (\<lambda>_. Inr ([], None)), hc)" unfolding main by auto
  have "r \<in> warm_up (plain_world os ?W) (pg_tables G) dirs"
    unfolding cached_warm_up_plain [OF assms(4) empty_cache_ok(1), symmetric] using r(1) by force
  moreover have prefix: "\<not> has_db_prefix ?W dir" if "dir \<in> set dirs" for dir
    using assms(12) that by (simp add: has_db_prefix_def)
  ultimately have ret: "r = Inr ()"
    using warm_up_returns [OF assms(2), where W = "plain_world os ?W" and dirs = dirs] assms(3,6,19-21)
    by (simp add: scannable_def)
  from cached_warm_up_cache [OF assms(4) empty_cache_ok(1) r(1)] ret
  have used: "cache_used P os ?hc0 hc" and "\<forall>dir \<in> set dirs. \<forall>p \<in> path_files ?W dir. is_cached P os hc p"
    unfolding W by simp_all
  then have filled: "\<forall>dir \<in> set dirs. \<forall>p \<in> regular_below (w_files (pg_world G)) (p_of P dir). is_cached P os hc p"
    using prefix W by (simp add: path_files_def)
  have hc: "from_files P os hc"
    using used from_files_kept [OF assms(4)] empty_cache_ok(2) unfolding cache_used_def by blast
  from stored_cache_read [OF assms(1) db1(2) from_files_storable(1) [OF assms(5,7) hc]] obtain db' where
    db': "StoreCksums_db ?A True (entries (hc_cache hc)) db1 = (Inr (), db')"
      "\<forall>k open_db path db2. Suc (length (entries (hc_cache hc))) < k \<longrightarrow> open_db path = (SQLITE_OK, db2) \<longrightarrow>
        db_content db2 = db_content db' \<longrightarrow>
        (\<exists>cache. ReadCacheFromDb (file_list_rows k ?A open_db) path = Inr cache \<and> mset cache = mset (entries (hc_cache hc)))"
    by blast
  note good = stored_caches_files [OF hc filled assms(5,7)]
  have out: "out = Finished [] None (Some db')"
    using r(2) ret db'(1) by (simp add: leave_main_def Finalize_def)
  show "\<exists>db'. out = Finished [] None (Some db') \<and>
      (\<exists>n. \<forall>k' open_db path' db2. n < k' \<longrightarrow> open_db path' = (SQLITE_OK, db2) \<longrightarrow> db_content db2 = db_content db' \<longrightarrow>
        (\<exists>cache. ReadCacheFromDb (file_list_rows k' ?A open_db) path' = Inr cache \<and>
          caches_files P os (w_files (pg_world G)) dirs cache))"
  proof (intro exI conjI)
    show "\<forall>k' open_db path' db2. Suc (length (entries (hc_cache hc))) < k' \<longrightarrow> open_db path' = (SQLITE_OK, db2) \<longrightarrow>
        db_content db2 = db_content db' \<longrightarrow>
        (\<exists>cache. ReadCacheFromDb (file_list_rows k' ?A open_db) path' = Inr cache \<and>
          caches_files P os (w_files (pg_world G)) dirs cache)"
      using db'(2) good by meson
  qed (rule out)
qed

definition warm_up_options :: po_values where
  "warm_up_options = (only_dirs [''/d''])\<lparr>po_dump_cache_to := Some ''c.db'', po_cache_only := True\<rparr>"

lemma example_files_storable: "files_storable list_paths example_os"
  unfolding files_storable_def by (auto simp: example_plain_info no_nul_def int64_def split: if_splits)

lemma maps_listed: "\<exists>entries. lists_maps entries"
proof -
  have *: "\<exists>es. finite (dom m) \<longrightarrow> distinct (map fst es) \<and> map_of es = m" for m :: "string \<rightharpoonup> FileInfo"
  proof (cases "finite (dom m)")
    case True
    from finite_distinct_list [OF True] obtain ks where ks: "set ks = dom m" "distinct ks" by (elim exE conjE)
    have "map_of (map (\<lambda>k. (k, the (m k))) ks) k = m k" for k
      using ks(1) by (cases "k \<in> dom m") (auto simp: map_of_map_restrict restrict_map_def)
    then have "map_of (map (\<lambda>k. (k, the (m k))) ks) = m" by (rule ext)
    then show ?thesis using ks(2) by (intro exI [of _ "map (\<lambda>k. (k, the (m k))) ks"]) (simp add: comp_def)
  qed simp
  have "\<forall>m :: string \<rightharpoonup> FileInfo. \<exists>es. finite (dom m) \<longrightarrow> distinct (map fst es) \<and> map_of es = m"
    by (rule allI) (rule *)
  from choice [OF this] show ?thesis unfolding lists_maps_def .
qed

theorem warmed_cache_stored_witness:
  "\<exists>entries T k cache. Finished [] None (Some T) \<in>
      dupa_main 9 (\<lambda>_. Inr warm_up_options) [''dupa''] example_os example_program entries \<and>
    ReadCacheFromDb (file_list_rows k mem_api (\<lambda>_. (SQLITE_OK, T))) ''c.db'' = Inr cache \<and>
    (''/d/a'', \<lparr>fi_size = 2, fi_mtime = 5, fi_sum = 9\<rparr>) \<in> set cache"
proof -
  obtain entries where entries: "lists_maps entries" using maps_listed by blast
  let ?main = "dupa_main 9 (\<lambda>_. Inr warm_up_options) [''dupa''] example_os example_program entries"
  have opts: "\<not> po_help warm_up_options" "conf_dirs (po_notify warm_up_options) = [''/d'']" "po_cache_only warm_up_options"
    "conf_read_cache_from (po_notify warm_up_options) = []" "conf_dump_cache_to (po_notify warm_up_options) = ''c.db''"
    and conc: "0 < conf_concurrency (po_notify warm_up_options)"
    and run: "po_run (\<lambda>_. Inr warm_up_options) [''dupa''] = Inr warm_up_options"
    by (simp_all add: warm_up_options_def only_dirs_def po_notify_def po_run_def max_positional_def)
  have dirs: "[''/d''] \<noteq> []" "\<forall>dir \<in> set [''/d'']. take 3 dir \<noteq> ''db:''" "''c.db'' \<noteq> []" by auto
  have sqlite: "dupa_sqlite (pg_sqlite example_program) (\<lambda>D. D) mem_rows mem_ready mem_finished mem_pending"
    using mem.dupa_sqlite_axioms by simp
  have table: "path_table list_paths (pg_tables example_program) sorted_table"
    using list_path_table.path_table_axioms by simp
  have opened: "pg_open example_program ''c.db'' = (SQLITE_OK, (Map.empty, False))" by simp
  have G: "w_paths (pg_world example_program) = list_paths" "wf (below (w_files (pg_world example_program)))"
    "file_system_ok list_paths (plain_files list_paths example_os (w_files (pg_world example_program)))"
    "fs_late_lock (w_files (pg_world example_program))"
    using wf_example example_plain_ok example_plain_lock by simp_all
  note w = warmed_cache_stored [where parse = "\<lambda>_. Inr warm_up_options" and argv = "[''dupa'']" and k = 9
      and G = example_program and db = "(Map.empty, False)" and T = Map.empty,
      OF sqlite table G(1) example_os_ok(1) example_files_storable G(3) entries run opts(1,2) dirs(1,2) opts(3-5) dirs(3)
      opened refl G(2,4) conc]
  obtain out where out: "out \<in> ?main" using w [THEN conjunct1] by (meson ex_in_conv)
  from w [THEN conjunct2, THEN bspec, OF out] obtain T n where T: "out = Finished [] None (Some T)"
    "\<forall>k' open_db path' db2. n < k' \<longrightarrow> open_db path' = (SQLITE_OK, db2) \<longrightarrow> db2 = T \<longrightarrow>
      (\<exists>cache. ReadCacheFromDb (file_list_rows k' mem_api open_db) path' = Inr cache \<and>
        caches_files list_paths example_os example_files [''/d''] cache)"
    unfolding example_program_simps example_world_simps by (elim exE conjE)
  from T(2) [THEN spec, of "Suc n", THEN spec, of "\<lambda>_. (SQLITE_OK, T)", THEN spec, of "''c.db''", THEN spec, of T]
  obtain cache where c: "ReadCacheFromDb (file_list_rows (Suc n) mem_api (\<lambda>_. (SQLITE_OK, T))) ''c.db'' = Inr cache"
    "caches_files list_paths example_os example_files [''/d''] cache" by auto
  have "plain_info list_paths example_os [''/'', ''d'', ''a''] = Inr \<lparr>fi_size = 2, fi_mtime = 5, fi_sum = 9\<rparr>"
    by (simp add: example_plain_info example_a_native)
  moreover have "[''/'', ''d'', ''a''] \<in> regular_below example_files (p_of list_paths ''/d'')"
    unfolding example_d by (rule example_a_below)
  ultimately have "(p_native list_paths [''/'', ''d'', ''a''], \<lparr>fi_size = 2, fi_mtime = 5, fi_sum = 9\<rparr>) \<in> set cache"
    using c(2) unfolding caches_files_def by simp
  then have "(''/d/a'', \<lparr>fi_size = 2, fi_mtime = 5, fi_sum = 9\<rparr>) \<in> set cache" unfolding example_a_native .
  with out [unfolded T(1)] c(1) show ?thesis by blast
qed

end
