(* ===== verification/Leaf_Phase.thy ===== *)
theory Leaf_Phase
  imports Dedup_Run
begin

text \<open>
  Invariants of the first half of \<open>dedup_tree\<close> (src/src/fuzzy_dedup.cpp). The locale
  \<open>leaf_invariant\<close> asks that a property of heaps survives a new class, a leaf that joins a class of
  its kind, and the deletion of an unused class; then the classification of the leaves keeps it.
\<close>

section \<open>Nodes with files\<close>

definition has_file :: "heap \<Rightarrow> nid \<Rightarrow> bool" where
  "has_file h n \<longleftrightarrow> (\<exists>m. (n, m) \<in> (child_rel h)\<^sup>* \<and> is_file h m)"

lemma has_file_rec: "has_file h n \<longleftrightarrow> is_file h n \<or> (\<exists>c \<in> set (children_of h n). has_file h c)"
proof
  assume "has_file h n"
  then obtain m where m: "(n, m) \<in> (child_rel h)\<^sup>*" "is_file h m" by (auto simp: has_file_def)
  from m(1) show "is_file h n \<or> (\<exists>c \<in> set (children_of h n). has_file h c)"
    by (cases rule: converse_rtranclE) (use m(2) in \<open>auto simp: has_file_def child_rel_def\<close>)
next
  assume "is_file h n \<or> (\<exists>c \<in> set (children_of h n). has_file h c)"
  then show "has_file h n"
    unfolding has_file_def by (auto simp: child_rel_def intro: converse_rtrancl_into_rtrancl)
qed

lemma has_file_same_tree:
  assumes "same_tree h h'"
  shows "has_file h' = has_file h"
proof -
  have "child_rel h' = child_rel h" unfolding child_rel_def same_treeD(1) [OF assms] ..
  then have "has_file h' n = has_file h n" for n by (simp only: has_file_def is_file_same [OF assms])
  then show ?thesis by (rule ext)
qed

lemma empty_dir_no_file: "is_empty_dir h n \<Longrightarrow> \<not> has_file h n"
  using file_not_empty_dir [of h n] is_empty_dir_leaf [of h n] has_file_rec [of h n] by (auto simp: leaf_def)

section \<open>Invariants of the classification of the leaves\<close>

locale leaf_invariant = unordered_env +
  fixes I :: "heap \<Rightarrow> bool"
  assumes new_class: "heap_ok h \<Longrightarrow> I h \<Longrightarrow> I (snd (new_EqClass h))"
    and add_leaf: "heap_ok h \<Longrightarrow> leaf h n \<Longrightarrow> class_of h n = None \<Longrightarrow> c \<in> dom (h_classes h) \<Longrightarrow>
      (\<And>m. m \<in> set (members h c) \<Longrightarrow> has_file h m = has_file h n) \<Longrightarrow> I h \<Longrightarrow> AddNode env c n h = Inr h' \<Longrightarrow> I h'"
    and unused_class: "heap_ok h \<Longrightarrow> members h c = [] \<Longrightarrow> I h \<Longrightarrow> I (delete_class c h)"
begin

lemma AddNodes_keeps:
  assumes "heap_ok h" and "c \<in> dom (h_classes h)" and "distinct ns"
    and "\<And>n. n \<in> set ns \<Longrightarrow> leaf h n \<and> class_of h n = None \<and> has_file h n = b"
    and "\<And>m. m \<in> set (members h c) \<Longrightarrow> has_file h m = b"
    and "I h" and "foldR (AddNode env c) ns h = Inr h'"
  shows "I h'"
  using assms
proof (induction ns arbitrary: h)
  case (Cons n ns)
  have n: "leaf h n" "n \<in> dom (h_nodes h)" "ready h n" "class_of h n = None" "has_file h n = b"
    using Cons.prems(4) [of n] leaf_ready by (auto simp: leaf_def)
  obtain g where g: "AddNode env c n h = Inr g" "heap_ok g" "same_tree h g"
    "class_of g = (class_of h)(n := Some c)" "members g = (members h)(c := members h c @ [n])"
    "dom (h_classes g) = dom (h_classes h)"
    using AddNode_ok [OF Cons.prems(1) n(2-4) Cons.prems(2)] by blast
  have kept: "I g"
    by (rule add_leaf [OF Cons.prems(1) n(1,4) Cons.prems(2) _ Cons.prems(6) g(1)]) (simp add: Cons.prems(5) n(5))
  note S = has_file_same_tree [OF g(3)] leaf_same_tree [OF g(3)]
  show ?case
  proof (rule Cons.IH [OF g(2)])
    show "c \<in> dom (h_classes g)" using Cons.prems(2) g(6) by blast
    show "distinct ns" using Cons.prems(3) by simp
    show "leaf g m \<and> class_of g m = None \<and> has_file g m = b" if "m \<in> set ns" for m
      using Cons.prems(3) Cons.prems(4) [of m] that unfolding S g(4) by auto
    show "has_file g m = b" if "m \<in> set (members g c)" for m
      using that Cons.prems(5) [of m] n(5) unfolding S g(5) by auto
    show "I g" by (rule kept)
    show "foldR (AddNode env c) ns g = Inr h'" using Cons.prems(7) g(1) by simp
  qed
qed simp

text \<open>A new class for leaves of one kind.\<close>

lemma new_group_keeps:
  assumes "heap_ok h" and "distinct ns" and "\<And>n. n \<in> set ns \<Longrightarrow> leaf h n \<and> class_of h n = None \<and> has_file h n = b"
    and "I h" and "new_EqClass h = (c, h1)" and "foldR (AddNode env c) ns h1 = Inr h'"
  shows "I h'"
proof -
  note m = new_EqClass_ok [OF assms(1), unfolded assms(5) fst_conv snd_conv]
  have kept: "I h1" using new_class [OF assms(1,4)] assms(5) by simp
  show ?thesis
  proof (rule AddNodes_keeps [OF m(1,6) assms(2) _ _ kept assms(6), where b = b])
    show "leaf h1 n \<and> class_of h1 n = None \<and> has_file h1 n = b" if "n \<in> set ns" for n
      using assms(3) [OF that] m(3) unfolding leaf_same_tree [OF m(2)] has_file_same_tree [OF m(2)] by simp
    show "has_file h1 n = b" if "n \<in> set (members h1 c)" for n using that m(4,11) by simp
  qed
qed

lemma classify_groups_keeps:
  assumes "heap_ok h" and "unclassified_leaves es h" and "\<And>e. e \<in> set es \<Longrightarrow> is_file h (snd e)"
    and "I h" and "classify_groups env es res h = Inr (cs, h')"
  shows "I h'"
  using assms
proof (induction "length es" arbitrary: es res h rule: less_induct)
  case less
  show ?case
  proof (cases es)
    case Nil
    then show ?thesis using less.prems(4,5) by simp
  next
    case (Cons e rest)
    obtain k n where e: "e = (k, n)" by (cases e)
    let ?P = "\<lambda>x. fst x = k"
    let ?grp = "e # takeWhile ?P rest" and ?rest = "dropWhile ?P rest"
    have es: "es = ?grp @ ?rest" using Cons by simp
    have key: "fst x = k" if "x \<in> set ?grp" for x using that e by (auto dest: set_takeWhileD)
    obtain c h0 where new: "new_EqClass h = (c, h0)" by (cases "new_EqClass h")
    have part: "unclassified_leaves ?grp h"
      by (rule unclassified_leaves_part [where ys = ?rest]) (use less.prems(2) es in simp)
    from classify_group [OF less.prems(1) this _ key] obtain h1 where
      h1: "foldR (\<lambda>e. AddNode env c (snd e)) ?grp h0 = Inr h1" "files_classified ?grp [c] h h1"
      unfolding new fst_conv snd_conv by blast
    have rest: "classify_groups env ?rest (res @ [c]) h1 = Inr (cs, h')"
      using less.prems(5) h1(1) new by (simp add: Cons e case_prod_unfold Let_def)
    have g: "grows h h1" by (rule files_classifiedD(1) [OF h1(2)])
    note S = growsD(2) [OF g]
    have "foldR (\<lambda>e. AddNode env c (snd e)) xs y = foldR (AddNode env c) (map snd xs) y" for xs :: "(Cksum \<times> nid) list" and y
      by (induction xs arbitrary: y) (auto intro: arg_cong [where f = "rbind _"])
    with h1(1) have run: "foldR (AddNode env c) (map snd ?grp) h0 = Inr h1" by simp
    have kept: "I h1"
    proof (rule new_group_keeps [OF less.prems(1) _ _ less.prems(4) new run, where b = True])
      show "distinct (map snd ?grp)" using part unfolding unclassified_leaves_def by blast
      show "leaf h n \<and> class_of h n = None \<and> has_file h n = True" if n: "n \<in> set (map snd ?grp)" for n
      proof -
        obtain x where x: "x \<in> set ?grp" "n = snd x" using n unfolding set_map by blast
        then have "x \<in> set es" using Cons by (auto dest: set_takeWhileD)
        then show ?thesis
          using x(1) part less.prems(3) [of x] has_file_rec [of h "snd x"] unfolding unclassified_leaves_def x(2) by auto
      qed
    qed
    have u: "unclassified_leaves ?rest h1"
      by (rule unclassified_leaves_rest [OF less.prems(2) [unfolded es] S files_classifiedD(6) [OF h1(2)]])
    have len: "length ?rest < length es" using Cons by (simp add: le_imp_less_Suc length_dropWhile_le)
    have files: "is_file h1 (snd x)" if "x \<in> set ?rest" for x
      using less.prems(3) [of x] Cons set_dropWhileD [OF that] unfolding is_file_same [OF S] by simp
    show ?thesis by (rule less.hyps [OF len growsD(1) [OF g] u files kept rest])
  qed
qed

lemma ClassifyEmptyDirs_keeps:
  assumes "heap_ok h" and "n \<in> dom (h_nodes h)" and "h_next_node h - n \<le> k"
    and "\<And>m. m \<in> set (nodes_below h n) \<Longrightarrow> is_empty_dir h m \<Longrightarrow> class_of h m = None"
    and "I h" and "ClassifyEmptyDirs env k n h = Inr (c, h')"
  shows "I h'"
proof -
  obtain d h1 where new: "new_EqClass h = (d, h1)" by (cases "new_EqClass h")
  have run: "foldR (AddNode env d) (filter (is_empty_dir h) (nodes_below h n)) h1 = Inr h'"
    using assms(6) ClassifyEmptyDirs_eq [OF assms(1-3) new] by (auto simp: res_simps)
  show ?thesis
  proof (rule new_group_keeps [OF assms(1) _ _ assms(5) new run, where b = False])
    show "distinct (filter (is_empty_dir h) (nodes_below h n))"
      using nodes_below_distinct [OF heap_okD(1) [OF assms(1)] assms(2)] by simp
    show "leaf h x \<and> class_of h x = None \<and> has_file h x = False"
      if "x \<in> set (filter (is_empty_dir h) (nodes_below h n))" for x
      using that assms(4) [of x] is_empty_dir_leaf empty_dir_no_file by auto
  qed
qed

lemma classify_leaves_keeps:
  assumes rep: "tree_rep P s A fs" and r: "tc_root s = Some r" and I0: "I (tc_heap s)"
    and run: "classify_leaves env s r = Inr (cs, h)"
  shows "I h"
proof -
  let ?h = "tc_heap s" and ?es = "env_sum_order env (tc_sum2node s)"
  obtain r' where r': "tc_root s = Some r'" "one_tree ?h r'" "heap_ok ?h" "class_of ?h = (\<lambda>_. None)"
    "h_classes ?h = Map.empty"
    using rep unfolding tree_rep_def by blast
  have one: "one_tree ?h r" using r r' by simp
  have es: "set ?es = set (tc_sum2node s)" using sum_order by (metis set_mset_mset)
  have un: "unclassified_leaves ?es ?h" by (rule unclassified_leaves_mset [OF tree_rep_leaves [OF rep] sum_order])
  obtain cs1 h1 c h2 where
    f: "ClassifyDuplicateFiles env ?es ?h = Inr (cs1, h1)" and
    d: "ClassifyEmptyDirs env (h_next_node ?h) r h1 = Inr (c, h2)" and
    h: "\<exists>ec. h_classes h2 c = Some ec \<and> h = (if \<not> ec_IsEmpty ec then h2 else delete_class c h2)"
    using run by (auto simp: classify_leaves_def res_simps split: if_splits)
  have F: "files_classified ?es cs1 ?h h1"
    using ClassifyDuplicateFiles_ok [OF r'(3) un sum_order_grouped] f by auto
  note g1 = files_classifiedD(1) [OF F]
  note ok1 = growsD(1) [OF g1] and s1 = growsD(2) [OF g1]
  have files: "is_file ?h (snd e)" if "e \<in> set ?es" for e using that es tree_rep_files [OF rep] by blast
  have w1: "I h1"
    using classify_groups_keeps [OF r'(3) un files I0] f unfolding ClassifyDuplicateFiles_def by blast
  have rd: "r \<in> dom (h_nodes h1)" using one same_treeD(3) [OF s1] unfolding one_tree_def by blast
  have k: "h_next_node h1 - r \<le> h_next_node ?h" using same_treeD(4) [OF s1] by simp
  have e: "class_of h1 m = None" if "is_empty_dir h1 m" for m
  proof -
    have "\<not> is_file ?h m" using file_not_empty_dir that is_empty_dir_same [OF s1] by blast
    then have "m \<notin> snd ` set ?es" using tree_rep_files [OF rep] es by blast
    with files_classifiedD(6) [OF F] r'(4) show ?thesis by simp
  qed
  have w2: "I h2" by (rule ClassifyEmptyDirs_keeps [OF ok1 rd k e w1 d])
  have ok2: "heap_ok h2"
    using ClassifyEmptyDirs_ok [OF ok1 rd k e] d growsD(1) by (auto simp: dirs_classified_def)
  from h obtain ec where ec: "h_classes h2 c = Some ec" "h = (if \<not> ec_IsEmpty ec then h2 else delete_class c h2)"
    by blast
  have "members h2 c = []" if "ec_IsEmpty ec" using that ec(1) by (simp add: members_def ec_IsEmpty_def)
  then show ?thesis using w2 unused_class [OF ok2] ec(2) by simp
qed

end

end
