(* ===== verification/Class_Weights.thy ===== *)
theory Class_Weights
  imports Leaf_Phase
begin

text \<open>
  The weights of equivalence classes during duplicate detection (src/src/file_tree.cpp,
  src/src/fuzzy_dedup.cpp). Empty directories, and directories of nothing else, weigh 0; all other
  nodes weigh at least 1, in spite of averages and rounding. So \<open>NodeDistance\<close> is 0 exactly for
  directories whose children with files have the same classes.
\<close>

section \<open>The invariant\<close>

definition weights_ok :: "heap \<Rightarrow> bool" where
  "weights_ok h \<longleftrightarrow>
     (\<forall>n c. class_of h n = Some c \<longrightarrow> (if has_file h n then 1 \<le> weight_of h c else weight_of h c = 0)) \<and>
     (\<forall>c. members h c = [] \<longrightarrow> weight_of h c = 0)"

text \<open>If sizes are the weights of files, no file is empty.\<close>

definition sizes_ok :: "dedup_env \<Rightarrow> heap \<Rightarrow> bool" where
  "sizes_ok env h \<longleftrightarrow> conf_use_size (env_conf env) \<longrightarrow>
     (\<forall>n nd. h_nodes h n = Some nd \<longrightarrow> nd_type nd = FILE \<longrightarrow> 1 \<le> nd_size nd)"

lemma sizes_ok_same_tree:
  assumes "same_tree h h'" and "sizes_ok env h"
  shows "sizes_ok env h'"
  using assms(2) same_tree_node [OF same_tree_sym [OF assms(1)]] unfolding sizes_ok_def by metis

lemma weights_okD:
  assumes "weights_ok h" and "class_of h n = Some c"
  shows "has_file h n \<Longrightarrow> 1 \<le> weight_of h c" and "\<not> has_file h n \<Longrightarrow> weight_of h c = 0"
    and "1 \<le> weight_of h c \<longleftrightarrow> has_file h n" and "weight_of h c = 0 \<or> 1 \<le> weight_of h c"
  using assms unfolding weights_ok_def by (fastforce split: if_splits)+

lemma weights_ok_views:
  assumes "same_tree h h'" and "class_of h' = class_of h" and "members h' = members h" and "weight_of h' = weight_of h"
  shows "weights_ok h' = weights_ok h"
  by (simp add: weights_ok_def assms has_file_same_tree [OF assms(1)])

section \<open>The weight of a node\<close>

lemma dbl_ge_1: "1 \<le> x \<Longrightarrow> 1 \<le> dbl x"
  using dbl_mono [of 1 x] by simp

lemma dbl_sum_ge_1: "\<forall>w \<in> set ws. 0 \<le> w \<Longrightarrow> 1 \<le> acc \<Longrightarrow> 1 \<le> dbl_sum ws acc"
  by (induction ws arbitrary: acc) (auto simp: dbl_ge_1)

lemma dbl_sum_some_1:
  "\<forall>w \<in> set ws. 0 \<le> w \<Longrightarrow> 0 \<le> acc \<Longrightarrow> \<exists>w \<in> set ws. 1 \<le> w \<Longrightarrow> 1 \<le> dbl_sum ws acc"
proof (induction ws arbitrary: acc)
  case (Cons w ws)
  show ?case
  proof (cases "1 \<le> w")
    case True
    then show ?thesis using Cons.prems dbl_sum_ge_1 [of ws "dbl (acc + w)"] by (simp add: dbl_ge_1)
  next
    case False
    then show ?thesis using Cons by (simp add: dbl_nonneg)
  qed
qed simp

lemma dbl_sum_0: "\<forall>w \<in> set ws. w = 0 \<Longrightarrow> dbl_sum ws 0 = 0"
  by (induction ws) simp_all

context unordered_env
begin

lemma node_weight_file:
  assumes "heap_ok h" and "n \<in> dom (h_nodes h)" and "ready h n" and "class_of h n = None"
    and "weights_ok h" and "sizes_ok env h"
  shows "if has_file h n then 1 \<le> node_weight env h n else node_weight env h n = 0"
proof -
  obtain nd where nd: "h_nodes h n = Some nd" using assms(2) by blast
  show ?thesis
  proof (cases "nd_type nd")
    case FILE
    then have "has_file h n" using nd has_file_rec [of h n] by (simp add: is_file_def)
    moreover have "1 \<le> dbl (of_int (nd_size nd))" if "conf_use_size (env_conf env)"
      using assms(6) nd FILE that by (intro dbl_ge_1) (auto simp: sizes_ok_def)
    ultimately show ?thesis using nd FILE assms(4) by (simp add: node_weight_def)
  next
    case DIR
    let ?cs = "env_class_order env (child_classes h n)"
    let ?ws = "map (\<lambda>c. weight_of h (the c)) ?cs"
    have w: "node_weight env h n = dbl_sum ?ws 0" using nd DIR assms(4) by (simp add: node_weight_def)
    have ws: "set ?ws = (\<lambda>m. weight_of h (the (class_of h m))) ` set (children_of h n)" by (simp add: image_image)
    have child: "weight_of h (the (class_of h m)) = 0 \<or> 1 \<le> weight_of h (the (class_of h m))"
      "1 \<le> weight_of h (the (class_of h m)) \<longleftrightarrow> has_file h m" if "m \<in> set (children_of h n)" for m
      using that assms(3) weights_okD(3,4) [OF assms(5), of m] unfolding ready_def by fastforce+
    have f: "has_file h n \<longleftrightarrow> (\<exists>m \<in> set (children_of h n). has_file h m)"
      using has_file_rec [of h n] nd DIR by (simp add: is_file_def)
    have nn: "\<forall>w \<in> set ?ws. 0 \<le> w" unfolding ws using classes_okD(4) [OF heap_okD(2) [OF assms(1)]] by blast
    show ?thesis
    proof (cases "has_file h n")
      case True
      then have "\<exists>w \<in> set ?ws. 1 \<le> w" unfolding ws using child(2) f by blast
      then show ?thesis unfolding w using dbl_sum_some_1 [OF nn] True by simp
    next
      case False
      then have "\<forall>w \<in> set ?ws. w = 0" unfolding ws using child f by blast
      then show ?thesis unfolding w using dbl_sum_0 False by simp
    qed
  qed
qed

end

section \<open>The weight of a class\<close>

lemma joined_weight_0: "weight_of h c = 0 \<Longrightarrow> joined_weight h c 0 = 0"
  by (simp add: joined_weight_def)

lemma joined_weight_ge_1:
  assumes "1 \<le> w" and "members h c \<noteq> [] \<Longrightarrow> 1 \<le> weight_of h c" and "Suc (length (members h c)) \<le> 2 ^ 53"
  shows "1 \<le> joined_weight h c w"
proof -
  let ?k = "length (members h c)"
  have k: "dbl (of_nat ?k) = of_nat ?k" "dbl (of_nat (Suc ?k)) = of_nat (Suc ?k)"
    by (rule ieee.rnd_nat, use assms(3) in simp)+
  have "of_nat ?k \<le> weight_of h c * of_nat ?k"
    using assms(2) mult_right_mono [of 1 "weight_of h c" "of_nat ?k"] by (cases "members h c = []") auto
  then have "of_nat ?k \<le> dbl (weight_of h c * of_nat ?k)" using dbl_mono k(1) by metis
  then have "of_nat (Suc ?k) \<le> dbl (weight_of h c * of_nat ?k) + w" using assms(1) by simp
  then have "of_nat (Suc ?k) \<le> dbl (dbl (weight_of h c * of_nat ?k) + w)" using dbl_mono k(2) by metis
  then have "1 \<le> dbl (dbl (weight_of h c * of_nat ?k) + w) / of_nat (Suc ?k)" by (simp add: le_divide_eq)
  then show ?thesis unfolding joined_weight_def k by (rule dbl_ge_1)
qed

lemma length_members:
  assumes "heap_ok h" and "n \<in> dom (h_nodes h)" and "class_of h n \<noteq> Some c"
  shows "Suc (length (members h c)) \<le> h_next_node h"
proof -
  note cls = classes_okD [OF heap_okD(2) [OF assms(1)]]
  have "insert n (set (members h c)) \<subseteq> {..<h_next_node h}"
    using cls(2) assms(2) class_of_dom tree_okD(1) [OF heap_okD(1) [OF assms(1)]] by blast
  then have "card (insert n (set (members h c))) \<le> h_next_node h"
    using card_mono [of "{..<h_next_node h}"] by simp
  moreover have "n \<notin> set (members h c)" using cls(2) assms(3) by blast
  ultimately show ?thesis using distinct_card [OF cls(3) [of c]] by simp
qed

context unordered_env
begin

text \<open>Adding a node to a class of nodes of its kind keeps the invariant.\<close>

lemma AddNode_weights:
  assumes "heap_ok h" and "n \<in> dom (h_nodes h)" and "ready h n" and "class_of h n = None"
    and "c \<in> dom (h_classes h)" and "weights_ok h" and "sizes_ok env h" and "h_next_node h \<le> 2 ^ 53"
    and "\<And>m. m \<in> set (members h c) \<Longrightarrow> has_file h m = has_file h n" and "AddNode env c n h = Inr h'"
  shows "weights_ok h'"
proof -
  from AddNode_ok [OF assms(1-5)] assms(10) have h': "same_tree h h'" "class_of h' = (class_of h)(n := Some c)"
    "members h' = (members h)(c := members h c @ [n])"
    "weight_of h' = (weight_of h)(c := joined_weight h c (node_weight env h n))" by auto
  note cls = classes_okD(2) [OF heap_okD(2) [OF assms(1)]]
  note w = node_weight_file [OF assms(1-4,6,7)]
  have jw: "if has_file h n then 1 \<le> joined_weight h c (node_weight env h n)
      else joined_weight h c (node_weight env h n) = 0"
  proof (cases "has_file h n")
    case True
    have "1 \<le> weight_of h c" if ne: "members h c \<noteq> []"
    proof -
      obtain m where m: "m \<in> set (members h c)" using ne by (meson last_in_set)
      then show ?thesis using weights_okD(1) [OF assms(6)] cls assms(9) [OF m] True by blast
    qed
    moreover have "Suc (length (members h c)) \<le> 2 ^ 53"
      using length_members [OF assms(1,2), of c] assms(4,8) by simp
    ultimately show ?thesis using joined_weight_ge_1 w True by simp
  next
    case False
    have "weight_of h c = 0"
    proof (cases "members h c")
      case (Cons m ms)
      then have "m \<in> set (members h c)" by simp
      then show ?thesis using weights_okD(2) [OF assms(6)] cls assms(9) False by blast
    qed (use assms(6) in \<open>simp add: weights_ok_def\<close>)
    then show ?thesis using joined_weight_0 w False by simp
  qed
  have "if has_file h m then 1 \<le> weight_of h' d else weight_of h' d = 0" if "class_of h' m = Some d" for m d
  proof (cases "d = c")
    case True
    have "has_file h m = has_file h n"
      using that cls [of m c] assms(9) True unfolding h'(2) by (cases "m = n") auto
    then show ?thesis using jw True by (simp add: h'(4))
  next
    case False
    then have "class_of h m = Some d" using that by (auto simp: h'(2) split: if_splits)
    then show ?thesis using assms(6) False by (simp add: weights_ok_def h'(4))
  qed
  moreover have "weight_of h' d = 0" if "members h' d = []" for d
    using that assms(6) by (auto simp: h'(3,4) weights_ok_def split: if_splits)
  ultimately show ?thesis by (simp add: weights_ok_def has_file_same_tree [OF h'(1)])
qed

end

section \<open>Distance 0\<close>

lemma dbl_pos: "0 < x \<Longrightarrow> 0 < dbl x"
  by (simp add: dbl_def round_pos_pos)

lemma u64_add_zero: "exact_u64 s \<Longrightarrow> u64_add_double s 0 = Inr t \<Longrightarrow> t = s"
  using ieee.rnd_idem [of "of_nat s"]
  by (auto simp: u64_add_double_def double_to_u64_def exact_u64_def u64_to_double_def split: if_splits)

lemma u64_add_ge_1:
  assumes "u64_add_double s w = Inr t" and "1 \<le> w"
  shows "1 \<le> t"
proof -
  have "1 \<le> dbl (u64_to_double s + w)"
    using assms(2) by (intro dbl_ge_1) (simp add: u64_to_double_def ieee.rnd_nonneg add_increasing)
  then have "1 \<le> \<lfloor>dbl (u64_to_double s + w)\<rfloor>" by (simp add: le_floor_iff)
  then have "nat 1 \<le> nat \<lfloor>dbl (u64_to_double s + w)\<rfloor>" by (rule nat_mono)
  moreover have "t = nat \<lfloor>dbl (u64_to_double s + w)\<rfloor>"
    using assms(1) by (auto simp: u64_add_double_def double_to_u64_def split: if_splits)
  ultimately show ?thesis by (simp only: nat_one_as_int)
qed

lemma acc_step_zero_one:
  assumes "acc_ok st" and "acc_step e st = Inr st'" and "fst e = 0 \<or> 1 \<le> fst e"
  shows "(fst e = 0 \<longrightarrow> st' = st) \<and> (1 \<le> fst e \<longrightarrow> 1 \<le> fst st' \<and> (snd e \<longrightarrow> 1 \<le> snd st')) \<and>
    (\<not> snd e \<longrightarrow> snd st' = snd st) \<and> (snd e \<longrightarrow> fst st = snd st \<longrightarrow> fst st' = snd st')"
proof -
  obtain t where t: "u64_add_double (fst st) (fst e) = Inr t"
    "(if snd e then rbind (u64_add_double (snd st) (fst e)) (\<lambda>d. Inr (t, d)) else Inr (t, snd st)) = Inr st'"
    using assms(2) by (auto simp: acc_step_def res_simps)
  have ex: "exact_u64 (fst st)" "exact_u64 (snd st)" using assms(1) by (simp_all add: acc_ok_def)
  show ?thesis
  proof (cases "snd e")
    case True
    then obtain d where d: "u64_add_double (snd st) (fst e) = Inr d" "st' = (t, d)"
      using t(2) by (auto simp: res_simps)
    show ?thesis
      using True d t(1) u64_add_zero [OF ex(1)] u64_add_zero [OF ex(2)] u64_add_ge_1 [OF t(1)] u64_add_ge_1 [OF d(1)]
      by (auto simp: prod_eq_iff)
  next
    case False
    then have "st' = (t, snd st)" using t(2) by simp
    then show ?thesis using False t(1) u64_add_zero [OF ex(1)] u64_add_ge_1 [OF t(1)] by (auto simp: prod_eq_iff)
  qed
qed

lemma accumulate_zero_one:
  assumes "acc_ok st" and "foldR acc_step es st = Inr st'" and "\<forall>e \<in> set es. fst e = 0 \<or> 1 \<le> fst e"
  shows "(fst st' = 0 \<longleftrightarrow> fst st = 0 \<and> (\<forall>e \<in> set es. fst e = 0)) \<and>
    (snd st' = 0 \<longleftrightarrow> snd st = 0 \<and> (\<forall>e \<in> set es. snd e \<longrightarrow> fst e = 0)) \<and>
    (fst st = snd st \<longrightarrow> (\<forall>e \<in> set es. \<not> snd e \<longrightarrow> fst e = 0) \<longrightarrow> fst st' = snd st')"
  using assms
proof (induction es arbitrary: st)
  case (Cons e es)
  from Cons.prems(2) obtain t where t: "acc_step e st = Inr t" "foldR acc_step es t = Inr st'"
    by (auto simp: res_simps)
  have e: "fst e = 0 \<or> 1 \<le> fst e" using Cons.prems(3) by simp
  then have "0 \<le> fst e" by auto
  then have ok: "acc_ok t" using acc_step_ok [OF Cons.prems(1)] t(1) by fastforce
  note step = acc_step_zero_one [OF Cons.prems(1) t(1) e]
  have mono: "fst st \<le> fst t" "snd st \<le> snd t"
    using t(1) \<open>0 \<le> fst e\<close> Cons.prems(1) u64_add_double_ge
    by (auto simp: acc_step_def acc_ok_def res_simps split: if_splits)
  from Cons.IH [OF ok t(2)] Cons.prems(3) step e mono show ?case by (cases "fst e = 0") auto
qed simp

text \<open>The classes of the children with files.\<close>

definition file_classes :: "heap \<Rightarrow> nid \<Rightarrow> cid set" where
  "file_classes h n = {c. \<exists>m \<in> set (children_of h n). has_file h m \<and> class_of h m = Some c}"

lemma file_classes_below: "file_classes h n \<subseteq> classes_below h n"
  by (auto simp: file_classes_def classes_below_def)

lemma file_classes_weight:
  assumes "weights_ok h" and "c \<in> classes_below h n"
  shows "c \<in> file_classes h n \<longleftrightarrow> 1 \<le> weight_of h c" and "weight_of h c = 0 \<or> 1 \<le> weight_of h c"
proof -
  from assms(2) obtain m where m: "m \<in> set (children_of h n)" "class_of h m = Some c" by (auto simp: classes_below_def)
  show "weight_of h c = 0 \<or> 1 \<le> weight_of h c" by (rule weights_okD(4) [OF assms(1) m(2)])
  show "c \<in> file_classes h n \<longleftrightarrow> 1 \<le> weight_of h c"
    using m weights_okD(3) [OF assms(1)] unfolding file_classes_def by blast
qed

lemma file_classes_has_file:
  assumes "ready h n" and "children_of h n \<noteq> []" and "tree_ok h"
  shows "file_classes h n \<noteq> {} \<longleftrightarrow> has_file h n"
proof -
  have "\<not> is_file h n" using file_leaf [OF assms(3), of n] assms(2) by (auto simp: leaf_def)
  then have "has_file h n \<longleftrightarrow> (\<exists>m \<in> set (children_of h n). has_file h m)" using has_file_rec [of h n] by simp
  also have "\<dots> \<longleftrightarrow> file_classes h n \<noteq> {}" using assms(1) unfolding file_classes_def ready_def by blast
  finally show ?thesis ..
qed

text \<open>The quotient of the accumulators.\<close>

lemma fraction_result_Inr:
  "fraction_result st = Inr d \<Longrightarrow> fst st \<noteq> 0 \<Longrightarrow> d = dbl (u64_to_double (snd st) / u64_to_double (fst st))"
  by (auto simp: fraction_result_def rassert_def split: if_splits)

lemma fraction_result_0:
  assumes "acc_ok st" and "fraction_result st = Inr d"
  shows "d = 0 \<longleftrightarrow> snd st = 0"
proof (cases "snd st = 0")
  case True
  then show ?thesis using assms(2) fraction_result_ok [OF assms(1)] by auto
next
  case False
  then have "0 < snd st" "0 < fst st" using assms(1) by (auto simp: acc_ok_def)
  then have "0 < dbl (u64_to_double (snd st) / u64_to_double (fst st))"
    unfolding u64_to_double_def by (intro dbl_pos divide_pos_pos) simp_all
  then show ?thesis using False fraction_result_Inr [OF assms(2)] \<open>0 < fst st\<close> by simp
qed

lemma fraction_result_1:
  assumes "fraction_result st = Inr d" and "fst st \<noteq> 0" and "fst st = snd st"
  shows "d = 1"
proof -
  have "0 < u64_to_double (fst st)" unfolding u64_to_double_def using assms(2) by (intro dbl_pos) simp
  then show ?thesis using fraction_result_Inr [OF assms(1,2)] assms(3) by simp
qed

context unordered_env
begin

text \<open>The entries of \<open>NodeDistance\<close>: the classes below either node, marked if below only one.\<close>

lemma entries_below:
  assumes "ready h n1" and "ready h n2"
  shows "set (map (entry_weight h) (dist_entries env h n1 n2)) =
    (\<lambda>c. (weight_of h c, \<not> (c \<in> classes_below h n1 \<and> c \<in> classes_below h n2))) ` (classes_below h n1 \<union> classes_below h n2)"
proof -
  let ?b1 = "classes_below h n1" and ?b2 = "classes_below h n2"
  have "set (dist_entries env h n1 n2) = (\<lambda>c. (Some c, c \<notin> ?b2)) ` ?b1 \<union> (\<lambda>c. (Some c, True)) ` (?b2 - ?b1)"
    unfolding set_dist_entries Some_classes_below [OF assms(1)] Some_classes_below [OF assms(2)] by auto
  then have "set (map (entry_weight h) (dist_entries env h n1 n2)) =
      (\<lambda>c. (weight_of h c, c \<notin> ?b2)) ` ?b1 \<union> (\<lambda>c. (weight_of h c, True)) ` (?b2 - ?b1)"
    unfolding set_map by (simp add: image_Un image_image entry_weight_def)
  also have "\<dots> = (\<lambda>c. (weight_of h c, \<not> (c \<in> ?b1 \<and> c \<in> ?b2))) ` (?b1 \<union> ?b2)"
    unfolding Un_Diff_cancel [of ?b1 ?b2, symmetric] image_Un by (intro arg_cong2 [where f = union] image_cong) auto
  finally show ?thesis .
qed

lemma distance_zero_one:
  assumes "heap_ok h" and "comparable h n1 n2" and "weights_ok h" and "NodeDistance env h n1 n2 = Inr d"
  shows "d = 0 \<longleftrightarrow> file_classes h n1 = file_classes h n2"
    and "file_classes h n1 = {} \<Longrightarrow> file_classes h n2 \<noteq> {} \<Longrightarrow> d = 1"
    and "file_classes h n2 = {} \<Longrightarrow> file_classes h n1 \<noteq> {} \<Longrightarrow> d = 1"
proof -
  let ?es = "map (entry_weight h) (dist_entries env h n1 n2)"
  let ?B = "classes_below h n1 \<union> classes_below h n2"
  from NodeDistance_Inr [OF assms(1,2,4)] obtain st where
    st: "foldR acc_step ?es (0, 0) = Inr st" "acc_ok st" "fraction_result st = Inr d" .
  have r: "ready h n1" "ready h n2" using assms(2) by (simp_all add: comparable_def)
  note es = entries_below [OF r]
  note W = file_classes_weight [OF assms(3)]
  have "\<forall>e \<in> set ?es. fst e = 0 \<or> 1 \<le> fst e" unfolding es using W(2) by auto
  from accumulate_zero_one [OF _ st(1) this] have acc:
    "fst st = 0 \<longleftrightarrow> (\<forall>e \<in> set ?es. fst e = 0)" "snd st = 0 \<longleftrightarrow> (\<forall>e \<in> set ?es. snd e \<longrightarrow> fst e = 0)"
    "(\<forall>e \<in> set ?es. \<not> snd e \<longrightarrow> fst e = 0) \<Longrightarrow> fst st = snd st"
    by (simp_all add: acc_ok_def exact_u64_small)
  have F: "c \<in> file_classes h n \<longleftrightarrow> c \<in> classes_below h n \<and> weight_of h c \<noteq> 0" for c n
    using W [of c n] file_classes_below [of h n] by (cases "c \<in> classes_below h n") auto
  have tot: "fst st = 0 \<longleftrightarrow> file_classes h n1 = {} \<and> file_classes h n2 = {}"
    unfolding acc(1) es using F by auto
  have sd: "snd st = 0 \<longleftrightarrow> file_classes h n1 = file_classes h n2"
    unfolding acc(2) es set_eq_iff F by auto
  show "d = 0 \<longleftrightarrow> file_classes h n1 = file_classes h n2" using fraction_result_0 [OF st(2,3)] sd by simp
  have all_diff: "d = 1" if F': "file_classes h n1 = {} \<or> file_classes h n2 = {}" "file_classes h n1 \<noteq> file_classes h n2"
  proof (rule fraction_result_1 [OF st(3)])
    show "fst st \<noteq> 0" using that tot by auto
    have "\<forall>e \<in> set ?es. \<not> snd e \<longrightarrow> fst e = 0" unfolding es using that(1) F by auto
    then show "fst st = snd st" by (rule acc(3))
  qed
  show "d = 1" if "file_classes h n1 = {}" "file_classes h n2 \<noteq> {}" using that by (intro all_diff) auto
  show "d = 1" if "file_classes h n2 = {}" "file_classes h n1 \<noteq> {}" using that by (intro all_diff) auto
qed

end

section \<open>The leaves\<close>

lemma new_class_weights:
  assumes "heap_ok h" and "new_EqClass h = (c, h1)" and "weights_ok h"
  shows "weights_ok h1"
proof -
  note m = new_EqClass_ok [OF assms(1), unfolded assms(2) fst_conv snd_conv]
  show ?thesis using m assms(3) by (auto simp: weights_ok_def has_file_same_tree [OF m(2)])
qed

lemma delete_class_weights:
  assumes "heap_ok h" and "members h c = []" and "weights_ok h"
  shows "weights_ok (delete_class c h)"
proof -
  have "weight_of h c = 0" using assms(2,3) by (simp add: weights_ok_def)
  then have "weight_of (delete_class c h) = weight_of h"
    by (auto simp: weight_of_def delete_class_def fun_eq_iff split: option.splits)
  then show ?thesis using weights_ok_views delete_class_ok [OF assms(1,2)] assms(3) by metis
qed

text \<open>The classification of the leaves keeps the invariant.\<close>

definition weights_kept :: "dedup_env \<Rightarrow> heap \<Rightarrow> bool" where
  "weights_kept env h \<longleftrightarrow> weights_ok h \<and> sizes_ok env h \<and> h_next_node h \<le> 2 ^ 53"

sublocale unordered_env \<subseteq> weights: leaf_invariant env "weights_kept env"
proof
  fix h :: heap assume h: "heap_ok h" "weights_kept env h"
  obtain c h1 where new: "new_EqClass h = (c, h1)" by (cases "new_EqClass h")
  note m = new_EqClass_ok [OF h(1), unfolded new fst_conv snd_conv]
  show "weights_kept env (snd (new_EqClass h))"
    using h(2) new_class_weights [OF h(1) new] sizes_ok_same_tree [OF m(2)] same_treeD(4) [OF m(2)]
    unfolding weights_kept_def new by simp
next
  fix h n c h' assume h: "heap_ok h" "leaf h n" "class_of h n = None" "c \<in> dom (h_classes h)"
    "\<And>m. m \<in> set (members h c) \<Longrightarrow> has_file h m = has_file h n" "weights_kept env h" "AddNode env c n h = Inr h'"
  have n: "n \<in> dom (h_nodes h)" "ready h n" using h(2) leaf_ready by (simp_all add: leaf_def)
  have k: "weights_ok h" "sizes_ok env h" "h_next_node h \<le> 2 ^ 53" using h(6) by (simp_all add: weights_kept_def)
  note S = AddNode_same_tree [OF h(7)]
  show "weights_kept env h'"
    using AddNode_weights [OF h(1) n h(3,4) k h(5,7)] sizes_ok_same_tree [OF S k(2)] same_treeD(4) [OF S] k(3)
    unfolding weights_kept_def by simp
next
  fix h :: heap and c assume h: "heap_ok h" "members h c = []" "weights_kept env h"
  note S = delete_class_ok(2) [OF h(1,2)]
  show "weights_kept env (delete_class c h)"
    using h(3) delete_class_weights [OF h(1,2)] sizes_ok_same_tree [OF S] same_treeD(4) [OF S]
    unfolding weights_kept_def by simp
qed

section \<open>Directories with the same files below\<close>

text \<open>Evaluated directories whose children with files have the same classes have one class.\<close>

definition dirs_found :: "heap \<Rightarrow> bool" where
  "dirs_found h \<longleftrightarrow>
     (\<forall>n m. class_of h n \<noteq> None \<longrightarrow> class_of h m \<noteq> None \<longrightarrow> file_classes h n \<noteq> {} \<longrightarrow>
       file_classes h n = file_classes h m \<longrightarrow> class_of h n = class_of h m)"

lemma dirs_foundD:
  "dirs_found h \<Longrightarrow> class_of h n \<noteq> None \<Longrightarrow> class_of h m \<noteq> None \<Longrightarrow> file_classes h n \<noteq> {} \<Longrightarrow>
    file_classes h n = file_classes h m \<Longrightarrow> class_of h n = class_of h m"
  unfolding dirs_found_def by blast

lemma dirs_found_leaves: "(\<And>n. class_of h n \<noteq> None \<Longrightarrow> leaf h n) \<Longrightarrow> dirs_found h"
  by (auto simp: dirs_found_def leaf_def file_classes_def)

text \<open>A step for a node leaves the classes below evaluated nodes, and below the node, as they are.\<close>

lemma file_classes_step:
  assumes "same_tree h h'" and "class_of h' = (class_of h)(n := Some c)" and "class_of h n = None" and "ready h x"
  shows "file_classes h' x = file_classes h x"
proof -
  have "n \<notin> set (children_of h x)" using assms(3,4) unfolding ready_def by blast
  then show ?thesis
    unfolding file_classes_def has_file_same_tree [OF assms(1)] same_treeD(1) [OF assms(1)] assms(2) by auto
qed

lemma dirs_found_step:
  assumes "heap_ok h" and "same_tree h h'" and "class_of h' = (class_of h)(n := Some c)"
    and "class_of h n = None" and "ready h n" and "dirs_found h"
    and "\<And>m. class_of h m \<noteq> None \<Longrightarrow> file_classes h n \<noteq> {} \<Longrightarrow> file_classes h n = file_classes h m \<Longrightarrow>
      class_of h m = Some c"
  shows "dirs_found h'"
proof -
  have F: "file_classes h' x = file_classes h x" if "class_of h' x \<noteq> None" for x
  proof (rule file_classes_step [OF assms(2,3,4)])
    show "ready h x"
    proof (cases "x = n")
      case False
      then have "class_of h x \<noteq> None" using that by (simp add: assms(3))
      then show ?thesis by (rule evaluated_ready [OF heap_okD(3) [OF assms(1)]])
    qed (simp add: assms(5))
  qed
  have "class_of h' x = class_of h' y"
    if "class_of h' x \<noteq> None" "class_of h' y \<noteq> None" "file_classes h x \<noteq> {}" "file_classes h x = file_classes h y" for x y
  proof -
    have y: "y \<noteq> n \<Longrightarrow> class_of h y \<noteq> None" and x: "x \<noteq> n \<Longrightarrow> class_of h x \<noteq> None"
      using that(1,2) by (simp_all add: assms(3))
    consider "x = y" | "x = n" "y \<noteq> n" | "x \<noteq> n" "y = n" | "x \<noteq> n" "y \<noteq> n" by blast
    then show ?thesis
    proof cases
      case 2
      have "class_of h y = Some c"
        by (rule assms(7) [OF y [OF 2(2)] that(3) [unfolded 2(1)] that(4) [unfolded 2(1)]])
      then show ?thesis using 2 by (simp add: assms(3))
    next
      case 3
      have "class_of h x = Some c"
        by (rule assms(7) [OF x [OF 3(1)] _ that(4) [unfolded 3(2), symmetric]]) (use that(3,4) 3(2) in argo)
      then show ?thesis using 3 by (simp add: assms(3))
    next
      case 4
      then show ?thesis using dirs_foundD [OF assms(6) x [OF 4(1)] y [OF 4(2)] that(3,4)] by (simp add: assms(3))
    qed simp
  qed
  then show ?thesis unfolding dirs_found_def by (metis F)
qed

context unordered_env
begin

lemma same_files_candidate:
  assumes "heap_ok h" and "n \<in> unevaluated h" and "ready h n" and "class_of h m \<noteq> None"
    and "file_classes h n \<noteq> {}" and "file_classes h n = file_classes h m"
  shows "m \<in> possible_equivalents h n"
proof -
  have "m \<noteq> n" using assms(2,4) by (auto simp: unevaluated_def)
  moreover have "file_classes h n \<subseteq> classes_below h m \<inter> classes_below h n"
    using file_classes_below [of h n] file_classes_below [of h m, folded assms(6)] by (rule Int_greatest [rotated])
  then have "classes_below h m \<inter> classes_below h n \<noteq> {}" using assms(5) by blast
  ultimately show ?thesis using assms(4) unfolding possible_equivalents_def by simp
qed

lemma same_files_distance:
  assumes "heap_ok h" and "n \<in> unevaluated h" and "ready h n" and "class_of h m \<noteq> None" and "weights_ok h"
    and "file_classes h n \<noteq> {}" and "file_classes h n = file_classes h m" and "NodeDistance env h n m = Inr e"
  shows "e = 0"
proof -
  have "n \<in> dom (h_nodes h)" using assms(2) unfolding unevaluated_def by blast
  then have "comparable h n m"
    using possible_equivalents_candidates [OF assms(1) _ assms(3) same_files_candidate [OF assms(1-4,6,7)]]
    by (simp add: candidate_def)
  then show ?thesis using distance_zero_one(1) [OF assms(1) _ assms(5,8)] assms(7) by simp
qed

text \<open>A node near another one has files exactly if the other one has.\<close>

lemma near_has_file:
  assumes "heap_ok h" and "n \<in> unevaluated h" and "ready h n" and "weights_ok h"
    and "p \<in> possible_equivalents h n" and "NodeDistance env h n p = Inr d" and "d < 1"
  shows "has_file h p = has_file h n"
proof -
  have n: "n \<in> dom (h_nodes h)" using assms(2) unfolding unevaluated_def by blast
  have c: "comparable h n p"
    using possible_equivalents_candidates [OF assms(1) n assms(3,5)] by (simp add: candidate_def)
  have ch: "children_of h p \<noteq> []" "children_of h n \<noteq> []"
    using assms(5) by (auto simp: possible_equivalents_def classes_below_def)
  have r: "ready h p" using c by (simp add: comparable_def)
  note H = file_classes_has_file [OF r ch(1) heap_okD(1) [OF assms(1)]]
    file_classes_has_file [OF assms(3) ch(2) heap_okD(1) [OF assms(1)]]
  have "file_classes h n = {} \<longleftrightarrow> file_classes h p = {}"
    using distance_zero_one(2,3) [OF assms(1) c assms(4,6)] assms(7) by (metis less_irrefl)
  then show ?thesis using H by blast
qed

end

section \<open>The invariant of the propagation\<close>

context unordered_env
begin

text \<open>The class of a closest node holds every node with the same files below.\<close>

lemma closest_class_same_files:
  assumes "heap_ok h" and "n \<in> unevaluated h" and "ready h n" and "weights_ok h" and "dirs_found h"
    and p: "closest env h n (possible_equivalents h n) p d" "class_of h p = Some c"
    and m: "class_of h m \<noteq> None" "file_classes h n \<noteq> {}" "file_classes h n = file_classes h m"
  shows "class_of h m = Some c"
proof -
  have n: "n \<in> dom (h_nodes h)" using assms(2) unfolding unevaluated_def by blast
  have dp: "p \<in> possible_equivalents h n" "NodeDistance env h n p = Inr d" using p(1) unfolding closest_def by blast+
  obtain e where e: "NodeDistance env h n m = Inr e" "d \<le> e"
    using p(1) same_files_candidate [OF assms(1-3) m] unfolding closest_def by blast
  have "e = 0" by (rule same_files_distance [OF assms(1-3) m(1) assms(4) m(2,3) e(1)])
  have cp: "comparable h n p"
    using possible_equivalents_candidates [OF assms(1) n assms(3) dp(1)] by (simp add: candidate_def)
  have "d = 0" using \<open>e = 0\<close> e(2) NodeDistance_range [OF assms(1) cp] dp(2) by auto
  then have "file_classes h p = file_classes h m"
    using distance_zero_one(1) [OF assms(1) cp assms(4) dp(2)] m(3) by simp
  then have "class_of h p = class_of h m"
    using dirs_foundD [OF assms(5) _ m(1), of p] p(2) m(2,3) by simp
  then show ?thesis using p(2) by simp
qed

text \<open>The class of a near node is a class of nodes of the same kind.\<close>

lemma near_class_kind:
  assumes "heap_ok h" and "n \<in> unevaluated h" and "ready h n" and "weights_ok h"
    and "closest env h n (possible_equivalents h n) p d" and "class_of h p = Some c" and "d < 1"
    and "m \<in> set (members h c)"
  shows "has_file h m = has_file h n"
proof -
  have "has_file h p = has_file h n"
    using assms(5) by (intro near_has_file [OF assms(1-4) _ _ assms(7)]) (simp_all add: closest_def)
  moreover have "class_of h m = Some c" using assms(8) classes_okD(2) [OF heap_okD(2) [OF assms(1)]] by blast
  ultimately show ?thesis using weights_okD(3) [OF assms(4)] assms(6) by metis
qed

lemma prop_step_found:
  assumes "prop_step env n (h, cs) (h', cs')" and "heap_ok h" and "listed cs h"
    and "weights_ok h" and "dirs_found h" and "sizes_ok env h" and "h_next_node h \<le> 2 ^ 53"
    and "0 < tolerance env" and "tolerance env \<le> 1"
  shows "weights_ok h' \<and> dirs_found h'"
  using assms(1)
proof (cases rule: prop_step.cases)
  case (join p d c)
  note ok = assms(2)
  have n: "n \<in> dom (h_nodes h)" "class_of h n = None" using join(2) unfolding unevaluated_def by blast+
  have c: "c \<in> dom (h_classes h)" by (rule class_of_valid [OF heap_okD(2) [OF ok] join(6)])
  have g: "same_tree h h'" "class_of h' = (class_of h)(n := Some c)"
    using AddNode_ok [OF ok n(1) join(3) n(2) c] join(7) by auto
  have "d < 1" using join(5) assms(9) by simp
  note kind = near_class_kind [OF ok join(2,3) assms(4) join(4,6) this]
  have w: "weights_ok h'"
    by (rule AddNode_weights [OF ok n(1) join(3) n(2) c assms(4,6,7) kind join(7)])
  from w dirs_found_step [OF ok g n(2) join(3) assms(5)
      closest_class_same_files [OF ok join(2,3) assms(4,5) join(4,6)]] show ?thesis ..
next
  case (fresh c h1)
  note ok = assms(2)
  have n: "n \<in> dom (h_nodes h)" "class_of h n = None" using fresh(2) unfolding unevaluated_def by blast+
  note m = new_EqClass_ok [OF ok, unfolded fresh(5) fst_conv snd_conv]
  have n1: "n \<in> dom (h_nodes h1)" "ready h1 n" "class_of h1 n = None"
    using n same_treeD(3) [OF m(2)] ready_same_tree [OF m(2,3)] m(3) fresh(3) by simp_all
  have g: "same_tree h1 h'" "class_of h' = (class_of h1)(n := Some c)"
    using AddNode_ok [OF m(1) n1 m(6)] fresh(6) by auto
  have b: "h_next_node h1 \<le> 2 ^ 53" using assms(7) same_treeD(4) [OF m(2)] by simp
  have w: "weights_ok h'"
    by (rule AddNode_weights [OF m(1) n1 m(6) new_class_weights [OF ok fresh(5) assms(4)]
          sizes_ok_same_tree [OF m(2) assms(6)] b _ fresh(6)]) (simp add: m(4,11))
  have "class_of h x = Some c"
    if x: "class_of h x \<noteq> None" "file_classes h n \<noteq> {}" "file_classes h n = file_classes h x" for x
  proof -
    obtain e where e: "NodeDistance env h n x = Inr e" "tolerance env \<le> e"
      using fresh(4) [OF same_files_candidate [OF ok fresh(2,3) x]] by blast
    have "e = 0" by (rule same_files_distance [OF ok fresh(2,3) x(1) assms(4) x(2,3) e(1)])
    with e(2) assms(8) show ?thesis by simp
  qed
  from w dirs_found_step [OF ok same_tree_trans [OF m(2) g(1)] g(2) [unfolded m(3)] n(2) fresh(3) assms(5) this]
  show ?thesis ..
qed

lemma run_found:
  assumes "run env s s'" and "heap_ok (fst s)" and "listed (snd s) (fst s)"
    and "weights_ok (fst s)" and "dirs_found (fst s)" and "sizes_ok env (fst s)" and "h_next_node (fst s) \<le> 2 ^ 53"
    and "0 < tolerance env" and "tolerance env \<le> 1"
  shows "dirs_found (fst s')"
proof -
  let ?I = "\<lambda>h. weights_ok h \<and> dirs_found h \<and> sizes_ok env h \<and> h_next_node h \<le> 2 ^ 53"
  have step: "?I h'" if st: "prop_step env n (h, cs) (h', cs')" and h: "heap_ok h" "listed cs h" and I: "?I h" for n h cs h' cs'
  proof -
    have S: "same_tree h h'" using prop_step_effect [OF st h] growsD(2) by blast
    show ?thesis
      using prop_step_found [OF st h] I assms(8,9) sizes_ok_same_tree [OF S] same_treeD(4) [OF S] by simp
  qed
  have "heap_ok (fst s') \<and> listed (snd s') (fst s') \<and> ?I (fst s')"
  proof (rule run_invariant [OF assms(1-3), where I = ?I])
    show "?I (fst s)" using assms(4-7) by blast
  qed (rule step)
  then show ?thesis by blast
qed

end

end
