(* ===== verification/Weight_Bounds.thy ===== *)
theory Weight_Bounds
  imports Class_Weights Run_Properties
begin

text \<open>
  When the sums of weights stay in range (src/src/file_tree.cpp, src/src/fuzzy_dedup.cpp). A
  directory weighs at most the number of its children times the heaviest class so far, so weights
  grow at most by the product of the numbers of children; below 2^53 all sums are formed without
  overflow and duplicate detection has a result. The properties of the propagation and of \<open>FuzzyDedup\<close>
  on a database stand here too, since their instances need that nothing overflows.
\<close>

section \<open>Sums below 2^53\<close>

lemma dbl_le_nat:
  assumes "x \<le> of_nat n" and "n \<le> 2 ^ 53"
  shows "dbl x \<le> of_nat n"
  using dbl_mono [OF assms(1)] ieee.rnd_nat [OF assms(2)] by simp

lemma u64_add_bound:
  assumes "s \<le> a" and "0 \<le> w" and "w \<le> of_nat b" and "a + b \<le> 2 ^ 53"
  shows "\<exists>t. u64_add_double s w = Inr t \<and> t \<le> a + b"
proof -
  have s: "u64_to_double s = of_nat s" using assms(1,4) exact_u64_small [of s] by (simp add: exact_u64_def)
  let ?x = "dbl (of_nat s + w)"
  have "of_nat s + w \<le> of_nat (a + b)" using assms(1,3) by (simp add: add_mono)
  then have le: "?x \<le> of_nat (a + b)" using assms(4) by (rule dbl_le_nat)
  have ge: "0 \<le> ?x" using assms(2) by (intro ieee.rnd_nonneg) simp
  have "(of_nat (a + b) :: rat) \<le> of_nat (2 ^ 53)" using assms(4) by (simp only: of_nat_le_iff)
  then have "?x < 2 ^ 64" using le by simp
  then have "u64_add_double s w = Inr (nat \<lfloor>?x\<rfloor>)" using ge s by (simp add: u64_add_double_def double_to_u64_def)
  moreover have "\<lfloor>?x\<rfloor> \<le> \<lfloor>of_nat (a + b) :: rat\<rfloor>" using le by (rule floor_mono)
  then have "nat \<lfloor>?x\<rfloor> \<le> a + b" by simp
  ultimately show ?thesis by blast
qed

lemma dbl_sum_le:
  "\<forall>w \<in> set ws. w \<le> of_nat b \<Longrightarrow> acc \<le> of_nat a \<Longrightarrow> a + length ws * b \<le> 2 ^ 53 \<Longrightarrow>
    dbl_sum ws acc \<le> of_nat (a + length ws * b)"
proof (induction ws arbitrary: a acc)
  case (Cons w ws)
  have "acc + w \<le> of_nat (a + b)" using Cons.prems(1,2) by (simp add: add_mono)
  then have "dbl (acc + w) \<le> of_nat (a + b)" using Cons.prems(3) by (intro dbl_le_nat) simp_all
  from Cons.IH [OF _ this] Cons.prems(1,3) show ?case by (simp add: algebra_simps)
qed simp

lemma joined_weight_le:
  assumes "weight_of h c \<le> of_nat b" and "w \<le> of_nat b" and "1 \<le> b" and "b * Suc (length (members h c)) \<le> 2 ^ 53"
  shows "joined_weight h c w \<le> of_nat b"
proof -
  let ?k = "length (members h c)"
  have "Suc ?k \<le> b * Suc ?k" using mult_le_mono1 [OF assms(3), of "Suc ?k"] by (simp only: mult_1)
  then have k: "Suc ?k \<le> 2 ^ 53" "b * ?k \<le> 2 ^ 53" using assms(4) by simp_all
  then have d: "dbl (of_nat ?k) = of_nat ?k" "dbl (of_nat (Suc ?k)) = of_nat (Suc ?k)"
    by (intro ieee.rnd_nat; simp)+
  have "weight_of h c * of_nat ?k \<le> of_nat (b * ?k)" using assms(1) by (simp add: mult_right_mono)
  then have "dbl (weight_of h c * of_nat ?k) \<le> of_nat (b * ?k)" using k(2) by (rule dbl_le_nat)
  then have "dbl (weight_of h c * of_nat ?k) + w \<le> of_nat (b * Suc ?k)" using assms(2) by (simp add: add_mono)
  then have "dbl (dbl (weight_of h c * of_nat ?k) + w) \<le> of_nat (b * Suc ?k)" using assms(4) by (rule dbl_le_nat)
  then have "dbl (dbl (weight_of h c * of_nat ?k) + w) / of_nat (Suc ?k) \<le> of_nat b"
    by (simp add: divide_le_eq del: of_nat_Suc mult_Suc_right)
  moreover have "b \<le> 2 ^ 53" using assms(4) by simp
  ultimately show ?thesis unfolding joined_weight_def d by (rule dbl_le_nat)
qed

text \<open>The accumulators of \<open>NodeDistance\<close>.\<close>

lemma accumulate_defined:
  "\<forall>e \<in> set es. 0 \<le> fst e \<and> fst e \<le> of_nat b \<Longrightarrow> fst st \<le> a \<Longrightarrow> snd st \<le> a \<Longrightarrow> a + length es * b \<le> 2 ^ 53 \<Longrightarrow>
    \<exists>st'. foldR acc_step es st = Inr st'"
proof (induction es arbitrary: a st)
  case (Cons e es)
  have e: "0 \<le> fst e" "fst e \<le> of_nat b" "a + b \<le> 2 ^ 53" using Cons.prems(1,4) by simp_all
  obtain t where t: "u64_add_double (fst st) (fst e) = Inr t" "t \<le> a + b" using u64_add_bound [OF Cons.prems(2) e] by blast
  obtain d where d: "u64_add_double (snd st) (fst e) = Inr d" "d \<le> a + b" using u64_add_bound [OF Cons.prems(3) e] by blast
  have "\<exists>st'. acc_step e st = Inr st' \<and> fst st' \<le> a + b \<and> snd st' \<le> a + b"
    using t d Cons.prems(3) by (cases "snd e") (auto simp: acc_step_def)
  then obtain st' where st': "acc_step e st = Inr st'" "fst st' \<le> a + b" "snd st' \<le> a + b" by blast
  then show ?case using Cons.IH [OF _ st'(2,3)] Cons.prems(1,4) by (simp add: algebra_simps)
qed simp

section \<open>\<open>NodeDistance\<close> is defined\<close>

lemma children_below_next:
  assumes "tree_ok h" and "n1 \<noteq> n2"
  shows "length (children_of h n1) + length (children_of h n2) \<le> h_next_node h"
proof -
  have "set (children_of h n1) \<inter> set (children_of h n2) = {}"
    using tree_okD(4) [OF assms(1)] assms(2) by (metis disjoint_iff option.inject)
  then have "distinct (children_of h n1 @ children_of h n2)" using tree_okD(6) [OF assms(1)] by simp
  moreover have "set (children_of h n1 @ children_of h n2) \<subseteq> {..<h_next_node h}"
    using tree_okD(1) [OF assms(1) tree_okD(3) [OF assms(1)]] by auto
  ultimately show ?thesis
    using card_mono [of "{..<h_next_node h}"] distinct_card by (metis card_lessThan finite_lessThan length_append)
qed

context unordered_env
begin

lemma length_class_order [simp]: "length (env_class_order env cs) = length cs"
  using class_order by (metis size_mset)

lemma length_dist_entries:
  assumes "tree_ok h" and "n1 \<noteq> n2"
  shows "length (dist_entries env h n1 n2) \<le> h_next_node h"
proof -
  let ?O = "fold set_insert (filter (\<lambda>c. c \<notin> set (child_classes h n1)) (map (class_of h) (children_of h n2))) []"
  have "length (child_classes h n1) \<le> length (children_of h n1)"
    using distinct_card [OF distinct_child_classes [of h n1]] card_length [of "map (class_of h) (children_of h n1)"] by simp
  moreover have "distinct ?O" "set ?O \<subseteq> set (map (class_of h) (children_of h n2))" by auto
  then have "length ?O \<le> length (children_of h n2)"
    using distinct_card [of ?O] card_mono [of "set (map (class_of h) (children_of h n2))" "set ?O"]
      card_length [of "map (class_of h) (children_of h n2)"] by simp
  ultimately show ?thesis using children_below_next [OF assms] by (simp add: dist_entries_def)
qed

lemma NodeDistance_defined:
  assumes "heap_ok h" and "comparable h n1 n2" and "n1 \<noteq> n2"
    and "\<And>c. weight_of h c \<le> of_nat b" and "b * h_next_node h \<le> 2 ^ 53"
  shows "\<exists>d. NodeDistance env h n1 n2 = Inr d"
proof -
  let ?es = "map (entry_weight h) (dist_entries env h n1 n2)"
  have "\<forall>e \<in> set ?es. 0 \<le> fst e \<and> fst e \<le> of_nat b"
    using assms(4) classes_okD(4) [OF heap_okD(2) [OF assms(1)]] by (auto simp: entry_weight_def)
  moreover have "length ?es * b \<le> h_next_node h * b"
    using length_dist_entries [OF heap_okD(1) [OF assms(1)] assms(3)] by simp
  then have "0 + length ?es * b \<le> 2 ^ 53" using assms(5) unfolding add_0 mult.commute [of b] by (rule le_trans)
  ultimately obtain st where st: "foldR acc_step ?es (0, 0) = Inr st"
    using accumulate_defined [of ?es b "(0, 0)" 0] by auto
  have c: "n1 \<in> dom (h_nodes h)" "n2 \<in> dom (h_nodes h)" "ready h n1" "ready h n2"
    "\<not> (map_option nd_type (h_nodes h n1) = Some FILE \<and> map_option nd_type (h_nodes h n2) = Some FILE)"
    using assms(2) by (auto simp: comparable_def not_both_files_def)
  have "NodeDistance env h n1 n2 = fraction_result st"
    using NodeDistance_eq [OF assms(1) c] st by simp
  then have "\<not> is_overflow (NodeDistance env h n1 n2)"
    by (auto simp: fraction_result_def rassert_def is_overflow_def)
  then show ?thesis using NodeDistance_range [OF assms(1,2)] by blast
qed

end

section \<open>The invariant\<close>

text \<open>The factor by which the weights may still grow.\<close>

definition fan_out :: "heap \<Rightarrow> nat" where
  "fan_out h = (\<Prod>n \<in> unevaluated h. max 1 (length (children_of h n)))"

definition in_range :: "dedup_env \<Rightarrow> nat \<Rightarrow> heap \<Rightarrow> bool" where
  "in_range env b h \<longleftrightarrow>
     1 \<le> b \<and> (conf_use_size (env_conf env) \<longrightarrow>
       (\<forall>n nd. h_nodes h n = Some nd \<longrightarrow> nd_type nd = FILE \<longrightarrow> nd_size nd \<le> int b)) \<and>
     (\<forall>c. weight_of h c \<le> of_nat b) \<and> b * fan_out h * h_next_node h \<le> 2 ^ 53"

lemma in_rangeD:
  assumes "in_range env b h"
  shows "1 \<le> b" and "weight_of h c \<le> of_nat b" and "b * fan_out h * h_next_node h \<le> 2 ^ 53"
    and "conf_use_size (env_conf env) \<Longrightarrow> h_nodes h n = Some nd \<Longrightarrow> nd_type nd = FILE \<Longrightarrow> nd_size nd \<le> int b"
  using assms unfolding in_range_def by blast+

lemma fan_out_pos: "1 \<le> fan_out h"
  unfolding fan_out_def by (rule prod_ge_1) simp

lemma fan_out_step:
  assumes "tree_ok h" and "n \<in> unevaluated h" and "same_tree h h'" and "class_of h' = (class_of h)(n := Some c)"
  shows "fan_out h = max 1 (length (children_of h n)) * fan_out h'"
proof -
  have "unevaluated h' = unevaluated h - {n}"
    unfolding unevaluated_def assms(4) same_treeD(3) [OF assms(3)] by auto
  then show ?thesis
    using prod.remove [OF finite_unevaluated [OF assms(1)] assms(2)]
    unfolding fan_out_def same_treeD(1) [OF assms(3)] by simp
qed

lemma in_range_views:
  assumes "in_range env b h" and "same_tree h h'" and "class_of h' = class_of h" and "\<And>c. weight_of h' c \<le> of_nat b"
  shows "in_range env b h'"
proof -
  have "fan_out h' = fan_out h"
    unfolding fan_out_def unevaluated_def same_treeD(1,3) [OF assms(2)] assms(3) ..
  moreover have "nd_size nd \<le> int b"
    if "conf_use_size (env_conf env)" "h_nodes h' n = Some nd" "nd_type nd = FILE" for n nd
    using same_tree_node [OF same_tree_sym [OF assms(2)] that(2)] in_rangeD(4) [OF assms(1) that(1)] that(3) by metis
  ultimately show ?thesis
    using in_rangeD(1,3) [OF assms(1)] assms(4) same_treeD(4) [OF assms(2)] unfolding in_range_def by simp
qed

lemma in_range_next:
  assumes "in_range env b h"
  shows "b * h_next_node h \<le> 2 ^ 53"
proof -
  have "b * h_next_node h \<le> b * fan_out h * h_next_node h" using fan_out_pos [of h] by simp
  then show ?thesis using in_rangeD(3) [OF assms] by (rule le_trans)
qed

context unordered_env
begin

lemma node_weight_le:
  assumes "heap_ok h" and "n \<in> dom (h_nodes h)" and "class_of h n = None" and "in_range env b h"
    and "b * max 1 (length (children_of h n)) \<le> 2 ^ 53"
  shows "node_weight env h n \<le> of_nat (b * max 1 (length (children_of h n)))"
proof -
  obtain nd where nd: "h_nodes h n = Some nd" using assms(2) by blast
  let ?d = "max 1 (length (children_of h n))"
  have "b * 1 \<le> b * ?d" by (intro mult_le_mono2) simp
  then have b: "b \<le> b * ?d" by simp
  show ?thesis
  proof (cases "nd_type nd")
    case FILE
    have "(1 :: rat) \<le> of_nat (b * ?d)" using in_rangeD(1) [OF assms(4)] b by (metis le_trans of_nat_1 of_nat_mono)
    moreover have "dbl (of_int (nd_size nd)) \<le> of_nat (b * ?d)" if u: "conf_use_size (env_conf env)"
    proof (rule dbl_le_nat [OF _ assms(5)])
      have "nd_size nd \<le> int (b * ?d)" using in_rangeD(4) [OF assms(4) u nd FILE] b by linarith
      then show "of_int (nd_size nd) \<le> (of_nat (b * ?d) :: rat)" by (metis of_int_le_iff of_int_of_nat_eq)
    qed
    ultimately show ?thesis using nd FILE assms(3) by (simp add: node_weight_def)
  next
    case DIR
    let ?ws = "map (\<lambda>c. weight_of h (the c)) (env_class_order env (child_classes h n))"
    have "length (child_classes h n) \<le> length (children_of h n)"
      using distinct_card [OF distinct_child_classes [of h n]] card_length [of "map (class_of h) (children_of h n)"] by simp
    then have "length ?ws \<le> ?d" by simp
    then have l: "length ?ws * b \<le> b * ?d" unfolding mult.commute [of b] by (rule mult_le_mono1)
    have "dbl_sum ?ws 0 \<le> of_nat (0 + length ?ws * b)"
      by (rule dbl_sum_le) (use in_rangeD(2) [OF assms(4)] le_trans [OF l assms(5)] in auto)
    also have "\<dots> \<le> of_nat (b * ?d)" using l by (simp only: of_nat_le_iff add_0)
    finally show ?thesis using nd DIR assms(3) by (simp add: node_weight_def)
  qed
qed

lemma AddNode_in_range:
  assumes "heap_ok h" and "n \<in> unevaluated h" and "ready h n" and "c \<in> dom (h_classes h)" and "in_range env b h"
    and "AddNode env c n h = Inr h'"
  shows "in_range env (b * max 1 (length (children_of h n))) h'"
proof -
  let ?b = "b * max 1 (length (children_of h n))"
  have n: "n \<in> dom (h_nodes h)" "class_of h n = None" using assms(2) unfolding unevaluated_def by blast+
  from AddNode_ok [OF assms(1) n(1) assms(3) n(2) assms(4)] assms(6) have h': "same_tree h h'"
    "class_of h' = (class_of h)(n := Some c)" "weight_of h' = (weight_of h)(c := joined_weight h c (node_weight env h n))" by auto
  note fan = fan_out_step [OF heap_okD(1) [OF assms(1)] assms(2) h'(1,2)]
  have total: "?b * fan_out h' * h_next_node h \<le> 2 ^ 53" using in_rangeD(3) [OF assms(5)] unfolding fan by (simp add: ac_simps)
  moreover have "?b * h_next_node h \<le> ?b * fan_out h' * h_next_node h"
    using mult_le_mono1 [OF mult_le_mono2 [OF fan_out_pos [of h'], of ?b], of "h_next_node h"] by (simp only: mult_1_right)
  ultimately have next_ok: "?b * h_next_node h \<le> 2 ^ 53" by linarith
  have "n < h_next_node h" by (rule tree_okD(1) [OF heap_okD(1) [OF assms(1)] n(1)])
  then have "?b * 1 \<le> ?b * h_next_node h" by (intro mult_le_mono2) simp
  then have b_ok: "?b \<le> 2 ^ 53" using next_ok by linarith
  have b: "b \<le> ?b" by simp
  then have w: "weight_of h d \<le> of_nat ?b" for d using in_rangeD(2) [OF assms(5), of d] by (meson of_nat_mono order_trans)
  have "?b * Suc (length (members h c)) \<le> ?b * h_next_node h"
    using length_members [OF assms(1) n(1), of c] n(2) by (intro mult_le_mono2) simp
  then have "?b * Suc (length (members h c)) \<le> 2 ^ 53" using next_ok by linarith
  then have "joined_weight h c (node_weight env h n) \<le> of_nat ?b"
    using in_rangeD(1) [OF assms(5)] b
    by (intro joined_weight_le w node_weight_le [OF assms(1) n assms(5) b_ok]) linarith+
  then have weights: "weight_of h' d \<le> of_nat ?b" for d using w unfolding h'(3) by simp
  have "nd_size nd \<le> int ?b" if f: "conf_use_size (env_conf env)" "h_nodes h' m = Some nd" "nd_type nd = FILE" for m nd
  proof -
    obtain nd' where "h_nodes h m = Some nd'" "nd_size nd' = nd_size nd" "nd_type nd' = nd_type nd"
      using same_tree_node [OF same_tree_sym [OF h'(1)] f(2)] by metis
    then have "nd_size nd \<le> int b" using in_rangeD(4) [OF assms(5) f(1)] f(3) by metis
    then show ?thesis using b by linarith
  qed
  then show ?thesis
    unfolding in_range_def using weights total in_rangeD(1) [OF assms(5)] b same_treeD(4) [OF h'(1)] by simp
qed

end

section \<open>The phases\<close>

lemma new_class_in_range: "heap_ok h \<Longrightarrow> in_range env b h \<Longrightarrow> in_range env b (snd (new_EqClass h))"
  using new_EqClass_ok [of h] in_range_views [of env b h "snd (new_EqClass h)"] in_rangeD(2) [of env b h] by simp

sublocale unordered_env \<subseteq> bounded: leaf_invariant env "in_range env b" for b
proof
  fix h :: heap assume "heap_ok h" "in_range env b h"
  then show "in_range env b (snd (new_EqClass h))" by (rule new_class_in_range)
next
  fix h n c h' assume h: "heap_ok h" "leaf h n" "class_of h n = None" "c \<in> dom (h_classes h)" "in_range env b h"
    "AddNode env c n h = Inr h'"
  have "n \<in> unevaluated h" "ready h n" "children_of h n = []"
    using h(2,3) leaf_ready by (simp_all add: unevaluated_def leaf_def)
  with AddNode_in_range [OF h(1) _ _ h(4,5,6)] show "in_range env b h'" by simp
next
  fix h :: heap and c assume h: "heap_ok h" "members h c = []" "in_range env b h"
  have "weight_of (delete_class c h) d \<le> of_nat b" for d
    using in_rangeD(2) [OF h(3), of d] in_rangeD(1) [OF h(3)] by (simp add: weight_of_def delete_class_def)
  then show "in_range env b (delete_class c h)"
    by (rule in_range_views [OF h(3) delete_class_ok(2,3) [OF h(1,2)]])
qed

context unordered_env
begin

lemma prop_step_in_range:
  assumes "prop_step env n (h, cs) (h', cs')" and "heap_ok h" and "\<exists>b. in_range env b h"
  shows "\<exists>b. in_range env b h'"
proof -
  obtain b where b: "in_range env b h" using assms(3) by blast
  show ?thesis
    using assms(1)
  proof (cases rule: prop_step.cases)
    case (join p d c)
    have "c \<in> dom (h_classes h)" by (rule class_of_valid [OF heap_okD(2) [OF assms(2)] join(6)])
    then show ?thesis using AddNode_in_range [OF assms(2) join(2,3) _ b join(7)] by blast
  next
    case (fresh c h1)
    note m = new_EqClass_ok [OF assms(2), unfolded fresh(5) fst_conv snd_conv]
    have "in_range env b h1" using new_class_in_range [OF assms(2) b] fresh(5) by simp
    moreover have "n \<in> unevaluated h1" "ready h1 n"
      using fresh(2,3) ready_same_tree [OF m(2,3)] unfolding unevaluated_def same_treeD(3) [OF m(2)] m(3) by simp_all
    ultimately show ?thesis using AddNode_in_range [OF m(1) _ _ m(6) _ fresh(6)] by blast
  qed
qed

text \<open>In range, no node makes a sum overflow.\<close>

lemma distance_in_range:
  assumes "heap_ok h" and "n \<in> unevaluated h" and "ready h n" and "in_range env b h" and "p \<in> possible_equivalents h n"
  shows "\<not> is_overflow (NodeDistance env h n p)"
proof -
  have "n \<in> dom (h_nodes h)" using assms(2) unfolding unevaluated_def by blast
  then have "comparable h n p" "n \<noteq> p"
    using possible_equivalents_candidates [OF assms(1) _ assms(3,5)] unfolding candidate_def by blast+
  then obtain d where "NodeDistance env h n p = Inr d"
    using NodeDistance_defined [OF assms(1)] in_rangeD(2) [OF assms(4)] in_range_next [OF assms(4)] by blast
  then show ?thesis by (simp add: is_overflow_def)
qed

lemma no_overflow:
  assumes "heap_ok h" and "listed cs h" and "in_range env b h"
  shows "\<not> overflow_reached env (h, cs)"
proof
  assume "overflow_reached env (h, cs)"
  then obtain n g ds p where g: "run env (h, cs) (g, ds)" "n \<in> unevaluated g" "ready g n"
    "p \<in> possible_equivalents g n" "is_overflow (NodeDistance env g n p)"
    unfolding overflow_reached_def by blast
  have "heap_ok (fst (g, ds)) \<and> listed (snd (g, ds)) (fst (g, ds)) \<and> (\<exists>b. in_range env b (fst (g, ds)))"
    by (rule run_invariant [OF g(1)]) (use assms prop_step_in_range in auto)
  then show False using distance_in_range [OF _ g(2,3) _ g(4)] g(5) by auto
qed

text \<open>The whole of duplicate detection on a tree.\<close>

lemma dedup_tree_defined:
  assumes rep: "tree_rep P s A fs" and b: "in_range env b (tc_heap s)"
  shows "\<not> is_overflow (dedup_tree env s)"
proof
  assume u: "is_overflow (dedup_tree env s)"
  obtain r where r: "tc_root s = Some r" using rep unfolding tree_rep_def by blast
  from dedup_tree_run [OF rep r] u obtain cs h where
    l: "classify_leaves env s r = Inr (cs, h)" "leaves_done s cs h" "overflow_reached env (h, cs)"
    by (auto simp: weights_overflow_def r)
  have "in_range env b h" by (rule bounded.classify_leaves_keeps [OF rep r b l(1)])
  then show False using l(2,3) no_overflow unfolding leaves_done_def by blast
qed

end

section \<open>Duplicate detection has a result\<close>

lemma tree_rep_file_size:
  assumes "tree_rep P s A fs" and "h_nodes (tc_heap s) n = Some nd" and "nd_type nd = FILE"
  shows "\<exists>f \<in> set fs. nd_size nd = fi_size (snd f)"
proof -
  obtain r where r: "list_all2 (file_node (tc_heap s) r) (tc_sum2node s) (map (native_file P) fs)"
    using assms(1) unfolding tree_rep_def by blast
  have "n \<in> snd ` set (tc_sum2node s)" using tree_rep_files [OF assms(1)] assms(2,3) by (simp add: is_file_def)
  then obtain e where e: "e \<in> set (tc_sum2node s)" "snd e = n" by blast
  from list_all2_left [OF r e(1)] obtain f where f: "f \<in> set fs" "file_node (tc_heap s) r e (native_file P f)" by auto
  then have "nd_size nd = fi_size (snd f)" using assms(2) e(2) by (auto simp: file_node_def info_def native_file_def)
  with f(1) show ?thesis ..
qed

lemma tree_rep_in_range:
  assumes "tree_rep P s A fs" and "1 \<le> b" and "conf_use_size (env_conf env) \<Longrightarrow> \<forall>f \<in> set fs. fi_size (snd f) \<le> int b"
    and "b * (\<Prod>n \<in> dom (h_nodes (tc_heap s)). max 1 (length (children_of (tc_heap s) n))) * h_next_node (tc_heap s) \<le> 2 ^ 53"
  shows "in_range env b (tc_heap s)"
proof -
  have h: "class_of (tc_heap s) = (\<lambda>_. None)" "h_classes (tc_heap s) = Map.empty"
    using assms(1) unfolding tree_rep_def by blast+
  then have "unevaluated (tc_heap s) = dom (h_nodes (tc_heap s))" by (auto simp: unevaluated_def)
  moreover have "weight_of (tc_heap s) c = 0" for c using h(2) by (simp add: weight_of_def)
  moreover have "nd_size nd \<le> int b"
    if "conf_use_size (env_conf env)" "h_nodes (tc_heap s) n = Some nd" "nd_type nd = FILE" for n nd
    using tree_rep_file_size [OF assms(1) that(2,3)] assms(3) [OF that(1)] by metis
  ultimately show ?thesis using assms(2,4) unfolding in_range_def fan_out_def by simp
qed

text \<open>C12: As long as the heaviest file times the product of the numbers of children times the number of
  nodes is at most 2^53, no sum of weights leaves the range of \<open>uint64_t\<close>, although weights are
  averaged over classes and may grow from level to level: duplicate detection on a scanned tree
  has a result, and fires no assertion. The result is as specified: every node has a class, the
  list holds the classes with members by descending weight, leaves share a class exactly if they
  have the same checksum or are empty directories, and every node has its uniqueness fraction.\<close>

theorem weights_stay_in_range:
  assumes "unordered_env env" and "tree_rep P s A fs" and "1 \<le> b"
    and "conf_use_size (env_conf env) \<Longrightarrow> \<forall>f \<in> set fs. fi_size (snd f) \<le> int b"
    and "b * (\<Prod>n \<in> dom (h_nodes (tc_heap s)). max 1 (length (children_of (tc_heap s) n))) * h_next_node (tc_heap s) \<le> 2 ^ 53"
  shows "\<exists>r cs h. dedup_tree env s = Inr (Some (r, cs, h)) \<and> tc_root s = Some r \<and> dedup_spec s cs h"
  using unordered_env.dedup_tree_ok [OF assms(1,2)]
    unordered_env.dedup_tree_defined [OF assms(1,2) tree_rep_in_range [OF assms(2-5)]] by blast

section \<open>Two directories with one file each\<close>

definition pair_node :: "string \<Rightarrow> NodeType \<Rightarrow> nid option \<Rightarrow> nid list \<Rightarrow> Node" where
  "pair_node name type parent children =
     \<lparr>nd_name = name, nd_type = type, nd_size = (if type = FILE then 10 else 0), nd_parent = parent,
      nd_children = children, nd_eq_class = None, nd_not_evaluated_children = int (length children),
      nd_unique_fraction = None\<rparr>"

definition pair_state :: tree_ctor where
  "pair_state = empty_tree_ctor
     \<lparr>tc_heap := \<lparr>h_nodes = [0 \<mapsto> pair_node ''d'' DIR None [1, 3], 1 \<mapsto> pair_node ''a'' DIR (Some 0) [2],
        2 \<mapsto> pair_node ''x'' FILE (Some 1) [], 3 \<mapsto> pair_node ''b'' DIR (Some 0) [4],
        4 \<mapsto> pair_node ''y'' FILE (Some 3) []],
      h_classes = Map.empty, h_next_node = 5, h_next_class = 0\<rparr>,
      tc_root := Some 0, tc_sum2node := [(7, 2), (7, 4)]\<rparr>"

definition pair_files :: "(string list list \<times> FileInfo) list" where
  "pair_files =
     [([[''a''], [''x'']], \<lparr>fi_size = 10, fi_mtime = 1, fi_sum = 7\<rparr>),
      ([[''b''], [''y'']], \<lparr>fi_size = 10, fi_mtime = 1, fi_sum = 7\<rparr>)]"

abbreviation "pair_heap \<equiv> tc_heap pair_state"

lemma pair_parts: "tc_root pair_state = Some 0" "tc_sum2node pair_state = [(7, 2), (7, 4)]"
  "h_next_node pair_heap = 5" "h_classes pair_heap = Map.empty"
  by (simp_all add: pair_state_def)

lemma pair_views:
  "children_of pair_heap = (\<lambda>n. if n = 0 then [1, 3] else if n = 1 then [2] else if n = 3 then [4] else [])"
  "parent_of pair_heap = (\<lambda>n. if n = 1 \<or> n = 3 then Some 0 else if n = 2 then Some 1 else if n = 4 then Some 3 else None)"
  "class_of pair_heap = (\<lambda>n. None)" "members pair_heap = (\<lambda>c. [])" "weight_of pair_heap = (\<lambda>c. 0)"
  "pending pair_heap = (\<lambda>n. if n = 0 then 2 else if n = 1 \<or> n = 3 then 1 else 0)"
  by (auto simp: fun_eq_iff pair_state_def pair_node_def children_of_def parent_of_def class_of_def
      members_def weight_of_def pending_def)

lemma pair_dom: "n \<in> dom (h_nodes pair_heap) \<longleftrightarrow> n = 0 \<or> n = 1 \<or> n = 2 \<or> n = 3 \<or> n = 4"
  by (auto simp: pair_state_def)

lemma pair_info:
  "info pair_heap = [0 \<mapsto> (''d'', DIR, 0), 1 \<mapsto> (''a'', DIR, 0), 2 \<mapsto> (''x'', FILE, 10),
    3 \<mapsto> (''b'', DIR, 0), 4 \<mapsto> (''y'', FILE, 10)]"
  by (auto simp: fun_eq_iff pair_state_def pair_node_def info_def)

lemma pair_nodes:
  "h_nodes pair_heap n = Some nd \<Longrightarrow> 0 \<le> nd_size nd \<and> (nd_type nd = FILE \<longrightarrow> nd_children nd = [])"
  by (auto simp: pair_state_def pair_node_def split: if_splits)

lemma pair_ok: "heap_ok pair_heap"
proof -
  have "tree_ok pair_heap"
  proof (rule tree_okI)
    show "n < h_next_node pair_heap" if "n \<in> dom (h_nodes pair_heap)" for n
      using that by (simp only: pair_dom pair_parts) auto
    show "n < c \<and> c \<in> dom (h_nodes pair_heap) \<and> parent_of pair_heap c = Some n"
      if "c \<in> set (children_of pair_heap n)" for n c
      using that by (simp only: pair_dom pair_views) (auto split: if_splits)
    show "n \<in> set (children_of pair_heap p)" if "parent_of pair_heap n = Some p" for n p
      using that by (auto simp: pair_views split: if_splits)
    show "distinct (children_of pair_heap n)" for n by (simp add: pair_views)
  qed (auto dest: pair_nodes)
  then show ?thesis by (simp add: heap_ok_def classes_ok_def counters_ok_def pair_views pair_parts)
qed

lemma pair_paths:
  "at_path pair_heap 0 2 [''a'', ''x'']" "at_path pair_heap 0 4 [''b'', ''y'']"
proof -
  have "at_path pair_heap 0 1 ([] @ [''a''])" "at_path pair_heap 0 3 ([] @ [''b''])"
    by (rule at_path.at_child [OF at_path.at_root]; simp add: pair_views pair_info)+
  then have "at_path pair_heap 0 2 (([] @ [''a'']) @ [''x''])" "at_path pair_heap 0 4 (([] @ [''b'']) @ [''y''])"
    by - (rule at_path.at_child, assumption, simp add: pair_views, simp add: pair_info)+
  then show "at_path pair_heap 0 2 [''a'', ''x'']" "at_path pair_heap 0 4 [''b'', ''y'']" by simp_all
qed

lemma pair_rep: "tree_rep list_paths pair_state Map.empty pair_files"
proof -
  have "one_tree pair_heap 0" unfolding one_tree_def Ball_def pair_dom by (auto simp: pair_views)
  moreover have "map (native_file list_paths) pair_files =
      [([''a'', ''x''], \<lparr>fi_size = 10, fi_mtime = 1, fi_sum = 7\<rparr>), ([''b'', ''y''], \<lparr>fi_size = 10, fi_mtime = 1, fi_sum = 7\<rparr>)]"
    by (simp add: pair_files_def native_file_def list_paths_def elements_def)
  then have "list_all2 (file_node pair_heap 0) (tc_sum2node pair_state) (map (native_file list_paths) pair_files)"
    using pair_paths by (simp add: pair_parts file_node_def pair_info)
  moreover have "n \<in> snd ` set (tc_sum2node pair_state)" if "info pair_heap n = Some (nm, FILE, sz)" for n nm sz
    using that by (auto simp: pair_info pair_parts split: if_splits)
  ultimately show ?thesis
    unfolding tree_rep_def using pair_ok by (intro exI [of _ 0]) (simp add: pair_parts pair_views)
qed

lemma pair_product:
  "10 * (\<Prod>n \<in> dom (h_nodes pair_heap). max 1 (length (children_of pair_heap n))) * h_next_node pair_heap \<le> 2 ^ 53"
proof -
  have "dom (h_nodes pair_heap) = {0, 1, 2, 3, 4}" using pair_dom by blast
  then show ?thesis by (simp add: pair_views pair_parts)
qed

lemma pair_sizes: "\<forall>f \<in> set pair_files. fi_size (snd f) \<le> int 10"
  by (simp add: pair_files_def)

lemma pair_in_range: "in_range env 10 pair_heap"
  by (rule tree_rep_in_range [OF pair_rep _ pair_sizes pair_product]) simp

theorem weights_stay_in_range_witness:
  "\<exists>cs h. dedup_tree (insertion_env test_conf) pair_state = Inr (Some (0, cs, h)) \<and> dedup_spec pair_state cs h"
  using weights_stay_in_range [OF insertion.unordered_env_axioms pair_rep _ pair_sizes pair_product, of test_conf]
  by (auto simp: pair_parts)

section \<open>Propagation ends\<close>

text \<open>C19: On one tree whose classes are listed, \<open>PropagateEquivalence\<close> with fuel for every node
  terminates, fires no assertion and ends with every node in a class, by a run of the steps of the
  work list; nodes that had a class keep it, and the returned list holds exactly the classes with
  members. The only other outcome is the conversion of a sum of weights that is too large for
  \<open>uint64_t\<close>, and only if steps of the work list lead to a node with a candidate whose distance has
  such a sum.\<close>

theorem propagation_total:
  assumes "unordered_env env" and "heap_ok h" and "listed cs h" and "spans h r" and "h_next_node h \<le> k"
  shows "(\<exists>cs' h'. PropagateEquivalence k env r cs h = Inr (cs', h') \<and> run env (h, cs) (h', cs') \<and>
      heap_ok h' \<and> same_tree h h' \<and> listed cs' h' \<and>
      (\<forall>n \<in> dom (h_nodes h). class_of h' n \<noteq> None) \<and>
      (\<forall>n. class_of h n \<noteq> None \<longrightarrow> class_of h' n = class_of h n)) \<or>
    (is_overflow (PropagateEquivalence k env r cs h) \<and> overflow_reached env (h, cs))"
proof -
  have "\<forall>n \<in> dom (h_nodes h). class_of h' n \<noteq> None" if "same_tree h h'" "all_evaluated h'" for h'
    using that same_treeD(3) [OF that(1)] unfolding all_evaluated_def by blast
  then show ?thesis
    using unordered_env.PropagateEquivalence_ok [OF assms] unfolding grows_def by meson
qed

text \<open>The leaves of the two directories are in one class; the propagation ends with all nodes in classes.\<close>

theorem propagation_total_witness:
  "\<exists>cs h cs' h'. leaves_done pair_state cs h \<and>
    PropagateEquivalence 5 (insertion_env test_conf) 0 cs h = Inr (cs', h') \<and>
    class_of h' 0 \<noteq> None \<and> class_of h' 1 \<noteq> None \<and> class_of h' 3 \<noteq> None"
proof -
  let ?env = "insertion_env test_conf"
  have r: "tc_root pair_state = Some 0" by (simp add: pair_parts)
  from insertion.leaves_run [OF pair_rep r, of test_conf] obtain cs h where
    l: "classify_leaves ?env pair_state 0 = Inr (cs, h)" "leaves_done pair_state cs h" "spans pair_heap 0" by blast
  then have ok: "heap_ok h" "listed cs h" and same: "same_tree pair_heap h" unfolding leaves_done_def by blast+
  have k: "h_next_node h \<le> 5" using same_treeD(4) [OF same] by (simp add: pair_parts)
  have "\<not> overflow_reached ?env (h, cs)"
    by (rule insertion.no_overflow [OF ok insertion.bounded.classify_leaves_keeps [OF pair_rep r pair_in_range l(1)]])
  with propagation_total [OF insertion.unordered_env_axioms ok spans_same_tree [OF same l(3)] k, of test_conf]
  obtain cs' h' where p: "PropagateEquivalence 5 ?env 0 cs h = Inr (cs', h')"
    "\<forall>n \<in> dom (h_nodes h). class_of h' n \<noteq> None" by blast
  have "n \<in> dom (h_nodes h)" if "n = 0 \<or> n = 1 \<or> n = 3" for n
    unfolding same_treeD(3) [OF same] pair_dom using that by blast
  then have "class_of h' n \<noteq> None" if "n = 0 \<or> n = 1 \<or> n = 3" for n using that p(2) by blast
  then have "class_of h' 0 \<noteq> None" "class_of h' 1 \<noteq> None" "class_of h' 3 \<noteq> None" by simp_all
  with l(2) p(1) show ?thesis by blast
qed

section \<open>\<open>FuzzyDedup\<close> on a database\<close>

text \<open>A rough bound for a small tree: no node has more children than there are nodes.\<close>

lemma small_tree_in_range:
  assumes "tree_rep P s A fs" and "1 \<le> b" and "conf_use_size (env_conf env) \<Longrightarrow> \<forall>f \<in> set fs. fi_size (snd f) \<le> int b"
    and "h_next_node (tc_heap s) \<le> N" and "1 \<le> N" and "b * N ^ N * N \<le> 2 ^ 53"
  shows "in_range env b (tc_heap s)"
proof (rule tree_rep_in_range [OF assms(1-3)])
  let ?h = "tc_heap s"
  have "tree_ok ?h" using assms(1) heap_okD(1) unfolding tree_rep_def by blast
  note tree = tree_okD [OF this]
  have lt: "dom (h_nodes ?h) \<subseteq> {..<N}" using tree(1) assms(4) by force
  have "max 1 (length (children_of ?h n)) \<le> N" for n
  proof -
    have "set (children_of ?h n) \<subseteq> {..<N}" using tree(3) children_of_dom lt by blast
    then have "card (set (children_of ?h n)) \<le> N" using card_mono [of "{..<N}" "set (children_of ?h n)"] by simp
    then have "length (children_of ?h n) \<le> N" using distinct_card [OF tree(6), of n] by simp
    with assms(5) show ?thesis by simp
  qed
  then have "(\<Prod>n \<in> dom (h_nodes ?h). max 1 (length (children_of ?h n))) \<le> N ^ card (dom (h_nodes ?h))"
    by (intro prod_le_power) auto
  also have "\<dots> \<le> N ^ N" using card_mono [OF _ lt] assms(5) by (intro power_increasing) auto
  finally have "b * (\<Prod>n \<in> dom (h_nodes ?h). max 1 (length (children_of ?h n))) * h_next_node ?h \<le> b * N ^ N * N"
    using assms(4) by (intro mult_le_mono) auto
  with assms(6) show "b * (\<Prod>n \<in> dom (h_nodes ?h). max 1 (length (children_of ?h n))) * h_next_node ?h \<le> 2 ^ 53"
    by (rule le_trans [rotated])
qed

context unordered_env
begin

lemma no_weights_overflow:
  assumes "tree_rep P s A fs" and "in_range env b (tc_heap s)"
  shows "\<not> weights_overflow env s"
proof
  assume "weights_overflow env s"
  then obtain r cs h where r: "tc_root s = Some r" "classify_leaves env s r = Inr (cs, h)" "leaves_done s cs h"
    "overflow_reached env (h, cs)" unfolding weights_overflow_def by blast
  have "in_range env b h" by (rule bounded.classify_leaves_keeps [OF assms(1) r(1) assms(2) r(2)])
  then show False using r(3,4) no_overflow unfolding leaves_done_def by blast
qed

end

lemma small_tree_no_overflow:
  assumes "unordered_env env" and "1 \<le> b" and "conf_use_size (env_conf env) \<Longrightarrow> \<forall>f \<in> set fs. fi_size (snd f) \<le> int b"
    and "1 \<le> length ds + length fs" and "b * (length ds + length fs) ^ (length ds + length fs) * (length ds + length fs) \<le> 2 ^ 53"
  shows "\<not> scanned_overflow P env ds fs out"
proof
  assume "scanned_overflow P env ds fs out"
  then obtain s A where s: "tree_rep P s A fs" "weights_overflow env s" "h_next_node (tc_heap s) = length ds + length fs"
    unfolding scanned_overflow_def tree_with_dirs_def by blast
  have "in_range env b (tc_heap s)"
    by (rule small_tree_in_range [OF s(1) assms(2,3) _ assms(4,5)]) (simp_all add: s(3))
  then show False using unordered_env.no_weights_overflow [OF assms(1) s(1)] s(2) by blast
qed



end
