(* ===== verification/Program_Runs.thy ===== *)
theory Program_Runs
  imports Cached_Properties Weight_Bounds
begin

text \<open>
  The runs of the program (src/src/dupa.cpp) as a whole: the scans with the cache, duplicate detection
  or comparison, what is printed and what is stored.
\<close>

section \<open>What is shown of a result\<close>

text \<open>The lines for the interesting classes, and those for the scattered directories by descending
  fraction of unique files, equal fractions in any order.\<close>

definition result_lines :: "'p path_api \<Rightarrow> GlobalConfig \<Rightarrow> heap \<Rightarrow> cid list \<Rightarrow> stdout \<Rightarrow> bool" where
  "result_lines P conf h ics lines \<longleftrightarrow>
     (\<exists>ns. scattered_order conf h ns \<and>
        lines = (''*** Classes of similar directories or files:'' #
            map (\<lambda>c. print_line (sort (map (path_of P h) (members h c)))) ics) @
          (''*** Directories consisting of mostly duplicates of files scattered elsewhere:'' #
            map (path_of P h) ns))"

lemma show_duplicates_ok:
  assumes "dupa_sqlite (pg_sqlite G) db_content result_rows is_ready is_finished is_pending"
    and "db_content conn = (T, False)" and "unordered_env (pg_env G)"
    and "storable_results (pg_at_class G) (pg_at_node G) r cs h"
  shows "\<exists>lines conn'. show_duplicates G (Some conn) (Some (r, cs, h)) = Inr (lines, Some conn') \<and>
    result_lines (w_paths (pg_world G)) (w_conf (pg_world G)) h (filter (interesting h) cs) lines \<and>
    db_content conn' = (results_tables (w_paths (pg_world G)) (pg_at_class G) (pg_at_node G) r cs (filter (interesting h) cs) h T, False)"
proof -
  let ?P = "w_paths (pg_world G)" and ?ics = "filter (interesting h) cs"
  let ?env = "(pg_env G)\<lparr>env_conf := w_conf (pg_world G)\<rparr>"
  have h: "heap_ok h" "spans h r" "all_evaluated h" "listed cs h" "\<forall>n \<in> dom (h_nodes h). frac_of h n \<noteq> None"
    using assms(4) unfolding storable_results_def by blast+
  have m: "\<forall>c \<in> set cs. members h c \<noteq> []" using h(4) unfolding listed_def by blast
  note ics = GetInteresingEqClasses_eq [OF h(1,3) m]
  from dupa_sqlite.results_in_database [OF assms(1,4,2), of ?P] ics obtain db1 db2 db3 where
    d: "CreateResultsDatabase (pg_sqlite G) conn = (Inr (), db1)"
      "DumpFuzzyDedupRes (pg_sqlite G) ?P (pg_at_class G) (pg_at_node G) r cs h db1 = (Inr (), db2)"
      "DumpInterestingEqClasses (pg_sqlite G) (pg_at_class G) ?ics db2 = (Inr (), db3)"
      "db_content db3 = (results_tables ?P (pg_at_class G) (pg_at_node G) r cs ?ics h T, False)" by auto
  have p: "PrintEqClassses ?P h ?ics = Inr (''*** Classes of similar directories or files:'' #
      map (\<lambda>c. print_line (sort (map (path_of ?P h) (members h c)))) ?ics)"
    by (rule PrintEqClassses_ok [OF h(1)]) (use m in simp)
  from unordered_env.PrintScatteredDirectories_ok [OF unordered_env_conf [OF assms(3)] h(1-3,5), of "w_conf (pg_world G)" ?P]
  obtain ns where ns: "scattered_order (w_conf (pg_world G)) h ns" "PrintScatteredDirectories ?P ?env h r =
      Inr (''*** Directories consisting of mostly duplicates of files scattered elsewhere:'' # map (path_of ?P h) ns)" by auto
  show ?thesis
    using ics d p ns by (auto simp: show_duplicates_def result_lines_def dbind_def)
qed

section \<open>One directory\<close>

text \<open>C10: A run of the program on a directory with a database for the results and at least one thread, no
  directory being below itself, whatever correct cache it starts with and whatever the schedule of the
  scan: if the directory cannot be listed it says that there are no files; otherwise it computes a correct
  result of duplicate detection on exactly the directories and files that a recursive walk finds below the
  directory, each as often as it is found and each file with the checksum of its content, and, the objects
  of that result having different addresses, prints and stores just that result. Nothing fails; the only
  other outcome is the conversion of a sum of weights that is too large for \<open>uint64_t\<close>, and only if on
  that tree the steps of the propagation lead to a node with a candidate whose distance has such a sum. The
  cache stays correct.\<close>

theorem dedup_run:
  assumes "dupa_sqlite (pg_sqlite G) db_content result_rows is_ready is_finished is_pending"
    and "db_content conn = (T, False)" and "unordered_env (pg_env G)" and "w_paths (pg_world G) = P" and "path_laws P"
    and "os_ok os" and "cache_ok os hc"
    and "\<not> has_db_prefix (pg_world G) dir" and "p_native P (p_of P dir) \<noteq> []"
    and "plain_files P os (w_files (pg_world G)) = FS" and "file_system_ok P FS" and "wf (below FS)" and "fs_late_lock FS"
    and "0 < conf_concurrency (w_conf (pg_world G))"
    and "(out, hc') \<in> cached_run_dedup os G (Some conn) dir hc"
  shows "cache_ok os hc' \<and>
    ((fs_list FS (p_of P dir) = None \<and> out = Inr ([''No files in specified location''], Some conn)) \<or>
     (\<exists>ds fs. mset (map FoundDir ds @ map FoundFile fs) = mset (all_found P FS (p_of P dir) []) \<and>
       ((\<exists>e. out = Inl e \<and> scanned_overflow P ((pg_env G)\<lparr>env_conf := w_conf (pg_world G)\<rparr>) ds fs (Inl e)) \<or>
        (\<exists>r cs h. scanned_outcome P ds fs (Inr (Some (r, cs, h))) \<and>
          (inj_on (pg_at_class G) (set cs) \<and> inj_on (pg_at_node G) (dom (h_nodes h)) \<longrightarrow>
            (\<exists>lines conn'. out = Inr (lines, Some conn') \<and>
              result_lines P (w_conf (pg_world G)) h (filter (interesting h) cs) lines \<and>
              db_content conn' =
                (results_tables P (pg_at_class G) (pg_at_node G) r cs (filter (interesting h) cs) h T, False)))))))"
    (is "_ \<and> ?outcome")
proof
  show "cache_ok os hc'" by (rule cache_used_ok [OF cached_run_dedup_cache [OF assms(6,7,15)]])
  have "out \<in> fst ` cached_run_dedup os G (Some conn) dir hc" using assms(15) by force
  then have "out \<in> run_dedup (plain_program os G) (Some conn) dir"
    unfolding cached_run_dedup_plain [OF assms(6,7)] .
  then obtain res where res: "res \<in> FuzzyDedup (plain_world os (pg_world G)) (pg_env G) dir"
    "out = rbind res (show_duplicates G (Some conn))" by (auto simp: run_dedup_def)
  let ?W = "plain_world os (pg_world G)"
  have W: "w_paths ?W = P" "w_files ?W = FS" "w_conf ?W = w_conf (pg_world G)" "\<not> has_db_prefix ?W dir"
    using assms(4,8,10) by auto
  have "scannable ?W" unfolding scannable_def W using assms(11-14) by blast
  from FuzzyDedup_directory [where W = ?W, unfolded W(1-3), OF assms(3,5) W(4) assms(9) this res(1)]
  show ?outcome
  proof (elim disjE exE conjE)
    assume "fs_list FS (p_of P dir) = None" "res = Inr None"
    then show ?thesis using res(2) by (simp add: show_duplicates_def)
  next
    fix ds fs assume m: "mset (map FoundDir ds @ map FoundFile fs) = mset (all_found P FS (p_of P dir) [])"
      and fs: "scanned_outcome P ds fs res"
    then obtain r cs h where r: "res = Inr (Some (r, cs, h))" unfolding scanned_outcome_def by blast
    note d = scanned_outcome_dedup [OF fs [unfolded r]]
    have "\<exists>lines conn'. out = Inr (lines, Some conn') \<and>
        result_lines P (w_conf (pg_world G)) h (filter (interesting h) cs) lines \<and>
        db_content conn' = (results_tables P (pg_at_class G) (pg_at_node G) r cs (filter (interesting h) cs) h T, False)"
      if "inj_on (pg_at_class G) (set cs)" "inj_on (pg_at_node G) (dom (h_nodes h))"
      using show_duplicates_ok [OF assms(1-3) dedup_storable [OF d that]] r res(2) assms(4) by simp
    then show ?thesis using m fs r by blast
  next
    fix ds fs assume m: "mset (map FoundDir ds @ map FoundFile fs) = mset (all_found P FS (p_of P dir) [])"
      and o: "scanned_overflow P ((pg_env G)\<lparr>env_conf := w_conf (pg_world G)\<rparr>) ds fs res"
    then obtain e where "res = Inl e" unfolding scanned_overflow_def is_overflow_def by blast
    then show ?thesis using m o res(2) by auto
  qed
qed

text \<open>Only the file \<open>a\<close> can be read; the directory \<open>s\<close> is there without files.\<close>

lemma example_found:
  "all_found list_paths (plain_files list_paths example_os example_files) [''/'', ''d''] [] =
    [FoundDir [], FoundFile ([[''a'']], \<lparr>fi_size = 2, fi_mtime = 5, fi_sum = 9\<rparr>), FoundDir [[''s'']]]"
proof -
  let ?FS = "plain_files list_paths example_os example_files"
  have "height_le ?FS 2 [''/'', ''d'']" by code_simp
  from all_found_walk [OF this, of list_paths "[]"] show ?thesis
    by (rule trans) code_simp
qed

theorem dedup_run_witness:
  "\<exists>out hc ds fs r cs h. (out, hc) \<in> cached_run_dedup example_os example_program (Some (Map.empty, False)) ''/d'' fresh_cache \<and>
    cache_ok example_os hc \<and>
    mset (map FoundDir ds @ map FoundFile fs) =
      {#FoundDir [], FoundFile ([[''a'']], \<lparr>fi_size = 2, fi_mtime = 5, fi_sum = 9\<rparr>), FoundDir [[''s'']]#} \<and>
    scanned_outcome list_paths ds fs (Inr (Some (r, cs, h)))"
proof -
  let ?outs = "cached_run_dedup example_os example_program (Some (Map.empty, False)) ''/d'' fresh_cache"
  let ?FS = "plain_files list_paths example_os example_files"
  have conc: "0 < conf_concurrency (w_conf (pg_world example_program))"
    by (simp add: test_conf_def po_notify_def only_dirs_def)
  obtain t where "t \<in> FuzzyDedup (plain_world example_os example_world) (pg_env example_program) ''/d''"
    using scan_run_exists [OF example_plain_wf] example_prefixes(2) conc
    by (fastforce simp: FuzzyDedup_def ScanDirectory_tree_def scan_path_cases ScanDirectory_def start_scan_cases)
  then have "fst ` ?outs \<noteq> {}"
    unfolding cached_run_dedup_plain [OF example_os_ok] by (auto simp: run_dedup_def)
  then obtain out hc where out: "(out, hc) \<in> ?outs" by auto
  have sqlite: "dupa_sqlite (pg_sqlite example_program) (\<lambda>D. D) mem_rows mem_ready mem_finished mem_pending"
    using mem.dupa_sqlite_axioms by simp
  have env: "unordered_env (pg_env example_program)"
    using insertion.unordered_env_axioms by (simp add: example_program_def)
  have paths: "w_paths (pg_world example_program) = list_paths" "\<not> has_db_prefix (pg_world example_program) ''/d''"
    "p_native list_paths (p_of list_paths ''/d'') \<noteq> []" "plain_files list_paths example_os (w_files (pg_world example_program)) = ?FS"
    using example_prefixes(2) by (simp_all add: example_d) (simp add: list_paths_def elements_def)
  have listed: "fs_list ?FS (p_of list_paths ''/d'') \<noteq> None" by (simp add: example_d example_files_def)
  note r = dedup_run [where db_content = "\<lambda>D. D" and G = example_program and dir = "''/d''",
      OF sqlite refl env paths(1) list_path.path_laws_axioms example_os_ok paths(2-4) example_plain_ok example_plain_wf
      example_plain_lock conc out]
  let ?found = "\<lambda>ds fs. mset (map FoundDir ds @ map FoundFile fs) = mset (all_found list_paths ?FS (p_of list_paths ''/d'') [])"
    and ?overflow = "\<lambda>ds fs e. scanned_overflow list_paths ((pg_env example_program)\<lparr>env_conf := w_conf (pg_world example_program)\<rparr>) ds fs (Inl e)"
    and ?result = "\<lambda>ds fs r cs h. scanned_outcome list_paths ds fs (Inr (Some (r, cs, h)))"
  have "\<exists>ds fs. ?found ds fs \<and> ((\<exists>e. ?overflow ds fs e) \<or> (\<exists>r cs h. ?result ds fs r cs h))"
    using r [THEN conjunct2]
  proof (elim disjE exE conjE)
    fix ds fs e assume "?found ds fs" "?overflow ds fs e"
    then show ?thesis by blast
  next
    fix ds fs r cs h assume "?found ds fs" "?result ds fs r cs h"
    then show ?thesis by blast
  qed (use listed in simp)
  then obtain ds fs where m: "?found ds fs" and o: "(\<exists>e. ?overflow ds fs e) \<or> (\<exists>r cs h. ?result ds fs r cs h)" by blast
  note found = m [unfolded example_d example_found]
  have len: "length ds + length fs = 3" using arg_cong [OF found, of size] by simp
  have "fi_size (snd f) \<le> int 20" if "f \<in> set fs" for f
  proof -
    have "FoundFile f \<in># mset (map FoundDir ds @ map FoundFile fs)" using that by simp
    then show ?thesis unfolding found by auto
  qed
  then have "\<not> scanned_overflow list_paths ((pg_env example_program)\<lparr>env_conf := w_conf (pg_world example_program)\<rparr>) ds fs e" for e
    using len by (intro small_tree_no_overflow [where b = 20] unordered_env_conf env) auto
  with o obtain r cs h where "scanned_outcome list_paths ds fs (Inr (Some (r, cs, h)))" by blast
  moreover have "cache_ok example_os hc" using r by blast
  moreover have "mset (map FoundDir ds @ map FoundFile fs) =
      {#FoundDir [], FoundFile ([[''a'']], \<lparr>fi_size = 2, fi_mtime = 5, fi_sum = 9\<rparr>), FoundDir [[''s'']]#}"
    using found by simp
  ultimately show ?thesis using out by blast
qed

section \<open>Two directories\<close>

text \<open>C14: A run of the program on two directories with a database for the results and at least one thread, no
  directory being below itself, whatever correct cache it starts with and whatever the schedule of the two
  scans: it does not fail, prints one line per reported
  action, in order, and stores the same actions in the six tables, where the report is the one of the
  files below the two directories, each with the checksum of its content. The cache stays correct.\<close>

theorem compare_run:
  assumes "dupa_sqlite (pg_sqlite G) db_content result_rows is_ready is_finished is_pending"
    and "db_content conn = (T, False)" and "path_table P (pg_tables G) invar" and "w_paths (pg_world G) = P"
    and "os_ok os" and "cache_ok os hc"
    and "plain_files P os (w_files (pg_world G)) = FS" and "file_system_ok P FS" and "wf (below FS)"
    and "fs_late_lock FS" and "0 < conf_concurrency (w_conf (pg_world G))"
    and "\<And>dir. dir \<in> {dir1, dir2} \<Longrightarrow> \<not> has_db_prefix (pg_world G) dir \<and> unambiguous P (found_in P FS (p_of P dir) []) \<and>
      no_nul ` file_name P ` found_in P FS (p_of P dir) [] \<subseteq> {True}"
    and "(out, hc') \<in> cached_run_compare os G (Some conn) dir1 dir2 hc"
  shows "cache_ok os hc' \<and>
    (\<exists>c1 c2 evs conn'.
      holds_files P (content (pg_tables G) c1) (found_in P FS (p_of P dir1) []) \<and>
      holds_files P (content (pg_tables G) c2) (found_in P FS (p_of P dir2) []) \<and>
      reported (pg_tables G) (w_conf (pg_world G)) c1 c2 = Inr evs \<and>
      out = Inr (map print_event evs, Some conn') \<and> db_content conn' = (report_tables evs T, False))"
proof
  show "cache_ok os hc'" by (rule cache_used_ok [OF cached_run_compare_cache [OF assms(5,6,13)]])
  have "out \<in> fst ` cached_run_compare os G (Some conn) dir1 dir2 hc" using assms(13) by force
  then have out: "out \<in> run_compare (plain_program os G) (Some conn) dir1 dir2"
    unfolding cached_run_compare_plain [OF assms(5,6)] .
  show "\<exists>c1 c2 evs conn'.
      holds_files P (content (pg_tables G) c1) (found_in P FS (p_of P dir1) []) \<and>
      holds_files P (content (pg_tables G) c2) (found_in P FS (p_of P dir2) []) \<and>
      reported (pg_tables G) (w_conf (pg_world G)) c1 c2 = Inr evs \<and>
      out = Inr (map print_event evs, Some conn') \<and> db_content conn' = (report_tables evs T, False)"
  proof -
    let ?G = "plain_program os G"
    have G: "pg_sqlite ?G = pg_sqlite G" "pg_tables ?G = pg_tables G" "w_paths (pg_world ?G) = P" "w_files (pg_world ?G) = FS"
      "w_conf (pg_world ?G) = w_conf (pg_world G)" "has_db_prefix (pg_world ?G) = has_db_prefix (pg_world G)"
      using assms(4,7) by (simp_all add: fun_eq_iff)
    have "scannable (pg_world ?G)" unfolding scannable_def G using assms(8-11) by blast
    from run_compare_stored [where G = ?G and P = P, unfolded G,
        where db_content = db_content and conn = conn and T = T, OF assms(1-3) refl this assms(12) out] show ?thesis .
  qed
qed

lemma example_plain_names:
  "no_nul ` file_name list_paths ` found_in list_paths (plain_files list_paths example_os example_files) [''/'', ''d''] [] \<subseteq> {True}"
  "unambiguous list_paths (found_in list_paths (plain_files list_paths example_os example_files) [''/'', ''d''] [])"
proof -
  let ?FS = "plain_files list_paths example_os example_files"
  have fn: "p_filename list_paths p = (if elements p = [] then [] else [last (elements p)])" for p
    by (simp add: list_paths_def)
  have info: "fs_info ?FS p = (if p_native list_paths p = ''/d/a'' then Some \<lparr>fi_size = 2, fi_mtime = 5, fi_sum = 9\<rparr> else None)" for p
    by (simp add: example_plain_info)
  have "fi_sum (snd x) = 9" if "(r, d, x) \<in> files_in list_paths ?FS" for r d x
    using that by induction (auto simp: task_files_def example_plain_info split: if_splits)
  then show "unambiguous list_paths (found_in list_paths ?FS [''/'', ''d''] [])"
    unfolding unambiguous_def found_in_def by auto
  have native: "p_native list_paths [''/'', ''d'', ''s'', ''b''] = ''/d/s/b''" "p_native list_paths [''/'', ''d'', ''s'', ''e''] = ''/d/s/e''"
    by code_simp+
  have "fst ` found_in list_paths ?FS [''/'', ''d''] [] \<subseteq> {[[''a'']]}"
    unfolding found_in_rec [of _ _ "[''/'', ''d'']"]
    by (auto simp: entry_files_def is_task_def task_files_def is_subdir_def example_files_def fn elements_def info [unfolded plain_files_simps]
        native example_plain_info found_in_rec [of _ _ "[''/'', ''d'', ''s'']"] split: if_splits)
  moreover have "p_native list_paths (relative_path list_paths [[''a'']]) = ''a''" by code_simp
  ultimately show "no_nul ` file_name list_paths ` found_in list_paths ?FS [''/'', ''d''] [] \<subseteq> {True}"
    by (auto simp: file_name_def no_nul_def)
qed

theorem compare_run_witness:
  "\<exists>evs T hc. (Inr (map print_event evs, Some (T, False)), hc) \<in>
      cached_run_compare example_os example_program (Some (Map.empty, False)) ''/d'' ''/d'' fresh_cache \<and>
    cache_ok example_os hc \<and> T RemovedTable \<noteq> None"
proof -
  let ?outs = "cached_run_compare example_os example_program (Some (Map.empty, False)) ''/d'' ''/d'' fresh_cache"
  have conc: "0 < conf_concurrency (w_conf (pg_world example_program))"
    by (simp add: test_conf_def po_notify_def only_dirs_def)
  have "\<exists>t. t \<in> FillPathHashes (plain_world example_os example_world) list_table ''/d''"
    using scan_run_exists [OF example_plain_wf] example_prefixes(2) conc
    by (simp add: FillPathHashes_def scan_path_cases ScanDirectory_def start_scan_cases)
  then have "fst ` ?outs \<noteq> {}"
    unfolding cached_run_compare_plain [OF example_os_ok]
    by (auto simp: run_compare_def DirCompare_def split: sum.splits prod.splits)
  then obtain out hc where out: "(out, hc) \<in> ?outs" by auto
  have "dupa_sqlite (pg_sqlite example_program) (\<lambda>D. D) mem_rows mem_ready mem_finished mem_pending"
    using mem.dupa_sqlite_axioms by simp
  moreover have "path_table list_paths (pg_tables example_program) sorted_table"
    using list_path_table.path_table_axioms by simp
  ultimately have "cache_ok example_os hc \<and> (\<exists>evs. out = Inr (map print_event evs, Some (report_tables evs Map.empty, False)))"
    using compare_run [where db_content = "\<lambda>D. D" and G = example_program, OF _ refl _ _ example_os_ok refl _ _ _ conc _ out,
        of mem_rows mem_ready mem_finished mem_pending list_paths sorted_table]
      example_plain_ok example_plain_wf example_plain_lock example_prefixes(2) example_plain_names
    by (auto simp: example_d)
  then obtain evs where evs: "cache_ok example_os hc" "out = Inr (map print_event evs, Some (report_tables evs Map.empty, False))" by blast
  have "report_tables evs Map.empty RemovedTable \<noteq> None" by (simp add: report_tables_def comparison_tables_def)
  with evs out show ?thesis by blast
qed


section \<open>A run with a stored cache\<close>

text \<open>How a run ends that does not write its cache back.\<close>

definition end_of_run :: "'db outcome \<Rightarrow> 'db program_end" where
  "end_of_run r = (case r of Inl e \<Rightarrow> Failed e | Inr (out, db) \<Rightarrow> Finished out db None)"

lemma stored_cache_read_in:
  assumes "dupa_sqlite A db_content result_rows is_ready is_finished is_pending" and "open_db path = (SQLITE_OK, db)"
    and "fst (db_content db) FileList = Some (map file_row cache)" and "storable cache" and "Suc (length cache) < k"
    and "path \<noteq> []"
  shows "Initialize k A open_db path [] None = Inr (Some (\<lparr>hc_cache = map_of cache, hc_ino_cache = Map.empty\<rparr>, None))"
proof -
  from dupa_sqlite.file_list_rows_ok [where open_db = open_db, OF assms(1-5)] obtain rows where
    rows: "file_list_rows k A open_db path = Inr (StoreCksums rows)" "mset rows = mset cache"
    by (auto simp: StoreCksums_def)
  have "distinct (map fst cache)" using assms(4) by (simp add: storable_def)
  moreover have "mset (map fst rows) = mset (map fst cache)" using rows(2) by simp
  ultimately have d: "distinct (map fst rows)" "distinct (map fst cache)" using mset_eq_imp_distinct_iff by blast+
  have "map_of rows = map_of cache" using mset_eq_setD [OF rows(2)] map_of_inject_set [OF d] by blast
  with ReadCacheFromDb_StoreCksums [OF d(1), where db_rows = "file_list_rows k A open_db" and path = path] rows(1) assms(6)
  show ?thesis by (simp add: Initialize_def rassert_def open_HashCache_def new_HashCache_def)
qed

text \<open>C15: A run that reads a cache from a database, which may have entries for files that are gone or whose size
  or time changed since, does what the program does without any cache, on files whose checksums are
  computed afresh: the same outcomes are possible, the same lines are printed and the same results
  stored.\<close>

theorem stored_cache_transparent:
  assumes "dupa_sqlite (pg_sqlite G) db_content result_rows is_ready is_finished is_pending" and "os_ok os"
    and "po_run parse argv = Inr vm" and "\<not> po_help vm" and "conf_dirs (po_notify vm) \<noteq> []"
    and "conf_read_cache_from (po_notify vm) = path" and "path \<noteq> []" and "conf_dump_cache_to (po_notify vm) = []"
    and "pg_open G path = (SQLITE_OK, db)" and "fst (db_content db) FileList = Some (map file_row cache)"
    and "storable cache" and "path_cache_ok os (map_of cache)" and "Suc (length cache) < k"
  shows "dupa_main k parse argv os G entries =
    end_of_run ` main_body (plain_program os (G\<lparr>pg_world := (pg_world G)\<lparr>w_conf := po_notify vm\<rparr>\<rparr>))"
proof -
  let ?hc = "\<lparr>hc_cache = map_of cache, hc_ino_cache = Map.empty\<rparr>" and ?A = "pg_sqlite G"
  let ?G = "G\<lparr>pg_world := (pg_world G)\<lparr>w_conf := po_notify vm\<rparr>\<rparr>"
  have ok: "cache_ok os ?hc" using assms(12) by (simp add: cache_ok_def ino_cache_ok_def)
  have "Initialize k ?A (pg_open G) (conf_read_cache_from (po_notify vm)) (conf_dump_cache_to (po_notify vm)) None =
      Inr (Some (?hc, None))"
    using stored_cache_read_in [where open_db = "pg_open G" and path = path, OF assms(1,9,10,11,13,7)] assms(6,8) by simp
  moreover have "ParseArgv parse argv initial_conf_state =
      Continues \<lparr>cs_conf = Some (po_notify vm), cs_loglevel = (if po_verbose vm then DEBUG else WARNING)\<rparr>"
    using assms(3-5) by (auto simp: ParseArgv_Continues initial_conf_state_def)
  ultimately have "dupa_main k parse argv os G entries = leave_main ?A entries None ` cached_main_body os ?G ?hc"
    by (simp add: dupa_main_def Conf_def HashCache_Get_def)
  also have "leave_main ?A entries None = end_of_run \<circ> fst"
    by (auto simp: leave_main_def end_of_run_def Finalize_def split: sum.split)
  also have "(end_of_run \<circ> fst) ` cached_main_body os ?G ?hc = end_of_run ` main_body (plain_program os ?G)"
    unfolding image_comp [symmetric] cached_main_body_plain [OF assms(2) ok] ..
  finally show ?thesis .
qed

text \<open>The second entry is outdated: the file is gone.\<close>

definition outdated_cache :: "(string \<times> FileInfo) list" where
  "outdated_cache = [(''/d/a'', \<lparr>fi_size = 2, fi_mtime = 5, fi_sum = 9\<rparr>), (''/d/z'', \<lparr>fi_size = 8, fi_mtime = 6, fi_sum = 1\<rparr>)]"

definition outdated_program :: "(string list, path_hash_list, database, mem_stmt) program" where
  "outdated_program = example_program\<lparr>pg_open :=
     \<lambda>_. (SQLITE_OK, ([FileList \<mapsto> map file_row outdated_cache], False))\<rparr>"

definition read_cache_options :: po_values where
  "read_cache_options = (only_dirs [''/d''])\<lparr>po_read_cache_from := Some ''c.db''\<rparr>"

theorem stored_cache_transparent_witness:
  "dupa_main 9 (\<lambda>_. Inr read_cache_options) [''dupa'', ''/d''] example_os outdated_program (\<lambda>_. []) =
    end_of_run ` main_body (plain_program example_os (outdated_program\<lparr>pg_world :=
      example_world\<lparr>w_conf := po_notify read_cache_options\<rparr>\<rparr>)) \<and>
    dupa_main 9 (\<lambda>_. Inr read_cache_options) [''dupa'', ''/d''] example_os outdated_program (\<lambda>_. []) \<noteq> {}"
proof -
  let ?G = "outdated_program\<lparr>pg_world := example_world\<lparr>w_conf := po_notify read_cache_options\<rparr>\<rparr>"
  have G: "pg_sqlite outdated_program = mem_api" "pg_world outdated_program = example_world"
    "pg_open outdated_program ''c.db'' = (SQLITE_OK, ([FileList \<mapsto> map file_row outdated_cache], False))"
    by (simp_all add: outdated_program_def)
  have opts: "\<not> po_help read_cache_options" "conf_dirs (po_notify read_cache_options) \<noteq> []"
    "conf_read_cache_from (po_notify read_cache_options) = ''c.db''" "''c.db'' \<noteq> []"
    "conf_dump_cache_to (po_notify read_cache_options) = []"
    by (simp_all add: read_cache_options_def only_dirs_def po_notify_def)
  have run_options: "po_run (\<lambda>_. Inr read_cache_options) [''dupa'', ''/d''] = Inr read_cache_options"
    by (simp add: po_run_def max_positional_def read_cache_options_def only_dirs_def)
  have sqlite: "dupa_sqlite (pg_sqlite outdated_program) (\<lambda>D. D) mem_rows mem_ready mem_finished mem_pending"
    using mem.dupa_sqlite_axioms by (simp add: G)
  have "path_cache_ok example_os (map_of outdated_cache)"
    by (auto simp: path_cache_ok_def outdated_cache_def example_os_def plain_cksum_def split: if_splits)
  moreover have "storable outdated_cache" "Suc (length outdated_cache) < 9"
    by (simp_all add: storable_def outdated_cache_def no_nul_def int64_def)
  moreover have "fst ([FileList \<mapsto> map file_row outdated_cache], False) FileList = Some (map file_row outdated_cache)" by simp
  ultimately have run: "dupa_main 9 (\<lambda>_. Inr read_cache_options) [''dupa'', ''/d''] example_os outdated_program (\<lambda>_. []) =
      end_of_run ` main_body (plain_program example_os ?G)"
    using stored_cache_transparent [where parse = "\<lambda>_. Inr read_cache_options" and G = outdated_program and k = 9,
        OF sqlite example_os_ok(1) run_options opts G(3)] by (simp add: G)
  obtain t where "t \<in> FuzzyDedup (plain_world example_os (pg_world ?G)) (pg_env ?G) ''/d''"
    using scan_run_exists [OF iffD2 [OF arg_cong [OF plain_below, of wf] wf_example]]
    by (fastforce simp: FuzzyDedup_def ScanDirectory_tree_def scan_path_cases ScanDirectory_def has_db_prefix_def start_scan_cases
        read_cache_options_def po_notify_def only_dirs_def)
  then have "main_body (plain_program example_os ?G) \<noteq> {}"
    by (auto simp: main_body_def Let_def read_cache_options_def po_notify_def only_dirs_def open_results_def run_dedup_def)
  with run show ?thesis by simp
qed

end
