(* ===== verification/Identical_Dirs.thy ===== *)
theory Identical_Dirs
  imports Weight_Bounds
begin

text \<open>
  Identical directories (src/src/fuzzy_dedup.cpp): with a tolerance above 0, directories that hold
  the same files, at any depth and under any names, end in one class, in spite of averaged and
  rounded weights.
\<close>

section \<open>Directories of the same files\<close>

text \<open>Files are the same if they have the same checksum, directories if they have files and their
  children with files are the same, whatever their names and their empty directories.\<close>

inductive same_files :: "tree_ctor \<Rightarrow> nid \<Rightarrow> nid \<Rightarrow> bool" for s where
  same_file: "(ck, n) \<in> set (tc_sum2node s) \<Longrightarrow> (ck, m) \<in> set (tc_sum2node s) \<Longrightarrow> same_files s n m"
| same_dir: "\<not> is_file (tc_heap s) n \<Longrightarrow> \<not> is_file (tc_heap s) m \<Longrightarrow> has_file (tc_heap s) n \<Longrightarrow>
    (\<forall>a \<in> set (children_of (tc_heap s) n). has_file (tc_heap s) a \<longrightarrow>
      (\<exists>b \<in> set (children_of (tc_heap s) m). same_files s a b)) \<Longrightarrow>
    (\<forall>b \<in> set (children_of (tc_heap s) m). has_file (tc_heap s) b \<longrightarrow>
      (\<exists>a \<in> set (children_of (tc_heap s) n). same_files s a b)) \<Longrightarrow>
    same_files s n m"

lemma file_classes_subset:
  assumes "\<And>a. a \<in> set (children_of h n) \<Longrightarrow> has_file h a \<Longrightarrow>
    \<exists>b \<in> set (children_of h m). class_of h b = class_of h a \<and> has_file h b"
  shows "file_classes h n \<subseteq> file_classes h m"
proof
  fix c assume "c \<in> file_classes h n"
  then obtain x where x: "x \<in> set (children_of h n)" "has_file h x" "class_of h x = Some c"
    unfolding file_classes_def by blast
  from assms [OF x(1,2)] x(3) show "c \<in> file_classes h m" unfolding file_classes_def by auto
qed

lemma same_files_class:
  assumes "same_files s n m"
    and rep: "tree_rep P s A fs" and ok: "heap_ok h" and same: "same_tree (tc_heap s) h"
    and ev: "all_evaluated h" and found: "dirs_found h"
    and files: "\<And>ck n m. (ck, n) \<in> set (tc_sum2node s) \<Longrightarrow> (ck, m) \<in> set (tc_sum2node s) \<Longrightarrow> class_of h n = class_of h m"
  shows "class_of h n = class_of h m \<and> has_file h n \<and> has_file h m"
  using assms(1)
proof induction
  case (same_file ck n m)
  have "n \<in> snd ` set (tc_sum2node s)" "m \<in> snd ` set (tc_sum2node s)" using same_file by force+
  then have "is_file h n" "is_file h m" using tree_rep_files [OF rep] is_file_same [OF same] by blast+
  then show ?case using files [OF same_file] has_file_rec [of h n] has_file_rec [of h m] by blast
next
  case (same_dir n m)
  note H = has_file_same_tree [OF same] and C = same_treeD(1) [OF same]
  have n: "\<not> is_file h n" "has_file h n"
    using same_dir(1,3) unfolding is_file_same [OF same] H .
  have fwd: "\<exists>b \<in> set (children_of h m). class_of h b = class_of h a \<and> has_file h b"
    if "a \<in> set (children_of h n)" "has_file h a" for a
    using same_dir(4) that unfolding H C by metis
  have bwd: "\<exists>a \<in> set (children_of h n). class_of h a = class_of h b \<and> has_file h a"
    if "b \<in> set (children_of h m)" "has_file h b" for b
    using same_dir(5) that unfolding H C by metis
  obtain a where a: "a \<in> set (children_of h n)" "has_file h a" using n has_file_rec [of h n] by blast
  obtain b where b: "b \<in> set (children_of h m)" "has_file h b" using fwd [OF a] by blast
  have e: "class_of h n \<noteq> None" "class_of h m \<noteq> None" "class_of h a \<noteq> None"
    using ev children_of_dom [OF a(1)] children_of_dom [OF b(1)] tree_okD(3) [OF heap_okD(1) [OF ok] a(1)]
    unfolding all_evaluated_def by blast+
  have "file_classes h n = file_classes h m"
    by (rule equalityI; rule file_classes_subset) (use fwd bwd in blast)+
  moreover have "file_classes h n \<noteq> {}" using a e(3) unfolding file_classes_def by blast
  ultimately show ?case using dirs_foundD [OF found e(1,2)] n(2) b has_file_rec [of h m] by blast
qed

section \<open>The same relative paths\<close>

text \<open>The files below a node: the names on the way down, and the checksum.\<close>

inductive file_below :: "tree_ctor \<Rightarrow> nid \<Rightarrow> string list \<Rightarrow> Cksum \<Rightarrow> bool" for s where
  here: "(ck, n) \<in> set (tc_sum2node s) \<Longrightarrow> file_below s n [] ck"
| below: "c \<in> set (children_of (tc_heap s) n) \<Longrightarrow> file_below s c xs ck \<Longrightarrow>
    file_below s n (name_of (tc_heap s) c # xs) ck"

inductive_simps file_below_Nil: "file_below s n [] ck"
inductive_simps file_below_Cons: "file_below s n (x # xs) ck"

lemma file_below_is_file:
  assumes "tree_rep P s A fs" and "file_below s n [] ck"
  shows "is_file (tc_heap s) n" and "children_of (tc_heap s) n = []"
proof -
  have ok: "tree_ok (tc_heap s)" using assms(1) heap_okD(1) unfolding tree_rep_def by blast
  have "(ck, n) \<in> set (tc_sum2node s)" using assms(2) by (simp add: file_below_Nil)
  then show f: "is_file (tc_heap s) n" using tree_rep_files [OF assms(1)] by force
  show "children_of (tc_heap s) n = []" using file_leaf [OF ok f] by (simp add: leaf_def)
qed

lemma has_file_below:
  assumes "tree_rep P s A fs" and "has_file (tc_heap s) n"
  shows "\<exists>xs ck. file_below s n xs ck"
proof -
  obtain m where m: "(n, m) \<in> (child_rel (tc_heap s))\<^sup>*" "is_file (tc_heap s) m"
    using assms(2) unfolding has_file_def by blast
  from m(2) obtain ck where "(ck, m) \<in> set (tc_sum2node s)" using tree_rep_files [OF assms(1)] by force
  then have "file_below s m [] ck" by (rule file_below.here)
  with m(1) show ?thesis
  proof (induction rule: converse_rtrancl_induct)
    case (step x y)
    then show ?case using file_below.below [of y s x] by (auto simp: child_rel_def)
  qed blast
qed

text \<open>Where siblings have different names, directories with the same relative paths and checksums of
  files hold the same files.\<close>

lemma same_paths_same_files:
  assumes rep: "tree_rep P s A fs"
    and names: "\<And>n. inj_on (name_of (tc_heap s)) (set (children_of (tc_heap s) n))"
    and "file_below s n = file_below s m" and "has_file (tc_heap s) n" and "n \<in> dom (h_nodes (tc_heap s))"
  shows "same_files s n m"
proof -
  let ?h = "tc_heap s"
  have ok: "tree_ok ?h" using rep heap_okD(1) unfolding tree_rep_def by blast
  have child: "\<exists>b \<in> set (children_of ?h m). name_of ?h b = name_of ?h a \<and> file_below s a = file_below s b"
    if eq: "file_below s n = file_below s m" and a: "a \<in> set (children_of ?h n)" "has_file ?h a" for n m a
  proof -
    obtain xs ck where "file_below s a xs ck" using has_file_below [OF rep a(2)] by blast
    then have "file_below s m (name_of ?h a # xs) ck" using file_below.below [OF a(1)] eq by metis
    then obtain b where b: "b \<in> set (children_of ?h m)" "name_of ?h b = name_of ?h a" by (auto simp: file_below_Cons)
    have "file_below s a ys c \<longleftrightarrow> file_below s n (name_of ?h a # ys) c" for ys c
      using a(1) names [of n] by (auto simp: file_below_Cons dest: inj_onD)
    moreover have "file_below s b ys c \<longleftrightarrow> file_below s m (name_of ?h b # ys) c" for ys c
      using b(1) names [of m] by (auto simp: file_below_Cons dest: inj_onD)
    ultimately have "file_below s a = file_below s b" unfolding fun_eq_iff b(2) eq by blast
    with b show ?thesis by blast
  qed
  from ok assms(5) assms(3,4) show ?thesis
  proof (induction arbitrary: m rule: tree_induct)
    case (node n)
    show ?case
    proof (cases "\<exists>ck. file_below s n [] ck")
      case True
      then obtain ck where "file_below s n [] ck" "file_below s m [] ck" using node(3) by metis
      then show ?thesis unfolding file_below_Nil by (rule same_files.same_file)
    next
      case False
      have leaf_file: "is_file ?h x \<Longrightarrow> \<exists>ck. file_below s x [] ck" for x
        using tree_rep_files [OF rep, of x] by (force simp: file_below_Nil)
      have nf: "\<not> is_file ?h n" "\<not> is_file ?h m" using False leaf_file node(3) by metis+
      show ?thesis
      proof (rule same_files.same_dir [OF nf node(4)]; intro ballI impI)
        fix a assume a: "a \<in> set (children_of ?h n)" "has_file ?h a"
        from child [OF node(3) a] node(2) [OF a(1) _ a(2)] show "\<exists>b \<in> set (children_of ?h m). same_files s a b" by blast
      next
        fix b assume b: "b \<in> set (children_of ?h m)" "has_file ?h b"
        from child [OF node(3) [symmetric] b] obtain a where
          a: "a \<in> set (children_of ?h n)" "file_below s a = file_below s b" by metis
        have "has_file ?h a"
        proof -
          obtain xs ck where "file_below s a xs ck" using has_file_below [OF rep b(2)] a(2) by metis
          then show ?thesis
          proof induction
            case (here ck n)
            then show ?case using file_below_is_file(1) [OF rep file_below.here] has_file_rec [of ?h n] by blast
          next
            case (below c n xs ck)
            then show ?case using has_file_rec [of ?h n] by blast
          qed
        qed
        then show "\<exists>a \<in> set (children_of ?h n). same_files s a b" using node(2) [OF a(1,2)] a(1) by blast
      qed
    qed
  qed
qed

section \<open>The tolerance\<close>

lemma tolerance_range:
  assumes "1 \<le> conf_tolerable_diff_pct (env_conf env)" and "conf_tolerable_diff_pct (env_conf env) \<le> 100"
  shows "0 < tolerance env" and "tolerance env \<le> 1"
proof -
  let ?t = "of_int (conf_tolerable_diff_pct (env_conf env)) / 100 :: rat"
  show "0 < tolerance env" unfolding tolerance_def using assms(1) by (intro dbl_pos) simp
  have "?t \<le> 1" using assms(2) by (simp add: divide_le_eq)
  then have "dbl ?t \<le> dbl 1" by (rule dbl_mono)
  then show "tolerance env \<le> 1" unfolding tolerance_def by simp
qed

section \<open>The result\<close>

context unordered_env
begin

lemma dedup_tree_found:
  assumes rep: "tree_rep P s A fs" and sizes: "sizes_ok env (tc_heap s)"
    and bound: "h_next_node (tc_heap s) \<le> 2 ^ 53" and tol: "0 < tolerance env" "tolerance env \<le> 1"
  shows "(\<exists>r cs h. dedup_tree env s = Inr (Some (r, cs, h)) \<and> dedup_spec s cs h \<and>
      (\<forall>n m. same_files s n m \<longrightarrow> class_of h n = class_of h m)) \<or> is_overflow (dedup_tree env s) \<and> weights_overflow env s"
proof -
  obtain r where r: "tc_root s = Some r" using rep unfolding tree_rep_def by blast
  from dedup_tree_run [OF rep r] show ?thesis
  proof (elim disjE exE conjE)
    fix cs3 h3 cs4 h4 h5
    assume d: "dedup_tree env s = Inr (Some (r, SortEqClasses env h4 cs4, h5))"
      and l: "classify_leaves env s r = Inr (cs3, h3)" "leaves_done s cs3 h3"
      and p: "run env (h3, cs3) (h4, cs4)" "grows h3 h4" "listed cs4 h4" "all_evaluated h4" "spans (tc_heap s) r"
      and u: "fractions_set h4 h5 (set (nodes_below h4 r))"
    have spec: "dedup_spec s (SortEqClasses env h4 cs4) h5" by (rule dedup_specI [OF rep l(2) p u])
    have L: "heap_ok h3" "same_tree (tc_heap s) h3" "listed cs3 h3" "\<And>n. class_of h3 n \<noteq> None \<Longrightarrow> leaf h3 n"
      using l(2) unfolding leaves_done_def by blast+
    have "class_of (tc_heap s) = (\<lambda>_. None)" "h_classes (tc_heap s) = Map.empty"
      using rep unfolding tree_rep_def by blast+
    then have "weights_kept env (tc_heap s)"
      using sizes bound by (simp add: weights_kept_def weights_ok_def weight_of_def)
    then have w3: "weights_ok h3"
      using weights.classify_leaves_keeps [OF rep r _ l(1)] unfolding weights_kept_def by blast
    have b3: "h_next_node h3 \<le> 2 ^ 53" using bound same_treeD(4) [OF L(2)] by simp
    have "dirs_found h4"
      using run_found [OF p(1), unfolded fst_conv snd_conv, OF L(1,3) w3 dirs_found_leaves [OF L(4)]
          sizes_ok_same_tree [OF L(2) sizes] b3 tol] by blast
    moreover have core: "same_core h4 h5" using u by (simp add: fractions_set_def)
    note V = same_core_views [OF core]
    have "file_classes h5 = file_classes h4"
      unfolding file_classes_def fun_eq_iff has_file_same_tree [OF V(1)] same_treeD(1) [OF V(1)] V(2) by blast
    ultimately have found: "dirs_found h5" unfolding dirs_found_def V(2) by simp
    have R: "heap_ok h5" "same_tree (tc_heap s) h5" "all_evaluated h5"
      using spec unfolding dedup_spec_def by blast+
    have files: "class_of h5 n = class_of h5 m" if "(ck, n) \<in> set (tc_sum2node s)" "(ck, m) \<in> set (tc_sum2node s)" for ck n m
      using dedup_files_by_cksum [OF rep spec] that unfolding files_by_cksum_def by force
    have "class_of h5 n = class_of h5 m" if "same_files s n m" for n m
      using same_files_class [OF that rep R found] files by blast
    with d spec show ?thesis by blast
  qed blast
qed

end

lemma tree_rep_sizes:
  assumes "tree_rep P s A fs" and "conf_use_size (env_conf env) \<Longrightarrow> \<forall>f \<in> set fs. 1 \<le> fi_size (snd f)"
  shows "sizes_ok env (tc_heap s)"
  using assms(2) tree_rep_file_size [OF assms(1)] unfolding sizes_ok_def by metis

text \<open>C11: Directories that hold the same files end in one class, whatever their names, their empty
  directories and the rest of the tree, and in spite of averaged, rounded and truncated weights:
  on a scanned tree, with a tolerance between 1 and 100 percent and, if sizes are the weights, no
  empty file, duplicate detection puts any two nodes into one class that are files with the same
  checksum, or directories whose children with files are the same in turn. Where siblings have
  different names these are in particular the directories with the same relative paths and checksums
  of files. The only other outcome is the conversion of a
  sum of weights that is too large for \<open>uint64_t\<close>, and only if the steps of the propagation lead to a
  node with a candidate whose distance has such a sum.\<close>

theorem identical_directories_together:
  assumes "unordered_env env" and "tree_rep P s A fs"
    and "1 \<le> conf_tolerable_diff_pct (env_conf env)" and "conf_tolerable_diff_pct (env_conf env) \<le> 100"
    and "conf_use_size (env_conf env) \<Longrightarrow> \<forall>f \<in> set fs. 1 \<le> fi_size (snd f)"
    and "h_next_node (tc_heap s) \<le> 2 ^ 53"
  shows "(\<exists>r cs h. dedup_tree env s = Inr (Some (r, cs, h)) \<and>
      (\<forall>n m. same_files s n m \<longrightarrow> class_of h n = class_of h m) \<and>
      ((\<forall>n. inj_on (name_of (tc_heap s)) (set (children_of (tc_heap s) n))) \<longrightarrow>
        (\<forall>n m. n \<in> dom (h_nodes h) \<longrightarrow> has_file (tc_heap s) n \<longrightarrow> file_below s n = file_below s m \<longrightarrow>
          class_of h n = class_of h m))) \<or>
    (is_overflow (dedup_tree env s) \<and> weights_overflow env s)"
proof -
  have paths: "same_files s n m"
    if "\<forall>n. inj_on (name_of (tc_heap s)) (set (children_of (tc_heap s) n))" "n \<in> dom (h_nodes h)"
      "has_file (tc_heap s) n" "file_below s n = file_below s m" "dedup_spec s cs h" for h cs n m
    using same_paths_same_files [OF assms(2)] that same_treeD(3) unfolding dedup_spec_def by metis
  then show ?thesis
    using unordered_env.dedup_tree_found [OF assms(1,2) tree_rep_sizes [OF assms(2,5)] assms(6)
        tolerance_range [OF assms(3,4)]] by blast
qed

section \<open>Two directories with one file each\<close>

lemma pair_same: "same_files pair_state 1 3"
proof (rule same_files.same_dir)
  have "is_file pair_heap 2" by (simp add: is_file_def pair_state_def pair_node_def)
  then have "has_file pair_heap 2" using has_file_rec [of pair_heap 2] by blast
  then show "has_file pair_heap 1" using has_file_rec [of pair_heap 1] by (simp add: pair_views)
  have "same_files pair_state 2 4" by (rule same_files.same_file [where ck = 7]) (simp_all add: pair_parts)
  then show "\<forall>a \<in> set (children_of pair_heap 1). has_file pair_heap a \<longrightarrow>
      (\<exists>b \<in> set (children_of pair_heap 3). same_files pair_state a b)"
    "\<forall>b \<in> set (children_of pair_heap 3). has_file pair_heap b \<longrightarrow>
      (\<exists>a \<in> set (children_of pair_heap 1). same_files pair_state a b)"
    by (simp_all add: pair_views)
qed (simp_all add: is_file_def pair_state_def pair_node_def)

theorem identical_directories_together_witness:
  "\<exists>r cs h. dedup_tree (insertion_env test_conf) pair_state = Inr (Some (r, cs, h)) \<and> class_of h 1 = class_of h 3"
proof -
  have "\<forall>f \<in> set pair_files. 1 \<le> fi_size (snd f)" by (simp add: pair_files_def)
  moreover have "1 \<le> conf_tolerable_diff_pct (env_conf (insertion_env test_conf))"
    "conf_tolerable_diff_pct (env_conf (insertion_env test_conf)) \<le> 100" by code_simp+
  moreover have "\<not> is_overflow (dedup_tree (insertion_env test_conf) pair_state)"
    by (rule insertion.dedup_tree_defined [OF pair_rep pair_in_range])
  ultimately show ?thesis
    using identical_directories_together [OF insertion.unordered_env_axioms pair_rep, of test_conf] pair_same
    by (auto simp: pair_parts)
qed

end
