(* ===== verification/Sql_Types.thy ===== *)
theory Sql_Types
  imports Cache_Db Dedup_Db Compare_Db
begin

text \<open>
  The types of the tables (the CREATE TABLE scripts in src/src/hash_cache.cpp and src/src/db_output.cpp)
  and the C++ types of the prepared statements, the template arguments of \<open>Prepare\<close>. SQLite does not
  check the types of columns, so that a table holds what it should only if every statement is given
  values of the right types. The keys and the foreign key are part of the schema.
\<close>

section \<open>The schema\<close>

text \<open>The columns of a table: their types, and whether they may be NULL.\<close>

type_synonym column = "coltype \<times> bool"

definition file_list_columns :: "column list" where
  "file_list_columns = [(StringCol, False), (IntCol, False), (IntCol, False), (IntCol, False)]"

definition eq_class_columns :: "column list" where
  "eq_class_columns = [(IntCol, False), (IntCol, False), (DoubleCol, False), (IntCol, False)]"

definition node_columns :: "column list" where
  "node_columns =
     [(IntCol, False), (StringCol, False), (StringCol, False), (StringCol, False), (IntCol, True), (DoubleCol, False),
      (IntCol, False)]"

fun comparison_columns :: "table \<Rightarrow> column list" where
  "comparison_columns RemovedTable = [(StringCol, False)]"
| "comparison_columns NewFileTable = [(StringCol, False)]"
| "comparison_columns ContentChangedTable = [(StringCol, False)]"
| "comparison_columns OverwrittenByTable = [(StringCol, False), (StringCol, False)]"
| "comparison_columns CopiedFromTable = [(StringCol, False), (StringCol, False)]"
| "comparison_columns RenameToTable = [(StringCol, False), (StringCol, False)]"
| "comparison_columns t = []"

fun columns :: "table \<Rightarrow> column list" where
  "columns FileList = file_list_columns"
| "columns EqClassTable = eq_class_columns"
| "columns NodeTable = node_columns"
| "columns t = comparison_columns t"

lemmas columns_defs = file_list_columns_def eq_class_columns_def node_columns_def

fun value_conforms :: "sql_value \<Rightarrow> coltype \<times> bool \<Rightarrow> bool" where
  "value_conforms SqlNull (t, nullable) \<longleftrightarrow> nullable"
| "value_conforms (SqlInt x) (t, nullable) \<longleftrightarrow> t = IntCol \<and> int64 x"
| "value_conforms (SqlReal x) (t, nullable) \<longleftrightarrow> t = DoubleCol"
| "value_conforms (SqlText s) (t, nullable) \<longleftrightarrow> t = StringCol"

definition row_conforms :: "table \<Rightarrow> sql_value list \<Rightarrow> bool" where
  "row_conforms t row \<longleftrightarrow> list_all2 value_conforms row (columns t)"

definition keys_ok :: "table \<Rightarrow> sql_value list list \<Rightarrow> bool" where
  "keys_ok t rows \<longleftrightarrow> (unique_first t \<longrightarrow> distinct (map hd rows))"

definition classes_exist :: "tables \<Rightarrow> bool" where
  "classes_exist T \<longleftrightarrow> (\<forall>nodes. T NodeTable = Some nodes \<longrightarrow>
     (\<exists>cs. T EqClassTable = Some cs \<and> (\<forall>row \<in> set nodes. last row \<in> hd ` set cs)))"

definition schema_ok :: "database \<Rightarrow> bool" where
  "schema_ok D \<longleftrightarrow>
     (\<forall>t rows. fst D t = Some rows \<longrightarrow> list_all (row_conforms t) rows \<and> keys_ok t rows) \<and> classes_exist (fst D)"

section \<open>The C++ types of the statements\<close>

definition file_list_params :: "(string \<times> coltype list) list" where
  "file_list_params = [(create_file_list, []), (insert_file, [StringCol, IntCol, IntCol, IntCol])]"

definition results_params :: "(string \<times> coltype list) list" where
  "results_params =
     [(create_results, []), (mark_interesting, [IntCol]), (insert_class, [IntCol, IntCol, DoubleCol]),
      (insert_node, [IntCol, StringCol, StringCol, StringCol, DoubleCol, IntCol])]"

definition comparison_params :: "(string \<times> coltype list) list" where
  "comparison_params =
     [(create_comparison, []), (insert_removed, [StringCol]), (insert_new_file, [StringCol]),
      (insert_content_changed, [StringCol]), (insert_overwritten_by, [StringCol, StringCol]),
      (insert_copied_from, [StringCol, StringCol]), (insert_rename_to, [StringCol, StringCol])]"

definition param_types :: "(string \<times> coltype list) list" where
  "param_types = [(begin_sql, []), (commit_sql, []), (connection_pragmas, [])] @
     file_list_params @ results_params @ comparison_params"

lemmas param_types_defs = param_types_def file_list_params_def results_params_def comparison_params_def

text \<open>What the program writes has these types.\<close>

lemma file_fields_typed: "list_all2 has_type (file_fields e) [StringCol, IntCol, IntCol, IntCol]"
  by (simp add: file_fields_def)

lemma class_fields_typed: "class_fields at_class h c = Inr fs \<Longrightarrow> list_all2 has_type fs [IntCol, IntCol, DoubleCol]"
  by (auto simp: class_fields_def deref_def split: option.splits)

lemma node_fields_typed:
  "node_fields P at_class at_node h n = Inr fs \<Longrightarrow>
    list_all2 has_type fs [IntCol, StringCol, StringCol, StringCol, DoubleCol, IntCol]"
  by (auto simp: node_fields_def deref_def res_simps split: option.splits)

lemma bound_conforms: "has_type v t \<Longrightarrow> value_conforms (bind_value v) (t, nullable)"
  using sint_range_size [where 'a = 64] by (cases v) (auto simp: int64_def word_size)

lemma has_type_cols: "list_all2 has_type vs ts \<Longrightarrow> list_all2 value_conforms (map bind_value vs) (map (\<lambda>t. (t, False)) ts)"
  by (induction vs ts rule: list_all2_induct) (auto intro: bound_conforms)

section \<open>Every statement keeps the schema\<close>

lemma insert_row_schema:
  assumes "schema_ok (T, b)" and "row_conforms t row" and "insert_row t row T = Some T'"
  shows "schema_ok (T', b)"
proof -
  obtain rows where rows: "T t = Some rows" "T' = T(t \<mapsto> rows @ [row])" "\<not> (unique_first t \<and> hd row \<in> hd ` set rows)"
    "references_ok t row T"
    using assms(3) by (auto simp: insert_row_def split: option.splits if_splits)
  have "classes_exist T'"
    using assms(1) rows unfolding schema_ok_def classes_exist_def references_ok_def by (auto split: if_splits)
  then show ?thesis using assms(1,2) rows unfolding schema_ok_def keys_ok_def by auto
qed

lemma mark_row_conforms: "row_conforms EqClassTable row \<Longrightarrow> row_conforms EqClassTable (mark_row v row)"
  by (auto simp: row_conforms_def columns_defs mark_row_def int64_def list_all2_Cons2 list_all2_Nil2)

lemma mark_row_hd: "row_conforms EqClassTable row \<Longrightarrow> hd (mark_row v row) = hd row"
  by (auto simp: row_conforms_def columns_defs mark_row_def list_all2_Cons2 list_all2_Nil2)

lemma mark_schema:
  assumes "schema_ok (T, b)" and "T EqClassTable = Some rows"
  shows "schema_ok (T(EqClassTable \<mapsto> map (mark_row v) rows), b)"
proof -
  have r: "list_all (row_conforms EqClassTable) rows" "keys_ok EqClassTable rows"
    using assms unfolding schema_ok_def by simp_all
  have hd: "map hd (map (mark_row v) rows) = map hd rows"
    using r(1) mark_row_hd by (simp add: list_all_iff)
  have ids: "hd ` set (map (mark_row v) rows) = hd ` set rows" unfolding set_map [symmetric] hd ..
  have "list_all (row_conforms EqClassTable) (map (mark_row v) rows)" "keys_ok EqClassTable (map (mark_row v) rows)"
    using r mark_row_conforms unfolding keys_ok_def hd by (simp_all add: list_all_iff)
  moreover have "classes_exist (T(EqClassTable \<mapsto> map (mark_row v) rows))"
    using assms unfolding schema_ok_def classes_exist_def by (simp add: ids del: set_map)
  ultimately show ?thesis using assms(1) unfolding schema_ok_def by simp
qed

lemma create_schema:
  assumes "schema_ok (T, b)" and "EqClassTable \<in> set ts \<longrightarrow> NodeTable \<in> set ts" and "NodeTable \<in> set ts \<longrightarrow> EqClassTable \<in> set ts"
  shows "schema_ok (\<lambda>t. if t \<in> set ts then Some [] else T t, b)"
  using assms unfolding schema_ok_def classes_exist_def keys_ok_def by auto

text \<open>The rows the parameters give have the types of the tables.\<close>

lemma new_row_conforms:
  assumes "map_of param_types sql = Some ts" and "statement_of sql = Some (Insert t)" and "list_all2 has_type vs ts"
  shows "row_conforms t (new_row t (map bind_value vs))"
proof -
  have b: "value_conforms (bind_value v) (c, False)" if "has_type v c" for v c by (rule bound_conforms [OF that])
  have "(sql, ts) \<in> set param_types" using assms(1) by (rule map_of_SomeD)
  then show ?thesis
    using assms(2,3) b unfolding param_types_defs row_conforms_def
    by (auto simp: list_all2_Cons2 int64_def columns_defs)
qed

lemma param_types_params: "map_of param_types sql = Some ts \<Longrightarrow> sql_params sql = Some (length ts)"
  by (drule map_of_SomeD) (auto simp: param_types_defs)

lemma param_types_no_query: "map_of param_types sql = Some ts \<Longrightarrow> statement_of sql \<noteq> Some SelectFiles"
  by (drule map_of_SomeD) (auto simp: param_types_defs)

lemma created_tables:
  "map_of param_types sql = Some ts \<Longrightarrow> statement_of sql = Some (Create ts') \<Longrightarrow> EqClassTable \<in> set ts' \<longleftrightarrow> NodeTable \<in> set ts'"
  by (drule map_of_SomeD) (auto simp: param_types_defs)

lemma effect_schema:
  assumes "map_of param_types sql = Some ts" and "list_all2 has_type vs ts" and "schema_ok D"
    and "sql_effect sql (map bind_value vs) D = Some D'"
  shows "schema_ok D'"
proof -
  obtain T b where D: "D = (T, b)" by (cases D)
  have flag: "schema_ok (T, b')" for b' using assms(3) D by (simp add: schema_ok_def)
  obtain s where s: "statement_of sql = Some s" "statement_effect s (map bind_value vs) (T, b) = Some D'"
    using assms(4) D by (auto simp: sql_effect_def bind_eq_Some_conv)
  show ?thesis
  proof (cases s)
    case (Create ts')
    then show ?thesis using s create_schema [OF flag] created_tables [OF assms(1)] by auto
  next
    case (Insert t)
    then show ?thesis using s insert_row_schema [OF flag new_row_conforms [OF assms(1) _ assms(2)]] by auto
  next
    case MarkInteresting
    then show ?thesis using s mark_schema [OF flag] by auto
  qed (use s flag in \<open>auto split: if_splits\<close>)
qed

context dupa_sqlite
begin

lemma Write_schema:
  assumes "map_of param_types sql = Some ts" and "list_all2 has_type args ts" and "ready st sql []"
    and "schema_ok (content db)" and "Write A args st db = (Inr st', db')"
  shows "schema_ok (content db')"
proof -
  have params: "sql_params sql = Some (length args)"
    using param_types_params [OF assms(1)] assms(2) by (simp add: list_all2_lengthD)
  show ?thesis
  proof (cases "sql_effect sql (map bind_value args) (content db)")
    case (Some c)
    from Write_ok [OF assms(3) params Some] assms(5) have "content db' = c" by auto
    then show ?thesis using effect_schema [OF assms(1,2,4) Some] by simp
  next
    case None
    have "sql_params sql = Some (length ([] :: sql_value list) + length args)" using params by simp
    from BindImpl_ok [OF assms(3) this] obtain s1 where
      s1: "BindImpl A 1 args st = Inr s1" "ready s1 sql (map bind_value args)" by auto
    have "sql_params sql = Some (length (map bind_value args))" using params by simp
    from step_fails [OF s1(2) this no_rows [OF param_types_no_query [OF assms(1)]] None] s1(1) assms(5)
    show ?thesis by (auto simp: Write_def Let_def split: prod.splits if_splits)
  qed
qed

lemma Exec_schema:
  assumes "map_of param_types sql = Some []" and "schema_ok (content db)" and "Exec A sql db = (Inr (), db')"
  shows "schema_ok (content db')"
proof (cases "sql_effect sql [] (content db)")
  case (Some c)
  from Exec_ok [OF this] assms(3) have "content db' = c" by auto
  then show ?thesis using effect_schema [OF assms(1) _ assms(2)] Some by fastforce
next
  case None
  have "sql_params sql = Some 0" using param_types_params [OF assms(1)] by simp
  from exec_fails [OF this no_rows [OF param_types_no_query [OF assms(1)]] None] assms(3)
  show ?thesis by (auto simp: Exec_def split: prod.splits if_splits)
qed

text \<open>The rows of a table of the right types unpack to fields.\<close>

lemma typed_row_stored:
  assumes "row_conforms FileList row"
  shows "\<exists>fs. row_stored file_list_types row fs"
proof -
  have "\<exists>f. stored v t f" if "value_conforms v (t, False)" for v t using that by (cases v) auto
  then have "list_all2 value_conforms row (map (\<lambda>t. (t, False)) ts) \<Longrightarrow> \<exists>fs. row_stored ts row fs" for row ts
  proof (induction ts arbitrary: row)
    case Nil
    then show ?case by (intro exI [of _ "[]"]) simp
  next
    case (Cons t ts)
    then obtain v row' where row: "row = v # row'" "value_conforms v (t, False)" "list_all2 value_conforms row' (map (\<lambda>t. (t, False)) ts)"
      by (auto simp: list_all2_Cons2)
    with Cons obtain f fs where "stored v t f" "row_stored ts row' fs" by metis
    then have "row_stored (t # ts) row (f # fs)" by (simp add: row(1))
    then show ?case by blast
  qed
  then show ?thesis using assms by (simp add: row_conforms_def columns_defs file_list_types_def)
qed

lemma typed_cache_read:
  assumes "open_db path = (SQLITE_OK, db)" and "fst (content db) FileList = Some rows" and "schema_ok (content db)"
    and "Suc (length rows) < k"
  shows "\<exists>cache. ReadCacheFromDb (file_list_rows k A open_db) path = Inr cache"
proof -
  from new_DBConnection_ok [where open_db = open_db and path = path, OF assms(1)] obtain db1 where
    conn: "new_DBConnection A open_db path = Inr db1" "content db1 = content db" by blast
  from select_rows assms(2) conn(2) obtain rs where rs: "result_rows select_files (content db1) = Some rs" "mset rs = mset rows"
    by metis
  have "list_all (row_conforms FileList) rows" using assms(2,3) by (simp add: schema_ok_def)
  then have "\<forall>row \<in> set rs. \<exists>fs. row_stored file_list_types row fs"
    using typed_row_stored mset_eq_setD [OF rs(2)] by (simp add: list_all_iff)
  then obtain f where "\<forall>row \<in> set rs. row_stored file_list_types row (f row)" by metis
  then have typed: "list_all2 (row_stored file_list_types) rs (map f rs)"
    by (simp add: list.rel_map list.rel_refl_strong)
  have "sql_valid select_files (content db1)" using assms(2) conn(2) by (auto simp: sql_valid_def)
  from for_query_ok [OF _ this rs(1) typed, where k = k] mset_eq_length [OF rs(2)] assms(4)
  have "\<exists>x db2. for_query k A file_list_types select_files (\<lambda>fs rows. rows @ [row_of_fields fs]) [] db1 = (Inr x, db2)"
    by fastforce
  then show ?thesis using conn(1) by (auto simp: ReadCacheFromDb_def file_list_rows_def)
qed

end

text \<open>C32: The types of the program fit the types of its tables. Starting from a database whose tables
  have the declared columns, unique keys and existing classes, every script, and every write of values
  of the C++ types of a prepared statement, leaves such a database, if SQLite accepts it at all. Reading
  the cache from such a database never fails; in particular it never makes a string of a NULL.\<close>

theorem schema_preserved:
  assumes "dupa_sqlite A db_content result_rows is_ready is_finished is_pending" and "schema_ok (db_content db)"
  shows "(\<forall>sql ts args st st' db'. map_of param_types sql = Some ts \<longrightarrow> list_all2 has_type args ts \<longrightarrow> is_ready st sql [] \<longrightarrow>
      Write A args st db = (Inr st', db') \<longrightarrow> schema_ok (db_content db')) \<and>
    (\<forall>sql db'. map_of param_types sql = Some [] \<longrightarrow> Exec A sql db = (Inr (), db') \<longrightarrow> schema_ok (db_content db')) \<and>
    (\<forall>open_db path rows k. open_db path = (SQLITE_OK, db) \<longrightarrow> fst (db_content db) FileList = Some rows \<longrightarrow>
      Suc (length rows) < k \<longrightarrow> (\<exists>cache. ReadCacheFromDb (file_list_rows k A open_db) path = Inr cache))"
  using dupa_sqlite.Write_schema [OF assms(1) _ _ _ assms(2)] dupa_sqlite.Exec_schema [OF assms(1) _ assms(2)]
    dupa_sqlite.typed_cache_read [OF assms(1) _ _ assms(2)] by blast

theorem schema_preserved_witness:
  "\<exists>st D. Write mem_api (file_fields (''/d/a'', \<lparr>fi_size = 2, fi_mtime = 5, fi_sum = 9\<rparr>))
      (snd (sq_prepare mem_api insert_file ([FileList \<mapsto> []], False))) ([FileList \<mapsto> []], False) = (Inr st, D) \<and>
    schema_ok D"
proof -
  let ?D = "([FileList \<mapsto> []], False)" and ?e = "(''/d/a'', \<lparr>fi_size = 2, fi_mtime = 5, fi_sum = 9\<rparr>)"
  let ?st = "snd (sq_prepare mem_api insert_file ?D)"
  have D: "schema_ok ?D" by (simp add: schema_ok_def classes_exist_def keys_ok_def)
  have ready: "mem_ready ?st insert_file []" by (simp add: mem_api_def mem_ready_def)
  have types: "map_of param_types insert_file = Some [StringCol, IntCol, IntCol, IntCol]" by code_simp
  have "sql_effect insert_file (map bind_value (file_fields ?e)) ?D = Some ([FileList \<mapsto> [map bind_value (file_fields ?e)]], False)"
    by (simp add: sql_effect_def insert_row_def references_ok_def)
  from mem.Write_ok [OF ready _ this] obtain st D' where w: "Write mem_api (file_fields ?e) ?st ?D = (Inr st, D')"
    by (auto simp: file_fields_def)
  from schema_preserved [OF mem.dupa_sqlite_axioms D, THEN conjunct1, rule_format, OF types file_fields_typed ready w] w
  show ?thesis by blast
qed

end
