(* ===== verification/Sql_Handles.thy ===== *)
theory Sql_Handles
  imports Cache_Db Dedup_Db Compare_Db
begin

text \<open>
  The lifetime of SQLite's objects (src/src/db_lib.h, src/src/db_lib.cpp): a connection may only be closed
  when every statement prepared on it is finalised. The statements are owned by the streams; here the
  scopes of the code are written out with the destructors that run at their ends.
\<close>

section \<open>Connections with their statements\<close>

text \<open>A connection with the statements that are prepared on it and not finalised; \<open>cn_next\<close> is a handle
  that was never used.\<close>

record 'db connection =
  cn_db :: 'db
  cn_stmts :: "nat set"
  cn_next :: nat

definition stmts_ok :: "'db connection \<Rightarrow> bool" where
  "stmts_ok c \<longleftrightarrow> (\<forall>h \<in> cn_stmts c. h < cn_next c)"

text \<open>An operation that neither prepares nor finalises a statement.\<close>

definition on_db :: "('a, 'db) dbm \<Rightarrow> ('a, 'db connection) dbm" where
  "on_db m c = (case m (cn_db c) of (r, db) \<Rightarrow> (r, c\<lparr>cn_db := db\<rparr>))"

text \<open>\<open>PrepareStmt\<close> returns a \<open>StmtPtr\<close>, here the handle and the statement; without success there is no
  statement.\<close>

definition new_StmtPtr :: "('db, 'stmt) sqlite_api \<Rightarrow> string \<Rightarrow> (nat \<times> 'stmt, 'db connection) dbm" where
  "new_StmtPtr A sql c =
     (case PrepareStmt A sql (cn_db c) of
        (Inl e, db) \<Rightarrow> (Inl e, c\<lparr>cn_db := db\<rparr>)
      | (Inr stmt, db) \<Rightarrow>
          (Inr (cn_next c, stmt),
           \<lparr>cn_db = db, cn_stmts = insert (cn_next c) (cn_stmts c), cn_next = Suc (cn_next c)\<rparr>))"

text \<open>\<open>SqliteFinalizer\<close>, which \<open>unique_ptr\<close> calls if the statement has not been finalised by \<open>reset\<close>.\<close>

definition delete_StmtPtr :: "nat \<Rightarrow> 'db connection \<Rightarrow> 'db connection" where
  "delete_StmtPtr h c = c\<lparr>cn_stmts := cn_stmts c - {h}\<rparr>"

text \<open>A block with a local stream on a statement, which is destroyed at its end, also after an exception.\<close>

definition with_stmt ::
  "('db, 'stmt) sqlite_api \<Rightarrow> string \<Rightarrow> ('stmt \<Rightarrow> ('a, 'db connection) dbm) \<Rightarrow> ('a, 'db connection) dbm" where
  "with_stmt A sql block =
     dbind (new_StmtPtr A sql) (\<lambda>(h, stmt) c. case block stmt c of (r, c') \<Rightarrow> (r, delete_StmtPtr h c'))"

text \<open>A block with a local transaction; \<open>Commit\<close> is called inside, while the streams still exist.\<close>

definition with_transaction ::
  "('db, 'stmt) sqlite_api \<Rightarrow> ((unit, 'db connection) dbm \<Rightarrow> (unit, 'db connection) dbm) \<Rightarrow>
   (unit, 'db connection) dbm" where
  "with_transaction A block =
     dbind (on_db (new_DBTransaction A)) (\<lambda>ongoing c.
       case block (dbind (on_db (Commit A)) (\<lambda>_. dreturn ())) c of
         (Inr x, c') \<Rightarrow> (Inr x, c')
       | (Inl e, c') \<Rightarrow> dbind (on_db (delete_DBTransaction A ongoing)) (\<lambda>_. dthrow e) c')"

text \<open>The destructor of a connection: what it logs, if \<open>sqlite3_close\<close> refuses.\<close>

definition delete_DBConnection ::
  "('db, 'stmt) sqlite_api \<Rightarrow> ('db connection \<Rightarrow> int) \<Rightarrow> ('db \<Rightarrow> string) \<Rightarrow> 'db connection \<Rightarrow> string option" where
  "delete_DBConnection A close filename c =
     (let code = close c in
      if code \<noteq> SQLITE_OK
      then Some (''Clsoing DB '' @ filename (cn_db c) @ ''failed with code '' @ to_string_int code @ ''('' @
        sq_errstr A code @ ''), ignoring'')
      else None)"

section \<open>The code that uses connections\<close>

text \<open>The range-based \<open>for\<close> over a query: the stream lives until the loop ends.\<close>

definition held_for_query ::
  "nat \<Rightarrow> ('db, 'stmt) sqlite_api \<Rightarrow> coltype list \<Rightarrow> string \<Rightarrow> (field list \<Rightarrow> 'a \<Rightarrow> 'a) \<Rightarrow> 'a \<Rightarrow>
   ('a, 'db connection) dbm" where
  "held_for_query k A ts sql body acc =
     with_stmt A sql (\<lambda>stmt. on_db (
       dbind (Fetch A ts \<lparr>is_stmt = Some stmt, is_next_row = None\<rparr>) (\<lambda>s.
       dbind (it_begin A ts s) (\<lambda>st. for_rows k A ts body st acc))))"

definition held_StoreCksums ::
  "('db, 'stmt) sqlite_api \<Rightarrow> (string \<times> FileInfo) list \<Rightarrow> (unit, 'db connection) dbm" where
  "held_StoreCksums A cache =
     dbind (on_db (CreateOrEmptyTable A)) (\<lambda>_.
       with_transaction A (\<lambda>commit.
         with_stmt A insert_file (\<lambda>out.
           dbind (on_db (transform_to A file_fields cache out)) (\<lambda>_. commit))))"

definition held_DumpInterestingEqClasses ::
  "('db, 'stmt) sqlite_api \<Rightarrow> (cid \<Rightarrow> 64 word) \<Rightarrow> cid list \<Rightarrow> (unit, 'db connection) dbm" where
  "held_DumpInterestingEqClasses A at_class eq_classes =
     with_transaction A (\<lambda>commit.
       with_stmt A mark_interesting (\<lambda>out.
         dbind (on_db (transform_to A (\<lambda>c. [IntField (at_class c)]) eq_classes out)) (\<lambda>_. commit)))"

definition held_DumpFuzzyDedupRes ::
  "('db, 'stmt) sqlite_api \<Rightarrow> 'p path_api \<Rightarrow> (cid \<Rightarrow> 64 word) \<Rightarrow> (nid \<Rightarrow> 64 word) \<Rightarrow>
   nid \<Rightarrow> cid list \<Rightarrow> heap \<Rightarrow> (unit, 'db connection) dbm" where
  "held_DumpFuzzyDedupRes A P at_class at_node root_node eq_classes h =
     with_transaction A (\<lambda>commit.
       with_stmt A insert_class (\<lambda>class_out.
         dbind (on_db (dfold (\<lambda>c. write_fields A (class_fields at_class h c)) eq_classes class_out)) (\<lambda>_.
         with_stmt A insert_node (\<lambda>node_out.
           dbind (on_db (Traverse_const (Suc (h_next_node h)) h
             (\<lambda>n. write_fields A (node_fields P at_class at_node h n)) root_node node_out)) (\<lambda>_. commit)))))"

text \<open>The members of \<open>DirCompDBStream\<close>, last one first; when one cannot be prepared, those before it are
  destroyed, last one first.\<close>

fun new_members ::
  "('db, 'stmt) sqlite_api \<Rightarrow> string list \<Rightarrow> (nat \<times> 'stmt) list \<Rightarrow> ((nat \<times> 'stmt) list, 'db connection) dbm" where
  "new_members A [] ms c = (Inr ms, c)"
| "new_members A (sql # sqls) ms c =
     (case new_StmtPtr A sql c of
        (Inl e, c') \<Rightarrow> (Inl e, fold delete_StmtPtr (map fst ms) c')
      | (Inr m, c') \<Rightarrow> new_members A sqls (m # ms) c')"

definition held_DirCompDBStream ::
  "('db, 'stmt) sqlite_api \<Rightarrow> (bool \<times> (nat \<times> 'stmt) list, 'db connection) dbm" where
  "held_DirCompDBStream A =
     dbind (on_db (new_DBTransaction A)) (\<lambda>ongoing c.
       case dbind (on_db (Exec A create_comparison)) (\<lambda>_.
           new_members A [insert_removed, insert_new_file, insert_content_changed, insert_overwritten_by,
             insert_copied_from, insert_rename_to] []) c of
         (Inr ms, c') \<Rightarrow> (Inr (ongoing, ms), c')
       | (Inl e, c') \<Rightarrow> dbind (on_db (delete_DBTransaction A ongoing)) (\<lambda>_. dthrow e) c')"

text \<open>The destructor: the statements, last one first, and then the transaction.\<close>

definition delete_held_DirCompDBStream ::
  "('db, 'stmt) sqlite_api \<Rightarrow> bool \<Rightarrow> (nat \<times> 'stmt) list \<Rightarrow> (unit, 'db connection) dbm" where
  "delete_held_DirCompDBStream A ongoing ms c =
     on_db (delete_DBTransaction A ongoing) (fold delete_StmtPtr (map fst ms) c)"

section \<open>Statements do not outlive their blocks\<close>

text \<open>An operation does what the plain one does to the database, and leaves the statements as they were.\<close>

definition runs_as :: "('a, 'db connection) dbm \<Rightarrow> ('a, 'db) dbm \<Rightarrow> bool" where
  "runs_as m' m \<longleftrightarrow>
     (\<forall>c. stmts_ok c \<longrightarrow> (\<exists>r c'. m' c = (r, c') \<and> m (cn_db c) = (r, cn_db c') \<and>
        cn_stmts c' = cn_stmts c \<and> cn_next c \<le> cn_next c'))"

lemma runs_asE:
  assumes "runs_as m' m" and "stmts_ok c"
  obtains r c' where "m' c = (r, c')" "m (cn_db c) = (r, cn_db c')" "cn_stmts c' = cn_stmts c"
    "cn_next c \<le> cn_next c'" "stmts_ok c'"
proof -
  obtain r c' where c: "m' c = (r, c')" "m (cn_db c) = (r, cn_db c')" "cn_stmts c' = cn_stmts c" "cn_next c \<le> cn_next c'"
    using assms unfolding runs_as_def by blast
  moreover have "stmts_ok c'" using assms(2) c(3,4) unfolding stmts_ok_def by fastforce
  ultimately show ?thesis by (rule that)
qed

named_theorems block_intros

lemma on_db_runs [block_intros]: "runs_as (on_db m) m"
  by (simp add: runs_as_def on_db_def split: prod.split)

lemma dreturn_runs [block_intros]: "runs_as (dreturn x) (dreturn x)"
  by (simp add: runs_as_def dreturn_def)

lemma dthrow_runs [block_intros]: "runs_as (dthrow e) (dthrow e)"
  by (simp add: runs_as_def dthrow_def)

lemma dbind_runs [block_intros]:
  assumes "runs_as m' m" and "\<And>x. runs_as (f' x) (f x)"
  shows "runs_as (dbind m' f') (dbind m f)"
  unfolding runs_as_def
proof (intro allI impI)
  fix c :: "'a connection" assume "stmts_ok c"
  with assms(1) obtain r c' where c: "m' c = (r, c')" "m (cn_db c) = (r, cn_db c')" "cn_stmts c' = cn_stmts c"
    "cn_next c \<le> cn_next c'" "stmts_ok c'" by (rule runs_asE)
  show "\<exists>r c'. dbind m' f' c = (r, c') \<and> dbind m f (cn_db c) = (r, cn_db c') \<and> cn_stmts c' = cn_stmts c \<and>
      cn_next c \<le> cn_next c'"
  proof (cases r)
    case (Inr x)
    from assms(2) [of x] c(5) obtain r2 c2 where "f' x c' = (r2, c2)" "f x (cn_db c') = (r2, cn_db c2)"
      "cn_stmts c2 = cn_stmts c'" "cn_next c' \<le> cn_next c2" by (rule runs_asE)
    with c Inr show ?thesis by simp
  qed (use c in simp)
qed

lemma new_StmtPtr_cases:
  assumes "stmts_ok c"
  obtains (none) e c' where "new_StmtPtr A sql c = (Inl e, c')" "PrepareStmt A sql (cn_db c) = (Inl e, cn_db c')"
      "cn_stmts c' = cn_stmts c" "cn_next c' = cn_next c"
    | (some) h stmt c' where "new_StmtPtr A sql c = (Inr (h, stmt), c')"
      "PrepareStmt A sql (cn_db c) = (Inr stmt, cn_db c')" "cn_stmts c' = insert h (cn_stmts c)" "h \<notin> cn_stmts c"
      "cn_next c < cn_next c'" "stmts_ok c'"
proof (cases "PrepareStmt A sql (cn_db c)")
  case (Pair r db)
  show ?thesis
  proof (cases r)
    case (Inl e)
    with Pair show ?thesis by (intro none [of e "c\<lparr>cn_db := db\<rparr>"]) (simp_all add: new_StmtPtr_def)
  next
    case (Inr stmt)
    let ?c = "\<lparr>cn_db = db, cn_stmts = insert (cn_next c) (cn_stmts c), cn_next = Suc (cn_next c)\<rparr>"
    from Pair Inr assms show ?thesis
      by (intro some [of "cn_next c" stmt ?c]) (auto simp: new_StmtPtr_def stmts_ok_def)
  qed
qed

lemma with_stmt_runs [block_intros]:
  assumes "\<And>stmt. runs_as (block' stmt) (block stmt)"
  shows "runs_as (with_stmt A sql block') (dbind (PrepareStmt A sql) block)"
  unfolding runs_as_def
proof (intro allI impI)
  fix c :: "'b connection" assume ok: "stmts_ok c"
  then show "\<exists>r c'. with_stmt A sql block' c = (r, c') \<and> dbind (PrepareStmt A sql) block (cn_db c) = (r, cn_db c') \<and>
      cn_stmts c' = cn_stmts c \<and> cn_next c \<le> cn_next c'"
  proof (cases rule: new_StmtPtr_cases [of c A sql])
    case none
    then show ?thesis by (simp add: with_stmt_def)
  next
    case (some h stmt c1)
    from assms [of stmt] some(6) obtain r c2 where "block' stmt c1 = (r, c2)" "block stmt (cn_db c1) = (r, cn_db c2)"
      "cn_stmts c2 = cn_stmts c1" "cn_next c1 \<le> cn_next c2" by (rule runs_asE)
    with some show ?thesis by (simp add: with_stmt_def delete_StmtPtr_def)
  qed
qed

lemma with_transaction_runs:
  assumes "runs_as (block (dbind (on_db (Commit A)) (\<lambda>_. dreturn ()))) (dbind body (\<lambda>_. dbind (Commit A) (\<lambda>_. dreturn ())))"
  shows "runs_as (with_transaction A block) (transaction A body)"
  unfolding with_transaction_def transaction_def
proof (rule dbind_runs [OF on_db_runs])
  fix ongoing
  let ?commit = "dbind (on_db (Commit A)) (\<lambda>_. dreturn ())"
  have undo: "runs_as (dbind (on_db (delete_DBTransaction A ongoing)) (\<lambda>_. dthrow e) :: (unit, _) dbm)
      (dbind (delete_DBTransaction A ongoing) (\<lambda>_. dthrow e))" for e
    by (intro block_intros)
  show "runs_as
      (\<lambda>c. case block ?commit c of (Inr x, c') \<Rightarrow> (Inr x, c')
        | (Inl e, c') \<Rightarrow> dbind (on_db (delete_DBTransaction A ongoing)) (\<lambda>_. dthrow e) c')
      (\<lambda>db. case dbind body (\<lambda>x. dbind (Commit A) (\<lambda>_. dreturn x)) db of (Inr x, db') \<Rightarrow> (Inr x, db')
        | (Inl e, db') \<Rightarrow> dbind (delete_DBTransaction A ongoing) (\<lambda>_. dthrow e) db')"
    unfolding runs_as_def
  proof (intro allI impI)
    fix c :: "'a connection" assume "stmts_ok c"
    with assms obtain r c1 where c: "block ?commit c = (r, c1)"
      "dbind body (\<lambda>_. dbind (Commit A) (\<lambda>_. dreturn ())) (cn_db c) = (r, cn_db c1)" "cn_stmts c1 = cn_stmts c"
      "cn_next c \<le> cn_next c1" "stmts_ok c1" by (rule runs_asE)
    show "\<exists>r c'. (case block ?commit c of (Inr x, c') \<Rightarrow> (Inr x, c')
          | (Inl e, c') \<Rightarrow> dbind (on_db (delete_DBTransaction A ongoing)) (\<lambda>_. dthrow e) c') = (r, c') \<and>
        (case dbind body (\<lambda>x. dbind (Commit A) (\<lambda>_. dreturn x)) (cn_db c) of (Inr x, db') \<Rightarrow> (Inr x, db')
          | (Inl e, db') \<Rightarrow> dbind (delete_DBTransaction A ongoing) (\<lambda>_. dthrow e) db') = (r, cn_db c') \<and>
        cn_stmts c' = cn_stmts c \<and> cn_next c \<le> cn_next c'"
    proof (cases r)
      case (Inl e)
      from undo [of e] c(5) obtain r2 :: "unit res" and c2 where
        "dbind (on_db (delete_DBTransaction A ongoing)) (\<lambda>_. dthrow e) c1 = (r2, c2)"
        "dbind (delete_DBTransaction A ongoing) (\<lambda>_. dthrow e) (cn_db c1) = (r2, cn_db c2)"
        "cn_stmts c2 = cn_stmts c1" "cn_next c1 \<le> cn_next c2" by (rule runs_asE)
      with c Inl show ?thesis by simp
    qed (use c in simp)
  qed
qed

section \<open>The code\<close>

lemma dbind_dreturn: "dbind (dreturn x) f = f x" "dbind m (\<lambda>x. dreturn x) = m"
  by (rule ext, simp add: dbind_def dreturn_def split: prod.split sum.split)+

lemmas plain_blocks = Prepare_def dbind_assoc dbind_dreturn

lemma held_for_query_runs [block_intros]: "runs_as (held_for_query k A ts sql body acc) (for_query k A ts sql body acc)"
  unfolding held_for_query_def for_query_def Query_def dbind_assoc by (intro block_intros)

lemma held_StoreCksums_runs [block_intros]: "runs_as (held_StoreCksums A cache) (StoreCksums_db A True cache)"
  unfolding held_StoreCksums_def StoreCksums_db_def if_False not_True_eq_False
  by (intro dbind_runs with_transaction_runs on_db_runs, unfold plain_blocks, intro block_intros)

lemma held_DumpInterestingEqClasses_runs [block_intros]:
  "runs_as (held_DumpInterestingEqClasses A at_class eq_classes) (DumpInterestingEqClasses A at_class eq_classes)"
  unfolding held_DumpInterestingEqClasses_def DumpInterestingEqClasses_def
  by (intro with_transaction_runs, unfold plain_blocks, intro block_intros)

lemma held_DumpFuzzyDedupRes_runs [block_intros]:
  "runs_as (held_DumpFuzzyDedupRes A P at_class at_node r cs h) (DumpFuzzyDedupRes A P at_class at_node r cs h)"
  unfolding held_DumpFuzzyDedupRes_def DumpFuzzyDedupRes_def
  by (intro with_transaction_runs, unfold plain_blocks, intro block_intros)

text \<open>Members of a class.\<close>

fun prepare_all :: "('db, 'stmt) sqlite_api \<Rightarrow> string list \<Rightarrow> 'stmt list \<Rightarrow> ('stmt list, 'db) dbm" where
  "prepare_all A [] sts = dreturn sts"
| "prepare_all A (sql # sqls) sts = dbind (Prepare A sql) (\<lambda>st. prepare_all A sqls (st # sts))"

lemma fold_delete_StmtPtr:
  "cn_stmts (fold delete_StmtPtr hs c) = cn_stmts c - set hs" "cn_db (fold delete_StmtPtr hs c) = cn_db c"
  "cn_next (fold delete_StmtPtr hs c) = cn_next c"
  by (induction hs arbitrary: c) (auto simp: delete_StmtPtr_def)

lemma new_members_cases:
  assumes "stmts_ok c"
  obtains (none) e c' where "new_members A sqls ms c = (Inl e, c')"
      "prepare_all A sqls (map snd ms) (cn_db c) = (Inl e, cn_db c')" "cn_stmts c' = cn_stmts c - set (map fst ms)"
      "cn_next c \<le> cn_next c'"
    | (some) ms' c' where "new_members A sqls ms c = (Inr ms', c')"
      "prepare_all A sqls (map snd ms) (cn_db c) = (Inr (map snd ms'), cn_db c')"
      "cn_stmts c' - set (map fst ms') = cn_stmts c - set (map fst ms)" "cn_next c \<le> cn_next c'"
proof -
  have "(\<exists>e c'. new_members A sqls ms c = (Inl e, c') \<and> prepare_all A sqls (map snd ms) (cn_db c) = (Inl e, cn_db c') \<and>
        cn_stmts c' = cn_stmts c - set (map fst ms) \<and> cn_next c \<le> cn_next c') \<or>
      (\<exists>ms' c'. new_members A sqls ms c = (Inr ms', c') \<and> prepare_all A sqls (map snd ms) (cn_db c) = (Inr (map snd ms'), cn_db c') \<and>
        cn_stmts c' - set (map fst ms') = cn_stmts c - set (map fst ms) \<and> cn_next c \<le> cn_next c')"
    using assms
  proof (induction sqls arbitrary: ms c)
    case Nil
    then show ?case by (simp add: dreturn_def)
  next
    case (Cons sql sqls)
    from Cons.prems show ?case
    proof (cases rule: new_StmtPtr_cases [of c A sql])
      case none
      then show ?thesis by (simp add: Prepare_def fold_delete_StmtPtr)
    next
      case (some h stmt c1)
      have "cn_stmts c1 - set (map fst ((h, stmt) # ms)) = cn_stmts c - set (map fst ms)"
        using some(3,4) by auto
      then show ?thesis
        using Cons.IH [OF some(6), of "(h, stmt) # ms"] some(1,2,5) by (simp add: Prepare_def) (meson le_trans less_imp_le)
    qed
  qed
  then show ?thesis using that by blast
qed

text \<open>The stream whose members are in a list, last one first.\<close>

definition stream_of :: "bool \<Rightarrow> 'stmt list \<Rightarrow> 'db \<Rightarrow> ('db, 'stmt) DirCompDBStream" where
  "stream_of ongoing sts conn =
     \<lparr>dc_conn = conn, dc_trans = ongoing, dc_removed = sts ! 5, dc_new_file = sts ! 4, dc_content_changed = sts ! 3,
      dc_overwritten_by = sts ! 2, dc_copied_from = sts ! 1, dc_rename_to = sts ! 0\<rparr>"

lemma prepare_members_all:
  "prepare_members A ongoing =
    dbind (dbind (Exec A create_comparison) (\<lambda>_. prepare_all A [insert_removed, insert_new_file, insert_content_changed,
      insert_overwritten_by, insert_copied_from, insert_rename_to] [])) (\<lambda>sts conn. (Inr (stream_of ongoing sts conn), conn))"
  unfolding prepare_members_def prepare_all.simps dbind_assoc dbind_dreturn by (simp add: stream_of_def)

lemma on_db_stmts: "on_db m c = (r, c') \<Longrightarrow> cn_stmts c' = cn_stmts c"
  by (auto simp: on_db_def split: prod.splits)

lemma undo_transaction:
  obtains e' c' where
    "dbind (on_db (delete_DBTransaction A ongoing)) (\<lambda>_. dthrow e) c = (Inl e' :: 'x res, c')"
    "dbind (delete_DBTransaction A ongoing) (\<lambda>_. dthrow e) (cn_db c) = (Inl e' :: 'y res, cn_db c')"
    "cn_stmts c' = cn_stmts c"
proof (cases "delete_DBTransaction A ongoing (cn_db c)")
  case (Pair r db)
  show ?thesis
    by (rule that [of "case r of Inl e' \<Rightarrow> e' | Inr _ \<Rightarrow> e" "c\<lparr>cn_db := db\<rparr>"])
      (simp_all add: dbind_def dthrow_def on_db_def Pair split: sum.split)
qed

abbreviation "members_created A \<equiv> dbind (on_db (Exec A create_comparison)) (\<lambda>_. new_members A
  [insert_removed, insert_new_file, insert_content_changed, insert_overwritten_by, insert_copied_from, insert_rename_to] [])"

lemma members_created_cases:
  assumes "stmts_ok c"
  obtains (none) e c' where "members_created A c = (Inl e, c')" "prepare_members A ongoing (cn_db c) = (Inl e, cn_db c')"
      "cn_stmts c' = cn_stmts c"
    | (some) ms c' where "members_created A c = (Inr ms, c')"
      "prepare_members A ongoing (cn_db c) = (Inr (stream_of ongoing (map snd ms) (cn_db c')), cn_db c')"
      "cn_stmts c' - set (map fst ms) = cn_stmts c"
proof -
  let ?exec = "on_db (Exec A create_comparison) c"
  obtain r2 c2 where c2: "?exec = (r2, c2)" "Exec A create_comparison (cn_db c) = (r2, cn_db c2)"
    "cn_stmts c2 = cn_stmts c" "cn_next c2 = cn_next c"
    by (intro that [of "fst ?exec" "snd ?exec"]) (auto simp: on_db_def split: prod.splits)
  have ok: "stmts_ok c2" using assms c2(3,4) by (simp add: stmts_ok_def)
  show ?thesis
  proof (cases r2)
    case (Inl e)
    then show ?thesis by (intro none [of e c2]) (use c2 in \<open>simp_all add: prepare_members_all dbind_assoc\<close>)
  next
    case (Inr u)
    from ok show ?thesis
    proof (cases rule: new_members_cases [of c2 A "[insert_removed, insert_new_file, insert_content_changed,
        insert_overwritten_by, insert_copied_from, insert_rename_to]" "[]"])
      case (none e c3)
      then show ?thesis
        by (intro that(1) [of e c3])
          (use c2 Inr none in \<open>simp_all add: prepare_members_all dbind_assoc del: new_members.simps prepare_all.simps\<close>)
    next
      case (some ms c3)
      then show ?thesis
        by (intro that(2) [of ms c3])
          (use c2 Inr some in \<open>simp_all add: prepare_members_all dbind_assoc del: new_members.simps prepare_all.simps\<close>)
    qed
  qed
qed

lemma held_DirCompDBStream_cases:
  assumes "stmts_ok c"
  obtains (none) e c' where "held_DirCompDBStream A c = (Inl e, c')" "new_DirCompDBStream A (cn_db c) = (Inl e, cn_db c')"
      "cn_stmts c' = cn_stmts c"
    | (some) ongoing ms c' where "held_DirCompDBStream A c = (Inr (ongoing, ms), c')"
      "new_DirCompDBStream A (cn_db c) = (Inr (stream_of ongoing (map snd ms) (cn_db c')), cn_db c')"
      "cn_stmts c' - set (map fst ms) = cn_stmts c"
proof (cases "fst (on_db (new_DBTransaction A) c)")
  case (Inl e)
  then show ?thesis
    by (intro none [of e "snd (on_db (new_DBTransaction A) c)"])
      (simp_all add: held_DirCompDBStream_def new_DirCompDBStream_def dbind_def on_db_def split: prod.splits)
next
  case (Inr ongoing)
  then obtain c1 where c1: "on_db (new_DBTransaction A) c = (Inr ongoing, c1)" "new_DBTransaction A (cn_db c) = (Inr ongoing, cn_db c1)"
    "cn_stmts c1 = cn_stmts c" "cn_next c1 = cn_next c"
    by (intro that [of "snd (on_db (new_DBTransaction A) c)"]) (auto simp: on_db_def split: prod.splits)
  have "stmts_ok c1" using assms c1(3,4) by (simp add: stmts_ok_def)
  then show ?thesis
  proof (cases rule: members_created_cases [of c1 A ongoing])
    case (none e c3)
    obtain e' c4 where u: "dbind (on_db (delete_DBTransaction A ongoing)) (\<lambda>_. dthrow e) c3 = (Inl e' :: (bool \<times> (nat \<times> 'b) list) res, c4)"
      "dbind (delete_DBTransaction A ongoing) (\<lambda>_. dthrow e) (cn_db c3) = (Inl e' :: ('a, 'b) DirCompDBStream res, cn_db c4)"
      "cn_stmts c4 = cn_stmts c3"
      by (rule undo_transaction)
    show ?thesis
      by (intro that(1) [of e' c4])
        (use u none c1 in \<open>simp_all add: held_DirCompDBStream_def new_DirCompDBStream_def del: new_members.simps\<close>)
  next
    case (some ms c3)
    then show ?thesis
      by (intro that(2) [of ongoing ms c3])
        (use some c1 in \<open>simp_all add: held_DirCompDBStream_def new_DirCompDBStream_def del: new_members.simps\<close>)
  qed
qed

section \<open>The property\<close>

text \<open>A new connection, and what is needed of \<open>sqlite3_close\<close>.\<close>

definition opened :: "'db \<Rightarrow> 'db connection" where
  "opened db = \<lparr>cn_db = db, cn_stmts = {}, cn_next = 0\<rparr>"

definition closes_without_statements :: "('db connection \<Rightarrow> int) \<Rightarrow> bool" where
  "closes_without_statements close \<longleftrightarrow> (\<forall>c. cn_stmts c = {} \<longrightarrow> close c = SQLITE_OK)"

text \<open>An operation on a new connection has the effect of the plain one, and the connection closes.\<close>

definition runs_and_closes where
  "runs_and_closes A close filename m' m db \<longleftrightarrow>
     (\<exists>r c. m' (opened db) = (r, c) \<and> m db = (r, cn_db c) \<and> delete_DBConnection A close filename c = None)"

lemma runs_as_closes:
  assumes "closes_without_statements close" and "runs_as m' m"
  shows "runs_and_closes A close filename m' m db"
proof -
  have "stmts_ok (opened db)" by (simp add: stmts_ok_def opened_def)
  with assms(2) obtain r c where "m' (opened db) = (r, c)" "m (cn_db (opened db)) = (r, cn_db c)"
    "cn_stmts c = cn_stmts (opened db)" by (rule runs_asE)
  with assms(1) show ?thesis
    unfolding runs_and_closes_def closes_without_statements_def by (simp add: opened_def delete_DBConnection_def)
qed

text \<open>C35: Every connection can be closed when its owner is destroyed: the loop that reads a cache, the storing
  of a cache, the three steps that store the result of duplicate detection, and construction and
  destruction of the stream of a comparison, whatever was written in between, finalise each statement
  they prepare, after exceptions too, so that \<open>sqlite3_close\<close> is never refused and nothing is logged.
  What they do to the database is not changed by it.\<close>

theorem connections_close:
  assumes "closes_without_statements close"
  shows "runs_and_closes A close filename (held_for_query k A ts sql body acc) (for_query k A ts sql body acc) db \<and>
    runs_and_closes A close filename (held_StoreCksums A cache) (StoreCksums_db A True cache) db \<and>
    runs_and_closes A close filename
      (dbind (on_db (CreateResultsDatabase A)) (\<lambda>_. dbind (held_DumpFuzzyDedupRes A P at_class at_node r cs h) (\<lambda>_.
        held_DumpInterestingEqClasses A at_class ics)))
      (dbind (CreateResultsDatabase A) (\<lambda>_. dbind (DumpFuzzyDedupRes A P at_class at_node r cs h) (\<lambda>_.
        DumpInterestingEqClasses A at_class ics))) db \<and>
    (case held_DirCompDBStream A (opened db) of
       (Inl e, c) \<Rightarrow> new_DirCompDBStream A db = (Inl e, cn_db c) \<and> delete_DBConnection A close filename c = None
     | (Inr (ongoing, ms), c) \<Rightarrow>
         new_DirCompDBStream A db = (Inr (stream_of ongoing (map snd ms) (cn_db c)), cn_db c) \<and>
         (\<forall>s r c'. delete_held_DirCompDBStream A (dc_trans s) ms (c\<lparr>cn_db := dc_conn s\<rparr>) = (r, c') \<longrightarrow>
            delete_DirCompDBStream A s = rbind r (\<lambda>_. Inr (cn_db c')) \<and> delete_DBConnection A close filename c' = None))"
proof (intro conjI)
  note closes = runs_as_closes [OF assms]
  show "runs_and_closes A close filename (held_for_query k A ts sql body acc) (for_query k A ts sql body acc) db"
    by (intro closes block_intros)
  show "runs_and_closes A close filename (held_StoreCksums A cache) (StoreCksums_db A True cache) db"
    by (intro closes block_intros)
  show "runs_and_closes A close filename
      (dbind (on_db (CreateResultsDatabase A)) (\<lambda>_. dbind (held_DumpFuzzyDedupRes A P at_class at_node r cs h) (\<lambda>_.
        held_DumpInterestingEqClasses A at_class ics)))
      (dbind (CreateResultsDatabase A) (\<lambda>_. dbind (DumpFuzzyDedupRes A P at_class at_node r cs h) (\<lambda>_.
        DumpInterestingEqClasses A at_class ics))) db"
    by (intro closes block_intros)
  have closed: "delete_DBConnection A close filename c = None" if "cn_stmts c = {}" for c
    using assms that by (simp add: closes_without_statements_def delete_DBConnection_def)
  have new: "stmts_ok (opened db)" "cn_db (opened db) = db" "cn_stmts (opened db) = {}"
    by (simp_all add: stmts_ok_def opened_def)
  from new(1) show "case held_DirCompDBStream A (opened db) of
       (Inl e, c) \<Rightarrow> new_DirCompDBStream A db = (Inl e, cn_db c) \<and> delete_DBConnection A close filename c = None
     | (Inr (ongoing, ms), c) \<Rightarrow>
         new_DirCompDBStream A db = (Inr (stream_of ongoing (map snd ms) (cn_db c)), cn_db c) \<and>
         (\<forall>s r c'. delete_held_DirCompDBStream A (dc_trans s) ms (c\<lparr>cn_db := dc_conn s\<rparr>) = (r, c') \<longrightarrow>
            delete_DirCompDBStream A s = rbind r (\<lambda>_. Inr (cn_db c')) \<and> delete_DBConnection A close filename c' = None)"
  proof (cases rule: held_DirCompDBStream_cases [of "opened db" A])
    case (none e c)
    then show ?thesis using new closed by simp
  next
    case (some ongoing ms c)
    have "delete_DirCompDBStream A s = rbind r (\<lambda>_. Inr (cn_db c')) \<and> delete_DBConnection A close filename c' = None"
      if "delete_held_DirCompDBStream A (dc_trans s) ms (c\<lparr>cn_db := dc_conn s\<rparr>) = (r, c')" for s r c'
    proof
      have "cn_stmts c' = cn_stmts c - set (map fst ms)"
        using on_db_stmts [OF that [unfolded delete_held_DirCompDBStream_def]] unfolding fold_delete_StmtPtr by simp
      then show "delete_DBConnection A close filename c' = None" using some(3) new(3) closed by simp
      show "delete_DirCompDBStream A s = rbind r (\<lambda>_. Inr (cn_db c'))"
        using that by (auto simp: delete_held_DirCompDBStream_def delete_DirCompDBStream_def on_db_def fold_delete_StmtPtr
            split: prod.splits sum.splits)
    qed
    then show ?thesis using some(1,2) new(2) by simp
  qed
qed

text \<open>A statement that is still there keeps the connection from being closed.\<close>

definition mem_close :: "database connection \<Rightarrow> int" where
  "mem_close c = (if cn_stmts c = {} then SQLITE_OK else 5)"

theorem connections_close_witness:
  "runs_and_closes mem_api mem_close (\<lambda>_. ''c.db'')
    (held_StoreCksums mem_api [(''/d/a'', \<lparr>fi_size = 2, fi_mtime = 5, fi_sum = 9\<rparr>)])
    (StoreCksums_db mem_api True [(''/d/a'', \<lparr>fi_size = 2, fi_mtime = 5, fi_sum = 9\<rparr>)]) (Map.empty, False)"
proof -
  have "closes_without_statements mem_close" by (simp add: closes_without_statements_def mem_close_def)
  from connections_close [OF this, THEN conjunct2, THEN conjunct1] show ?thesis .
qed

end
