(* ===== verification/Descriptors.thy ===== *)
theory Descriptors
  imports Hash_Cache
begin

text \<open>
  The file descriptors of a lookup in the checksum cache (src/src/hash_cache.cpp): \<open>operator()\<close> opens
  the file, and \<open>AutoFdCloser\<close> closes it however the function is left, on a hit in the cache, after
  a checksum was computed and on every exception.
\<close>

section \<open>The table of descriptors\<close>

text \<open>The descriptors of the process, with the open files they stand for; \<open>open\<close> takes the lowest free
  one below the limit.\<close>

type_synonym fd_table = "nat \<rightharpoonup> int"

record fd_api =
  fd_limit :: nat
  fd_EMFILE :: int
  fd_EBADF :: int
  fd_close_fails :: "nat \<Rightarrow> bool"

definition sys_open :: "fd_api \<Rightarrow> os_api \<Rightarrow> string \<Rightarrow> fd_table \<Rightarrow> (int + nat) \<times> fd_table" where
  "sys_open D os path fds =
     (case find (\<lambda>n. fds n = None) [0..<fd_limit D] of
        None \<Rightarrow> (Inl (fd_EMFILE D), fds)
      | Some fd \<Rightarrow>
          (case os_open os path of
             Inl err \<Rightarrow> (Inl err, fds)
           | Inr file \<Rightarrow> (Inr fd, fds(fd \<mapsto> file))))"

text \<open>\<open>close\<close> releases the descriptor also when it reports an error.\<close>

definition sys_close :: "fd_api \<Rightarrow> nat \<Rightarrow> fd_table \<Rightarrow> int \<times> fd_table" where
  "sys_close D fd fds = (if fds fd = None \<or> fd_close_fails D fd then - 1 else 0, fds(fd := None))"

text \<open>The calls on descriptors.\<close>

definition on_descriptors :: "fd_api \<Rightarrow> fd_table \<Rightarrow> os_api \<Rightarrow> os_api" where
  "on_descriptors D fds os = os
     \<lparr>os_fstat := \<lambda>fd. case fds (nat fd) of None \<Rightarrow> Inl (fd_EBADF D) | Some file \<Rightarrow> os_fstat os file,
      os_read := \<lambda>fd. case fds (nat fd) of None \<Rightarrow> [Inl (fd_EBADF D)] | Some file \<Rightarrow> os_read os file\<rparr>"

section \<open>\<open>AutoFdCloser\<close>\<close>

text \<open>The rest of the scope after the object is constructed, and its destructor; the last component
  lists the descriptors in the warnings.\<close>

definition AutoFdCloser :: "fd_api \<Rightarrow> nat \<Rightarrow> (fd_table \<Rightarrow> 'a res) \<Rightarrow> fd_table \<times> nat list \<Rightarrow> 'a res \<times> fd_table \<times> nat list" where
  "AutoFdCloser D fd scope st =
     (let r = scope (fst st); (status, fds') = sys_close D fd (fst st)
      in (r, fds', if status < 0 then snd st @ [fd] else snd st))"

text \<open>\<open>operator()\<close> after the file was opened.\<close>

definition lookup_opened :: "os_api \<Rightarrow> int \<Rightarrow> string \<Rightarrow> HashCache \<Rightarrow> (FileInfo \<times> HashCache) res" where
  "lookup_opened os fd native hc =
     rbind (GetInodeInfo os fd native) (\<lambda>stat_res.
       let compute = rbind (ComputeCksum os fd (st_id stat_res) native (hc_ino_cache hc)) (\<lambda>(cksum, ino).
           let r = \<lparr>fi_size = st_size stat_res, fi_mtime = st_mtime stat_res, fi_sum = cksum\<rparr>
           in Inr (r, hc\<lparr>hc_cache := (hc_cache hc)(native \<mapsto> r), hc_ino_cache := ino\<rparr>))
       in case hc_cache hc native of
            Some cached \<Rightarrow>
              if fi_size cached = st_size stat_res \<and> fi_mtime cached = st_mtime stat_res
              then Inr (cached, hc) else compute
          | None \<Rightarrow> compute)"

definition lookup_with_descriptor ::
  "fd_api \<Rightarrow> 'p path_api \<Rightarrow> os_api \<Rightarrow> 'p \<Rightarrow> HashCache \<Rightarrow> fd_table \<times> nat list \<Rightarrow>
    (FileInfo \<times> HashCache) res \<times> fd_table \<times> nat list" where
  "lookup_with_descriptor D P os p hc st =
     (let native = p_native P p in
      case sys_open D os native (fst st) of
        (Inl err, fds) \<Rightarrow> (Inl (FsException os err (''open '' @ quoted native)), fds, snd st)
      | (Inr fd, fds) \<Rightarrow>
          AutoFdCloser D fd (\<lambda>fds'. lookup_opened (on_descriptors D fds' os) (int fd) native hc) (fds, snd st))"

section \<open>Nothing leaks\<close>

lemma FsException_on_descriptors [simp]: "FsException (on_descriptors D fds os) = FsException os"
  by (simp add: fun_eq_iff FsException_def on_descriptors_def)

lemma read_loop_on_descriptors [simp]: "read_loop (on_descriptors D fds os) path rs bytes n = read_loop os path rs bytes n"
  by (induction os path rs bytes n rule: read_loop.induct) simp_all

lemma lookup_on_descriptors:
  assumes "fds fd = Some file"
  shows "lookup_opened (on_descriptors D fds os) (int fd) native hc = lookup_opened os file native hc"
proof -
  let ?os = "on_descriptors D fds os"
  have os: "os_fstat ?os (int fd) = os_fstat os file" "os_read ?os (int fd) = os_read os file"
    "os_errno ?os = os_errno os" "os_sha1 ?os = os_sha1 os"
    using assms by (simp_all add: on_descriptors_def)
  have info: "GetInodeInfo ?os (int fd) native = GetInodeInfo os file native"
    unfolding GetInodeInfo_def os FsException_on_descriptors ..
  have "ComputeCksum ?os (int fd) uuid native ino = ComputeCksum os file uuid native ino" for uuid ino
    unfolding ComputeCksum_def os read_loop_on_descriptors ..
  then show ?thesis unfolding lookup_opened_def info by simp
qed

lemma HashCache_get_opened:
  "HashCache_get P os p hc =
    (case os_open os (p_native P p) of
       Inl err \<Rightarrow> Inl (FsException os err (''open '' @ quoted (p_native P p)))
     | Inr file \<Rightarrow> lookup_opened os file (p_native P p) hc)"
  unfolding HashCache_get_def lookup_opened_def Let_def ..

text \<open>C34: A lookup in the checksum cache closes the descriptor it opened, and no other, however it ends: it
  leaves the table of descriptors as it was, on a hit, on a computed checksum, and on every failure
  to open, to examine or to read the file. Its result is that of \<open>HashCache_get\<close>, where files are
  opened without descriptors, unless all descriptors are in use: then it fails with EMFILE. At most a
  warning about the closed descriptor is logged.\<close>

theorem lookup_closes_descriptor:
  "\<exists>warnings'. lookup_with_descriptor D P os p hc (fds, warnings) =
     (if \<exists>fd < fd_limit D. fds fd = None then HashCache_get P os p hc
      else Inl (FsException os (fd_EMFILE D) (''open '' @ quoted (p_native P p))), fds, warnings') \<and>
   (warnings' = warnings \<or>
     (\<exists>fd. fds fd = None \<and> fd < fd_limit D \<and> fd_close_fails D fd \<and> warnings' = warnings @ [fd]))"
proof (cases "find (\<lambda>n. fds n = None) [0..<fd_limit D]")
  case None
  then have full: "(\<exists>fd < fd_limit D. fds fd = None) = False" by (auto simp: find_None_iff)
  from None show ?thesis unfolding full by (simp add: lookup_with_descriptor_def sys_open_def Let_def)
next
  case (Some fd)
  then have fd: "fd < fd_limit D" "fds fd = None" by (auto simp: find_Some_iff)
  then have free: "\<exists>fd < fd_limit D. fds fd = None" by blast
  show ?thesis
  proof (cases "os_open os (p_native P p)")
    case (Inl err)
    with Some free show ?thesis
      by (simp add: lookup_with_descriptor_def sys_open_def Let_def HashCache_get_opened)
  next
    case opened: (Inr f)
    have "(fds(fd \<mapsto> f))(fd := None) = fds" using fd(2) by auto
    with Some opened free fd show ?thesis
      by (auto simp: lookup_with_descriptor_def sys_open_def Let_def HashCache_get_opened AutoFdCloser_def
          sys_close_def lookup_on_descriptors)
  qed
qed

end
