(* ===== verification/Destruction.thy ===== *)
theory Destruction
  imports Dedup_Db
begin

text \<open>
  The destructors of the results of duplicate detection: \<open>Node::~Node\<close> (src/src/file_tree.cpp), which
  owns the children of a node, and the members of \<open>FuzzyDedupRes\<close> (src/src/fuzzy_dedup.h), a shared
  pointer to the root and one to the vector of owned classes. Freed memory leaves the heap, so that a
  second \<open>delete\<close> of the same object, or an access to it, is a fault.
\<close>

section \<open>The destructors\<close>

definition free_node :: "nid \<Rightarrow> heap \<Rightarrow> heap" where
  "free_node n h = h\<lparr>h_nodes := (h_nodes h)(n := None)\<rparr>"

text \<open>\<open>delete\<close> of a node: its destructor, then its memory. The first argument bounds the depth.\<close>

fun delete_Node :: "nat \<Rightarrow> nid \<Rightarrow> heap \<Rightarrow> heap res" where
  "delete_Node 0 this h = Inl OutOfFuel"
| "delete_Node (Suc k) this h =
     deref (h_nodes h this) (\<lambda>nd.
     rbind (foldR (delete_Node k) (nd_children nd) h) (\<lambda>h'. Inr (free_node this h')))"

definition delete_owned_class :: "cid \<Rightarrow> heap \<Rightarrow> heap res" where
  "delete_owned_class c h = deref (h_classes h c) (\<lambda>_. Inr (delete_class c h))"

text \<open>A pair destroys its second member first.\<close>

definition delete_result :: "nat \<Rightarrow> nid \<times> cid list \<times> heap \<Rightarrow> heap res" where
  "delete_result k res =
     (case res of (root_node, eq_classes, h) \<Rightarrow>
        rbind (foldR delete_owned_class eq_classes h) (delete_Node k root_node))"

section \<open>Every node is freed once\<close>

definition without_nodes :: "nid set \<Rightarrow> heap \<Rightarrow> heap" where
  "without_nodes X h = h\<lparr>h_nodes := h_nodes h |` (- X)\<rparr>"

lemma without_nodes_simps [simp]:
  "without_nodes {} h = h" "h_nodes (without_nodes X h) = h_nodes h |` (- X)"
  "h_classes (without_nodes X h) = h_classes h"
  by (simp_all add: without_nodes_def restrict_map_def)

lemma without_nodes_Un: "without_nodes Y (without_nodes X h) = without_nodes (X \<union> Y) h"
  by (simp add: without_nodes_def Int_commute)

lemma free_node_without: "free_node n (without_nodes X h) = without_nodes (X \<union> {n}) h"
  unfolding free_node_def without_nodes_def by (auto simp: restrict_map_def fun_eq_iff)

text \<open>Deleting a node of a tree, of which everything below it is still there, frees just that.\<close>

lemma delete_Node_ok:
  assumes "tree_ok h" and "n \<in> dom (h_nodes h)" and "h_next_node h - n \<le> k"
    and "\<forall>m \<in> set (nodes_below h n). h_nodes h' m = h_nodes h m"
  shows "delete_Node k n h' = Inr (without_nodes (set (nodes_below h n)) h')"
  using assms
proof (induction arbitrary: k h' rule: tree_induct)
  case (node n)
  let ?below = "\<lambda>c. set (nodes_below h c)"
  obtain k' where k: "k = Suc k'" using node(3) tree_okD(1) [OF assms(1) node(1)] by (cases k) auto
  have rec: "?below n = (\<Union>c \<in> set (children_of h n). ?below c) \<union> {n}"
    using nodes_below_rec [OF assms(1) node(1)] by auto
  have disj: "?below c \<inter> ?below d = {}" if "c \<in> set (children_of h n)" "d \<in> set (children_of h n)" "c \<noteq> d" for c d
    using siblings_disjoint [OF assms(1) that(1,2)] that tree_okD(3) [OF assms(1)]
    by (auto simp: nodes_below_iff [OF assms(1)])
  have step: "delete_Node k' c g = Inr (without_nodes (?below c) g)"
    if "c \<in> set (children_of h n)" "\<forall>m \<in> ?below c. h_nodes g m = h_nodes h m" for c g
    using node(2) [OF that(1) _ that(2)] child_bound(1) [OF assms(1) that(1)] node(3) k by simp
  have children: "distinct cs \<Longrightarrow> set cs \<subseteq> set (children_of h n) \<Longrightarrow> \<forall>c \<in> set cs. \<forall>m \<in> ?below c. h_nodes g m = h_nodes h m \<Longrightarrow>
      foldR (delete_Node k') cs g = Inr (without_nodes (\<Union>c \<in> set cs. ?below c) g)" for cs g
  proof (induction cs arbitrary: g)
    case (Cons c cs)
    have c: "delete_Node k' c g = Inr (without_nodes (?below c) g)" using step [of c g] Cons.prems by simp
    have "\<forall>d \<in> set cs. \<forall>m \<in> ?below d. h_nodes (without_nodes (?below c) g) m = h_nodes h m"
    proof (intro ballI)
      fix d m assume d: "d \<in> set cs" "m \<in> ?below d"
      then have "d \<noteq> c" "d \<in> set (children_of h n)" "c \<in> set (children_of h n)" using Cons.prems by auto
      then have "m \<notin> ?below c" using disj [of d c] d(2) by auto
      then show "h_nodes (without_nodes (?below c) g) m = h_nodes h m" using Cons.prems(3) d by simp
    qed
    with Cons.IH Cons.prems c show ?case by (simp add: without_nodes_Un)
  qed simp
  obtain nd where nd: "h_nodes h n = Some nd" using node(1) by auto
  then have cs: "nd_children nd = children_of h n" by (metis children_of_node)
  have "h_nodes h' n = Some nd" using node(4) nd rec by auto
  moreover have "foldR (delete_Node k') (children_of h n) h' = Inr (without_nodes (\<Union>c \<in> set (children_of h n). ?below c) h')"
    by (rule children) (use tree_okD(6) [OF assms(1)] node(4) rec in auto)
  ultimately show ?case by (simp add: k cs free_node_without rec)
qed

text \<open>Deleting distinct classes frees just these and no node.\<close>

lemma delete_classes_ok:
  "distinct cs \<Longrightarrow> set cs \<subseteq> dom (h_classes h) \<Longrightarrow>
    foldR delete_owned_class cs h = Inr (h\<lparr>h_classes := h_classes h |` (- set cs)\<rparr>)"
proof (induction cs arbitrary: h)
  case (Cons c cs)
  from Cons.prems obtain ec where "h_classes h c = Some ec" by auto
  then have d: "delete_owned_class c h = Inr (delete_class c h)" by (simp add: delete_owned_class_def)
  have "set cs \<subseteq> dom (h_classes (delete_class c h))"
    using Cons.prems by (auto simp: delete_class_def)
  with Cons.IH [of "delete_class c h"] Cons.prems(1)
  have "foldR delete_owned_class cs (delete_class c h) =
      Inr ((delete_class c h)\<lparr>h_classes := h_classes (delete_class c h) |` (- set cs)\<rparr>)" by simp
  moreover have "(delete_class c h)\<lparr>h_classes := h_classes (delete_class c h) |` (- set cs)\<rparr> =
      h\<lparr>h_classes := h_classes h |` (- set (c # cs))\<rparr>"
    by (simp add: delete_class_def restrict_map_def fun_eq_iff)
  ultimately show ?case using d by simp
qed (simp add: restrict_map_def)

lemma delete_result_ok:
  assumes "heap_ok h" and "spans h r" and "listed cs h"
  shows "\<exists>h'. delete_result (h_next_node h) (r, cs, h) = Inr h' \<and> h_nodes h' = Map.empty \<and>
    (\<forall>c. h_classes h' c = (if members h c = [] then h_classes h c else None))"
proof -
  let ?h1 = "h\<lparr>h_classes := h_classes h |` (- set cs)\<rparr>"
  have listed: "distinct cs" "set cs = {c. members h c \<noteq> []}" using assms(3) by (simp_all add: listed_def)
  have "set cs \<subseteq> dom (h_classes h)" unfolding listed(2) by (auto simp: members_def split: option.splits)
  from delete_classes_ok [OF listed(1) this]
  have "delete_result (h_next_node h) (r, cs, h) = delete_Node (h_next_node h) r ?h1" by (simp add: delete_result_def)
  also have "\<dots> = Inr (without_nodes (set (nodes_below h r)) ?h1)"
    by (rule delete_Node_ok [OF heap_okD(1) [OF assms(1)] conjunct1 [OF assms(2) [unfolded spans_def]]]) simp_all
  finally have "delete_result (h_next_node h) (r, cs, h) = Inr (without_nodes (set (nodes_below h r)) ?h1)" .
  moreover have "h_nodes h |` (- set (nodes_below h r)) = Map.empty"
    using assms(2) unfolding spans_def by (auto simp: restrict_map_def fun_eq_iff domIff)
  ultimately show ?thesis by (simp add: listed(2) restrict_map_def)
qed

text \<open>C33: Destroying the result of a run of duplicate detection - every outcome of a run is such a result,
  or the empty one, or an overflow - deletes no object twice and touches no object that is deleted
  already. Afterwards no node is left, and no class that had a member: the tree of the result owns every
  node the scan created, and the vector every class a node was put into.\<close>

theorem result_destroyed:
  assumes "heap_ok h" and "spans h r" and "listed cs h"
  shows "(\<exists>h'. delete_result (h_next_node h) (r, cs, h) = Inr h' \<and> h_nodes h' = Map.empty \<and>
      (\<forall>c. h_classes h' c = (if members h c = [] then h_classes h c else None))) \<and>
    (\<forall>P fs r' cs' h1. dedup_outcome P fs (Inr (Some (r', cs', h1))) \<longrightarrow>
      (\<exists>h'. delete_result (h_next_node h1) (r', cs', h1) = Inr h' \<and> h_nodes h' = Map.empty))"
  using delete_result_ok [OF assms] delete_result_ok dedup_outcome_tree by metis

theorem result_destroyed_witness:
  "\<exists>h'. delete_result 3 (0, [0, 1], twins) = Inr h' \<and> h_nodes h' = Map.empty \<and> h_classes h' = Map.empty"
proof -
  have t: "spans twins 0" "listed [0, 1] twins" using twins_storable unfolding storable_results_def by blast+
  from result_destroyed [OF twins_ok t] obtain h' where
    h': "delete_result 3 (0, [0, 1], twins) = Inr h'" "h_nodes h' = Map.empty"
      "\<forall>c. h_classes h' c = (if members twins c = [] then h_classes twins c else None)"
    unfolding twins_next by blast
  have "h_classes h' c = None" for c using h'(3) by (simp add: twins_views) (simp add: twins_def)
  then have "h_classes h' = Map.empty" by (simp add: fun_eq_iff)
  with h'(1,2) show ?thesis by blast
qed

end
