(* ===== verification/Divergences.thy ===== *)
theory Divergences
  imports Dupa_Main
begin

text \<open>
  Places where the code does something else than its comments say or its other parts expect, each on a
  concrete input or for every input.
\<close>

text \<open>A database with relative paths that have no directory in common: the common prefix is empty, so
  the constructor of the root node fails.\<close>

lemma empty_prefix_asserts:
  "(case ScanDb list_paths (TreeCtorProcessor list_paths)
      [(''a'', \<lparr>fi_size = 1, fi_mtime = 1, fi_sum = 5\<rparr>), (''b/c'', \<lparr>fi_size = 1, fi_mtime = 1, fi_sum = 6\<rparr>)]
      empty_tree_ctor of Inl e \<Rightarrow> Some e | Inr _ \<Rightarrow> None) = Some (Assertion ''!name_.empty()'')"
  by code_simp

text \<open>An empty file of a database is put into the table of paths and checksums; the scan of a directory
  leaves it out.\<close>

lemma database_lists_empty_files:
  "ScanDb list_paths (PathHashesFiller list_paths list_table)
    [(''/d/e'', \<lparr>fi_size = 0, fi_mtime = 1, fi_sum = 0\<rparr>)] [] = Inr [\<lparr>ph_path = ''e'', ph_hash = 0\<rparr>]"
  by code_simp

lemma directory_skips_empty_files:
  "fs_info FS p = Some \<lparr>fi_size = 0, fi_mtime = t, fi_sum = 0\<rparr> \<Longrightarrow> run_task P FS processor lockable (p, handle) s = Inr s"
  by (simp add: run_task_def)

text \<open>The option \<open>-j\<close> takes any number; with 0 every scan of a directory aborts.\<close>

lemma no_threads_abort:
  "n \<le> 0 \<Longrightarrow> ScanDirectory P FS processor n r s = {Inl (Assertion ''concurrency > 0'')}"
  by (simp add: ScanDirectory_def start_scan_cases)

text \<open>The mutex of a scan is destroyed before the pool, whose destructor runs the tasks that are left; on a
  platform where a destroyed mutex cannot be locked, a scan of one file may end in undefined behaviour.\<close>

definition one_file :: "string list file_system" where
  "one_file =
     \<lparr>fs_list = [[''d''] \<mapsto> [[''d'', ''a'']]], fs_is_symlink = \<lambda>p. Some False, fs_is_directory = \<lambda>p. Some (p = [''d'']),
      fs_is_regular = \<lambda>p. Some (p = [''d'', ''a'']), fs_info = \<lambda>p. Some \<lparr>fi_size = 7, fi_mtime = 1, fi_sum = 9\<rparr>,
      fs_late_lock = False\<rparr>"

lemma destroyed_mutex_locked:
  "Inl (Undefined ''lock of a destroyed mutex'')
     \<in> ScanDirectory list_paths one_file (PathHashesFiller list_paths list_table) 1 [''d''] []"
proof -
  let ?F = "PathHashesFiller list_paths list_table" and ?h = "p_of list_paths []"
  let ?st = "\<lambda>dir tasks alive. \<lparr>dirs_to_process = [], current_dir = dir, submitted = tasks, mutex_alive = alive,
    proc_state = [] :: path_hash_list\<rparr>"
  let ?run = "scan_run list_paths one_file ?F" and ?step = "scan_step list_paths one_file ?F"
    and ?r = "Inl (Undefined ''lock of a destroyed mutex'') :: path_hash_list res"
  let ?tasks = "[([''d'', ''a''], ?h)]"
  have "run_task list_paths one_file ?F False ([''d'', ''a''], ?h) ([] :: path_hash_list) = ?r"
    by (simp add: run_task_def one_file_def)
  then have "?step (?st None ?tasks False) (Inl (Undefined ''lock of a destroyed mutex''))"
    using scan_step.work [of "?st None ?tasks False" "[]" "([''d'', ''a''], ?h)" "[]" list_paths one_file ?F]
    by (simp add: can_lock_def one_file_def)
  then have 5: "?run (?st None ?tasks False) ?r" by (rule scan_run.failed)
  have 4: "?run (?st None ?tasks True) ?r"
    by (rule scan_run.stepped [OF _ 5]) (use scan_step.destroy [of "?st None ?tasks True" list_paths one_file ?F] in simp)
  have 3: "?run (?st (Some (?h, [])) ?tasks True) ?r"
    by (rule scan_run.stepped [OF _ 4]) (use scan_step.leave [of "?st (Some (?h, [])) ?tasks True" ?h list_paths one_file ?F] in simp)
  have "visit_entry one_file ?h [''d'', ''a''] (?st (Some (?h, [])) [] True) = ?st (Some (?h, [])) ?tasks True"
    by (simp add: visit_entry_def one_file_def)
  then have 2: "?run (?st (Some (?h, [[''d'', ''a'']])) [] True) ?r"
    by (intro scan_run.stepped [OF _ 3])
      (use scan_step.visit [of "?st (Some (?h, [[''d'', ''a'']])) [] True" ?h "[''d'', ''a'']" "[]" list_paths one_file ?F] in simp)
  have "open_directory list_paths one_file ?F ([''d''], None) ((scan_locals [''d''] [])\<lparr>dirs_to_process := []\<rparr>) =
      Inr (?st (Some (?h, [[''d'', ''a'']])) [] True)"
    by (simp add: open_directory_def one_file_def scan_locals_def PathHashesFiller_def)
  then have "?step (scan_locals [''d''] []) (Inr (?st (Some (?h, [[''d'', ''a'']])) [] True))"
    using scan_step.pop [of "scan_locals [''d''] [] :: (string list, string list, path_hash_list) scan_state"
        "([''d''], None)" "[]" list_paths one_file ?F] by (simp add: scan_locals_def)
  then have "?run (scan_locals [''d''] []) ?r" using 2 by (rule scan_run.stepped)
  then show ?thesis by (simp add: ScanDirectory_def start_scan_cases)
qed

text \<open>\<open>GetClosestNode\<close> without candidates.\<close>

lemma closest_of_none: "\<exists>m. GetClosestNode env h ref [] = Inl (Undefined m)"
  by (simp add: GetClosestNode_def)

text \<open>The error of something that is not a regular file ends with the text of an earlier error.\<close>

lemma stale_errno:
  "os_fstat os fd = Inr (st, False) \<Longrightarrow>
    GetInodeInfo os fd path = Inl (FsException os (os_errno os) (quoted path @ '' is not a regular file''))"
  by (simp add: GetInodeInfo_def)

text \<open>Every connection turns the journal off, so that the rollback of \<open>~DBTransaction\<close> is undefined.\<close>

lemma journal_is_off: "\<exists>a b. connection_pragmas = a @ ''PRAGMA journal_mode = OFF;'' @ b"
  unfolding connection_pragmas_def by (metis append_assoc)

text \<open>No node row has a checksum, whether it is a file or a directory.\<close>

lemma no_checksum_stored:
  "node_fields P at_class at_node h n = Inr fs \<Longrightarrow> new_row NodeTable (map bind_value fs) ! 4 = SqlNull"
  by (auto simp: node_fields_def res_simps split: option.splits)

end
