(* ===== verification/Spec2Isabelle.thy ===== *)
theory Spec2Isabelle
  imports Config Dir_Compare Compare_Directories Run_Properties Scan_Properties Thread_Pool Program_Runs Identical_Dirs Sql_Types Sql_Handles Descriptors Destruction Divergences
begin

text \<open>
  Dupa finds duplicates in a directory (one argument) or compares two directories (two arguments).
  This development models its C++ sources under src/src/, in the debug build, where \<open>assert\<close> is
  active. It is a library of theories, one per component.

  The program. \<open>main\<close> (dupa.cpp) reads the configuration (conf.cpp), opens the checksum cache
  (hash_cache.cpp) and, if asked to, a database of results (db_lib.cpp). Duplicate detection
  (fuzzy_dedup.cpp) scans a directory or a database of checksums (scanner_int.h) into a tree of nodes
  (file_tree.cpp), puts equal files and empty directories into equivalence classes, propagates classes
  towards the root by the distance of directories, and reports the interesting classes. Comparison
  (dir_compare.cpp) scans two directories into tables of paths and checksums and reports what happened
  to each path to streams, one of which prints and one of which writes to the database
  (db_output.cpp). Files are read by the workers of a thread pool (synch_thread_pool.cpp).

  Theories, in the order of dependence.
  Dupa_Prelude: the faults of C++ code (\<open>fault\<close>), the result type \<open>res\<close>, sequencing and loops.
  Config: conf.h, conf.cpp, log.h, log.cpp; the parser of options is a parameter, its limit of two
  positional arguments is \<open>po_run\<close>.
  Boost_Paths: boost::filesystem::path as a parameter with its laws (locale \<open>path_laws\<close>).
  Doubles: IEEE-754 binary64 on rationals, without overflow: rounding, truncation to \<open>uint64_t\<close>.
  Scanner, Directory_Scan, Scan_Termination: scanner.h, scanner.cpp, scanner_int.h. A processor is a
  record of its methods; the locale \<open>scan_processor\<close> is its contract. The scan of a directory is the
  step relation \<open>scan_step\<close>, in which the main thread and the workers interleave; \<open>ScanDirectory\<close> is
  the set of its outcomes. It begins with the construction of the pool, which asserts that there are
  threads, and the mutex dies before the pool does (\<open>can_lock\<close>). The specification of the scan is a
  plain recursive walk (\<open>walk\<close>, \<open>all_found\<close>), which lists directories and files with multiplicity.
  Hash_Cache, Cache_Threads, Cache_Db: hash_cache.h, hash_cache.cpp, exceptions.h, exceptions.cpp;
  lookup with validation by size and time, reading and hashing files; lookups of several threads,
  whose critical sections interleave (\<open>cache_step\<close>); the table FileList.
  Descriptors: \<open>AutoFdCloser\<close> over a table of file descriptors.
  Cached_Scan, Cached_Program: the scan whose workers look up checksums in the shared cache
  (\<open>cached_step\<close>), two such scans at once, and the operations that use them with the cache threaded
  through. Each refines its counterpart on the plain files (\<open>plain_files\<close>), whose checksums are read
  without a cache; \<open>kept_by_sections\<close> is what carries facts about the cache through a scan.
  Thread_Pool: synch_thread_pool.h, synch_thread_pool.cpp; critical sections are atomic steps, the
  condition variable wakes threads, also spuriously. An abstract bag of tasks is refined.
  File_Tree with Tree_Invariant, Tree_Operations, Tree_Traversal, Node_Distance: file_tree.h,
  file_tree.cpp on a heap of nodes and classes; the invariant \<open>heap_ok\<close> (pointers agree, counters
  count, classes list their members) and what the operations do to it. Locale \<open>unordered_env\<close>: what
  holds of any iteration order of the unordered containers.
  Fuzzy_Dedup with Leaf_Classes, Propagation, Uniqueness, Tree_Scan, Dedup_Run: fuzzy_dedup.h,
  fuzzy_dedup.cpp, phase by phase and as a whole (\<open>FuzzyDedup\<close>). Leaf_Phase: the locale
  \<open>leaf_invariant\<close> of what the classification of leaves keeps. Class_Weights, Weight_Bounds,
  Identical_Dirs: which weights are 0, how large they get, when a distance is 0, and that directories
  with the same files end in one class. Weight_Bounds also states what the propagation and
  \<open>FuzzyDedup\<close> on a database yield, whose instances rest on the bounds.
  Dir_Compare, Compare_Directories: dir_compare.h, dir_compare.cpp. The locales \<open>path_hashes\<close> (the
  boost::multi_index table) and \<open>compare_stream\<close> (a stream that keeps its promise) are interpreted on
  a sorted list, on the printing stream and on the database stream.
  Destruction: the destructors of nodes, classes and results.
  Db_Lib, Sql_Statements, Sql_Types: db_lib.h, db_lib_impl.h, db_lib.cpp over SQLite as a parameter (record
  \<open>sqlite_api\<close>, locales \<open>sqlite\<close> and \<open>dupa_sqlite\<close>); the meaning of the SQL texts of the program with
  their constraints; an in-memory database that satisfies the laws; the types of columns and parameters.
  Sql_Handles: the lifetimes of statements and connections, with the destructors at the ends of scopes.
  Dedup_Db, Compare_Db, Result_Printing: db_output.h, db_output.cpp and the printing in file_tree.cpp.
  Dupa_Main: dupa.cpp, with the cache (\<open>cached_main_body\<close>, \<open>dupa_main\<close>) and on plain files (\<open>main_body\<close>).
  Dedup_Properties, Run_Properties, Scan_Properties, Cached_Properties: properties of the tree, of
  duplicate detection, of the scans and of the program with instances on small examples. Program_Runs:
  a whole run on one directory and on two, from the files to what is printed and stored.
  Divergences: the places where the code departs from its comments or from what its callers need.

  What the theorems show. The scan terminates under every schedule and reports every directory and
  file exactly as often as a recursive walk does; the pool runs every task once, always terminates and does not overflow its counter; the
  cache is transparent, also when many threads use it at once, so that the whole program behaves as if
  it read every file; a scan fills it, and what warming up stores is read back by later runs. Adding to
  a class keeps the invariant; the distance is the promised fraction, exact for whole weights; duplicate
  detection on any directory or database fires no assertion, puts
  files into one class exactly for equal checksums and directories with the same files into one class,
  classifies every node, sorts the classes and computes the fractions. A comparison reports exactly the differences, its
  report replays the second directory, and printing and storing it lose nothing. Results of duplicate
  detection are printed and stored completely, with all constraints of the tables satisfied, and
  destroyed without freeing anything twice. Every statement keeps the schema of the database, and every
  statement is finalised before its connection is closed.

  Bounds. Recursions along the tree take a bound on the depth, \<open>h_next_node\<close> suffices, because a child
  is allocated after its parent; the work list is bounded by the number of nodes; loops over rows by a
  number that the theorems ask to exceed the number of rows. Where a sum of weights leaves
  \<open>uint64_t\<close>, the conversion is undefined in C++ and the model yields a fault of its own
  (\<open>is_overflow\<close>), which the theorems on duplicate detection name as the only other outcome, and only
  when the run reaches such a sum (\<open>overflow_reached\<close>, \<open>weights_overflow\<close>); \<open>weights_stay_in_range\<close>
  excludes it for trees whose product of numbers of children is not too large. Weights are averaged over classes, so a
  directory may weigh more than its files.

  Parameters. boost (paths, the directory iterator, multi_index, program_options), the system calls,
  SHA-1, SQLite, the iteration order of unordered containers, the order in which \<open>std::sort\<close> leaves
  equal keys (\<open>env_sort\<close>), the addresses of objects, and whether a \<open>std::mutex\<close> can be locked after its
  destructor (\<open>fs_late_lock\<close>), which the theorems that say a scan does not fail assume, as they assume a
  positive number of threads; theory Divergences shows what happens without. The file system does not
  change during a scan and has no cycles of real directories. A condition that SQLite documents as undefined (ROLLBACK
  without a journal) is only reached after an error and only in the result of a failing operation.

  Not modelled: log lines, except the one of a connection that cannot be closed; closing files; allocation failures and
  failures to start a thread; rows whose
  value is NaN or infinite; what destructors do after an exception leaves \<open>main\<close>; the tests and the
  vendored googletest. The members of DBInputIt and DBInStreamPtr that do not compile when they are
  instantiated are reported as findings. That sums of weights stay in \<open>uint64_t\<close> is not proved from the
  sizes of the files.
\<close>

end
